(* ===== verification/Prelude.thy ===== *)
theory Prelude
  imports Main "HOL-Library.Word" "HOL-Library.Monad_Syntax"
begin

text \<open>
  Shared vocabulary of the development: the fixed-width integer types of the C code, byte
  strings, big- and little-endian values of byte strings, and the generic lemmas on words,
  lists and options that the component theories use.

  Conventions.  A C pointer with a length (\<open>const uint8_t *data, size_t len\<close>) is the list of
  the \<open>len\<close> bytes it points to.  \<open>size_t\<close> values are \<open>nat\<close>; the build is the 64-bit one, so an
  operation that may wrap is written with \<open>mod SIZE_MOD\<close>.  A function that returns 0 on error
  and 1 with output parameters on success returns \<open>None\<close> or \<open>Some\<close> of the outputs.
\<close>

unbundle bit_operations_syntax

type_synonym u8 = "8 word"
type_synonym u16 = "16 word"
type_synonym u32 = "32 word"
type_synonym u64 = "64 word"

type_synonym bytes = "u8 list"

abbreviation SIZE_MOD :: nat where
  "SIZE_MOD \<equiv> 18446744073709551616"

abbreviation INT_MAX :: nat where
  "INT_MAX \<equiv> 2147483647"

named_theorems wire_simps "facts that evaluate the byte-level operations"
named_theorems bounds_simps "numeric bounds of words and byte strings"

section \<open>Words\<close>

lemma unat_u8_less [simp, bounds_simps]: "unat (b :: u8) < 256"
  using unsigned_less[of b, where 'a = nat] by simp

lemma unat_u8_le [simp]: "unat (b :: u8) \<le> 255"
  using unat_u8_less[of b] by linarith

lemma unat_u16_less [bounds_simps]: "unat (b :: u16) < 65536"
  using unsigned_less[of b, where 'a = nat] by simp

lemma unat_u32_less [bounds_simps]: "unat (b :: u32) < 4294967296"
  using unsigned_less[of b, where 'a = nat] by simp

lemma unat_u64_less [bounds_simps]: "unat (b :: u64) < 18446744073709551616"
  using unsigned_less[of b, where 'a = nat] by simp

lemma unat_mod_self [simp]:
  "unat (b :: u8) mod 256 = unat b" "unat (c :: u16) mod 65536 = unat c"
  "unat (d :: u32) mod 4294967296 = unat d" "unat (e :: u64) mod SIZE_MOD = unat e"
  by (simp_all add: bounds_simps)

lemma u8_of_nat_unat_mod [simp]: "unat (word_of_nat n :: u8) = n mod 256"
  by (simp add: unat_of_nat)

lemma word_of_nat_mod_u8: "(word_of_nat (n mod 256) :: u8) = word_of_nat n"
  by (rule word_unat_eq_iff [THEN iffD2]) simp

lemma unat_ucast_u8_u64 [simp]: "unat (ucast (b :: u8) :: u64) = unat b"
  using unat_u8_less[of b] by (simp del: unat_u8_less add: unsigned_ucast_eq take_bit_nat_eq_self_iff)

lemma unat_ucast_u8_u32 [simp]: "unat (ucast (b :: u8) :: u32) = unat b"
  using unat_u8_less[of b] by (simp del: unat_u8_less add: unsigned_ucast_eq take_bit_nat_eq_self_iff)

lemma unat_ucast_u8_u16 [simp]: "unat (ucast (b :: u8) :: u16) = unat b"
  using unat_u8_less[of b] by (simp del: unat_u8_less add: unsigned_ucast_eq take_bit_nat_eq_self_iff)

lemma unat_drop_bit: "unat (drop_bit n (w :: 'a::len word)) = unat w div 2 ^ n"
  by (metis drop_bit_eq_div unat_drop_bit_eq)

lemma unat_ucast_to_u8: "unat (ucast (w :: 'a::len word) :: u8) = unat w mod 256"
  by (simp add: unsigned_ucast_eq take_bit_eq_mod)

lemma ucast_to_u8_of_nat: "(ucast (w :: 'a::len word) :: u8) = word_of_nat (unat w)"
  by (rule word_unat_eq_iff [THEN iffD2]) (simp add: unat_ucast_to_u8)


lemma unat_or_disjoint:
  fixes a b :: "'a::len word"
  assumes "a AND b = 0"
  shows "unat (a OR b) = unat a + unat b"
proof -
  have "unat (a + b) = unat a + unat b"
    using assms by (metis disjunctive_add_eq_or unat_plus_if_size unsigned_0 unsigned_and_eq
        unsigned_or_eq)
  then show ?thesis
    using assms by (simp add: disjunctive_add_eq_or)
qed

lemma unat_push_bit_small:
  fixes v :: "'a::len word"
  assumes "unat v * 2 ^ k < 2 ^ LENGTH('a)"
  shows "unat (push_bit k v) = unat v * 2 ^ k"
  using assms unfolding unsigned_push_bit_eq by (simp add: push_bit_eq_mult take_bit_nat_eq_self del: push_bit_eq_mult [symmetric])

lemma bit_unat_bound:
  fixes w :: "'a::len word"
  assumes "bit w n" "unat w < 2 ^ k"
  shows "n < k"
proof (rule ccontr)
  assume "\<not> n < k"
  then have "unat w < 2 ^ n"
    using assms(2) by (meson less_le_trans not_less one_le_numeral power_increasing)
  then have "\<not> bit (unat w) n" by (simp add: bit_iff_odd)
  then show False using assms(1) by (simp add: bit_unsigned_iff bit_imp_le_length)
qed

lemma unat_shift_or:
  fixes v w :: "'a::len word"
  assumes "unat w < 2 ^ k" "unat v * 2 ^ k < 2 ^ LENGTH('a)"
  shows "unat (push_bit k v OR w) = unat v * 2 ^ k + unat w"
proof -
  have "push_bit k v AND w = 0"
    using bit_unat_bound[OF _ assms(1)] by (fastforce intro!: bit_word_eqI simp: bit_simps)
  then show ?thesis
    by (simp add: unat_or_disjoint unat_push_bit_small assms(2))
qed

lemma unat_and_mask: "unat ((w :: 'a::len word) AND mask k) = unat w mod 2 ^ k"
  proof -
  have "unat (take_bit k w) = take_bit k (unat w)"
    by (rule bit_eqI) (auto simp: bit_simps bit_unsigned_iff dest: bit_imp_le_length)
  then show ?thesis by (metis take_bit_eq_mask take_bit_eq_mod)
qed

lemma word_shift_or:
  assumes "k \<le> LENGTH('a::len)" "n < 2 ^ k"
  shows "push_bit k (word_of_nat m) OR word_of_nat n = (word_of_nat (m * 2 ^ k + n) :: 'a word)"
proof -
  have d: "push_bit k m AND n = 0"
    using assms(2) by (auto intro!: bit_eqI simp: bit_simps) (metis bit_take_bit_iff not_le take_bit_nat_eq_self)
  have "push_bit k (word_of_nat m) OR word_of_nat n = (word_of_nat (push_bit k m OR n) :: 'a word)"
    by (rule bit_word_eqI) (auto simp: bit_simps bit_of_nat_iff)
  also have "push_bit k m OR n = m * 2 ^ k + n"
    using d by (simp add: disjunctive_add_eq_or push_bit_eq_mult)
  finally show ?thesis .
qed


lemma u8_and_7f [simp]: "unat ((b :: u8) AND 0x7f) = unat b mod 128"
  using unat_and_mask[of b 7] by (simp add: mask_eq_exp_minus_1)

lemma u8_and_1f [simp]: "unat ((b :: u8) AND 0x1f) = unat b mod 32"
  using unat_and_mask[of b 5] by (simp add: mask_eq_exp_minus_1)

lemma u8_and_80: "(b :: u8) AND 0x80 = 0 \<longleftrightarrow> unat b < 128"
proof -
  have "(b AND 0x80 = 0) \<longleftrightarrow> \<not> bit b 7"
    using and_exp_eq_0_iff_not_bit[of b 7] by simp
  also have "bit b 7 \<longleftrightarrow> bit (unat b) 7"
    by (simp add: bit_unsigned_iff)
  also have "\<dots> \<longleftrightarrow> odd (unat b div 2 ^ 7)"
    by (rule bit_iff_odd)
  also have "unat b div 2 ^ 7 = (if 128 \<le> unat b then 1 else 0)"
    using unat_u8_less[of b] by (auto simp: div_nat_eqI simp del: unat_u8_less)
  finally show ?thesis by (simp add: not_le)
qed

lemma unat_ucast_le:
  "LENGTH('a) \<le> LENGTH('b) \<Longrightarrow> unat (ucast (w :: 'a::len word) :: 'b::len word) = unat w"
  by (simp add: unsigned_ucast_eq take_bit_nat_eq_self_iff) (meson le_less_trans less_le_trans unsigned_less power_increasing one_le_numeral)

section \<open>Byte strings as big- and little-endian numbers\<close>

primrec be_val :: "bytes \<Rightarrow> nat" where
  "be_val [] = 0"
| "be_val (b # bs) = unat b * 256 ^ length bs + be_val bs"

primrec be_bytes :: "nat \<Rightarrow> nat \<Rightarrow> bytes" where
  "be_bytes 0 v = []"
| "be_bytes (Suc n) v = word_of_nat (v div 256 ^ n) # be_bytes n v"

primrec le_val :: "bytes \<Rightarrow> nat" where
  "le_val [] = 0"
| "le_val (b # bs) = unat b + 256 * le_val bs"

primrec le_bytes :: "nat \<Rightarrow> nat \<Rightarrow> bytes" where
  "le_bytes 0 v = []"
| "le_bytes (Suc n) v = word_of_nat v # le_bytes n (v div 256)"

lemma be_val_append: "be_val (xs @ ys) = be_val xs * 256 ^ length ys + be_val ys"
  by (induction xs) (simp_all add: power_add algebra_simps)

lemma be_val_snoc [simp]: "be_val (xs @ [b]) = be_val xs * 256 + unat b"
  by (simp add: be_val_append)

lemma le_val_append: "le_val (xs @ ys) = le_val xs + 256 ^ length xs * le_val ys"
  by (induction xs) (simp_all add: algebra_simps)

lemma be_val_less [bounds_simps]: "be_val xs < 256 ^ length xs"
proof (induction xs)
  case (Cons b bs)
  have "unat b * 256 ^ length bs + be_val bs < (unat b + 1) * 256 ^ length bs"
    using Cons by simp
  also have "\<dots> \<le> 256 * 256 ^ length bs"
    by (intro mult_right_mono) simp_all
  finally show ?case by simp
qed simp

lemma le_val_rev: "le_val (rev xs) = be_val xs"
  by (induction xs) (simp_all add: le_val_append algebra_simps)

lemma be_val_rev: "be_val (rev xs) = le_val xs"
  using le_val_rev[of "rev xs"] by simp

lemma le_val_less [bounds_simps]: "le_val xs < 256 ^ length xs"
  using be_val_less[of "rev xs"] by (simp add: be_val_rev)

lemma length_be_bytes [simp]: "length (be_bytes n v) = n"
  by (induction n) simp_all

lemma length_le_bytes [simp]: "length (le_bytes n v) = n"
  by (induction n arbitrary: v) simp_all

lemma be_val_be_bytes: "be_val (be_bytes n v) = v mod 256 ^ n"
proof (induction n)
  case (Suc n)
  have "v mod 256 ^ Suc n = 256 ^ n * (v div 256 ^ n mod 256) + v mod 256 ^ n"
    using mod_mult2_eq[of v "256 ^ n" 256] by (simp add: mult.commute)
  then show ?case using Suc by simp
qed simp

lemma be_bytes_mod: "be_bytes n (v mod 256 ^ m) = be_bytes n v" if "n \<le> m"
  using that
proof (induction n)
  case (Suc n)
  have "v mod 256 ^ m div 256 ^ n mod 256 = v div 256 ^ n mod 256"
  proof -
    have "v mod 256 ^ m mod 256 ^ Suc n = v mod 256 ^ Suc n"
      by (rule mod_mod_cancel [OF le_imp_power_dvd [OF Suc.prems]])
    then have "(v mod 256 ^ m mod (256 ^ n * 256)) div 256 ^ n = (v mod (256 ^ n * 256)) div 256 ^ n"
      by (simp add: mult.commute)
    then show ?thesis
      by (simp add: mod_mult2_eq)
  qed
  then have "(word_of_nat (v mod 256 ^ m div 256 ^ n) :: u8) = word_of_nat (v div 256 ^ n)"
    by (metis word_of_nat_mod_u8)
  then show ?case using Suc by simp
qed simp

lemma be_bytes_be_val [simp]: "be_bytes (length xs) (be_val xs) = xs"
proof (induction xs)
  case (Cons b bs)
  have d: "(unat b * 256 ^ length bs + be_val bs) div 256 ^ length bs = unat b"
    using be_val_less[of bs] by simp
  have "be_bytes (length bs) (unat b * 256 ^ length bs + be_val bs) = be_bytes (length bs) (be_val bs)"
    using be_bytes_mod[of "length bs" "length bs" "unat b * 256 ^ length bs + be_val bs"] be_val_less[of bs]
    by simp
  with d Cons show ?case by simp
qed simp

lemma be_val_inj: "length xs = length ys \<Longrightarrow> be_val xs = be_val ys \<longleftrightarrow> xs = ys"
  by (metis be_bytes_be_val)

lemma be_bytes_snoc: "be_bytes (Suc n) v = be_bytes n (v div 256) @ [word_of_nat v]"
proof -
  let ?x = "be_bytes n (v div 256) @ [word_of_nat v :: u8]"
  have "v div 256 mod 256 ^ n * 256 + v mod 256 = v mod (256 * 256 ^ n)"
    by (simp add: mod_mult2_eq mult.commute)
  then have "be_val (be_bytes (Suc n) v) = be_val ?x"
    unfolding be_val_be_bytes be_val_snoc u8_of_nat_unat_mod by simp
  then show ?thesis
    using be_val_inj[of "be_bytes (Suc n) v" ?x] by simp
qed

lemma le_bytes_eq_rev: "le_bytes n v = rev (be_bytes n v)"
  by (induction n arbitrary: v) (simp_all only: le_bytes.simps be_bytes_snoc rev_append, simp_all)

lemma be_bytes_eq_rev: "be_bytes n v = rev (le_bytes n v)"
  by (simp add: le_bytes_eq_rev)

lemma le_val_le_bytes: "le_val (le_bytes n v) = v mod 256 ^ n"
  by (simp add: le_bytes_eq_rev le_val_rev be_val_be_bytes)

lemma le_bytes_le_val [simp]: "le_bytes (length xs) (le_val xs) = xs"
  by (metis be_bytes_be_val be_val_rev le_bytes_eq_rev length_rev rev_rev_ident)

lemma unat_be_small:
  assumes "length xs = n" and "256 ^ n \<le> (2::nat) ^ LENGTH('a::len)"
  shows "unat (word_of_nat (be_val xs) :: 'a word) = be_val xs"
  using be_val_less[of xs] assms by (simp add: unat_of_nat)

section \<open>Prefix codecs\<close>

text \<open>
  The contract between an encoder and a reader that takes one value off the front of a byte
  string and leaves the rest.  A client that writes values one after another gets from it that
  the encodings are prefix-free and that a sequence of values is read back as it was written.
\<close>

locale prefix_codec =
  fixes enc :: "'a \<Rightarrow> bytes"
    and dec :: "bytes \<Rightarrow> ('a \<times> bytes) option"
    and ok :: "'a \<Rightarrow> bool"
  assumes dec_enc: "ok x \<Longrightarrow> dec (enc x @ r) = Some (x, r)"
    and enc_dec: "dec c = Some (x, r) \<Longrightarrow> ok x \<and> c = enc x @ r"
    and enc_nonempty: "ok x \<Longrightarrow> enc x \<noteq> []"
begin

lemma dec_iff: "dec c = Some (x, r) \<longleftrightarrow> ok x \<and> c = enc x @ r"
  using dec_enc enc_dec by blast

lemma prefix_free:
  assumes "ok x" "ok y" "enc x @ r = enc y @ s"
  shows "x = y \<and> r = s"
  using dec_enc[OF assms(1), of r] dec_enc[OF assms(2), of s]
  unfolding assms(3) by (simp only: option.inject prod.inject)

lemma enc_inj: "ok x \<Longrightarrow> ok y \<Longrightarrow> enc x = enc y \<Longrightarrow> x = y"
  using prefix_free[of x y "[]" "[]"] by simp

lemma concat_inj:
  "\<forall>x\<in>set xs. ok x \<Longrightarrow> \<forall>y\<in>set ys. ok y \<Longrightarrow> concat (map enc xs) = concat (map enc ys) \<Longrightarrow> xs = ys"
proof (induction xs arbitrary: ys)
  case Nil
  then show ?case using enc_nonempty by (cases ys) auto
next
  case (Cons x xs)
  have "enc x \<noteq> []" using Cons.prems(1) by (intro enc_nonempty) simp
  then have "ys \<noteq> []" using Cons.prems(3) by auto
  then obtain y zs where ys: "ys = y # zs" by (cases ys) simp_all
  then have "x = y \<and> concat (map enc xs) = concat (map enc zs)"
    using Cons.prems by (intro prefix_free) simp_all
  moreover have "xs = zs" using Cons.IH[of zs] calculation Cons.prems ys by simp
  ultimately show ?case using ys by simp
qed

primrec dec_list :: "nat \<Rightarrow> bytes \<Rightarrow> ('a list \<times> bytes) option" where
  "dec_list 0 c = Some ([], c)"
| "dec_list (Suc n) c =
     (case dec c of
        None \<Rightarrow> None
      | Some (x, c) \<Rightarrow> map_option (\<lambda>(xs, c). (x # xs, c)) (dec_list n c))"

lemma dec_list_enc:
  "\<forall>x\<in>set xs. ok x \<Longrightarrow> dec_list (length xs) (concat (map enc xs) @ r) = Some (xs, r)"
  by (induction xs) (simp_all add: dec_enc)

lemma dec_shorter: "dec c = Some (x, r) \<Longrightarrow> length r < length c"
  using enc_dec[of c x r] enc_nonempty[of x] by auto

end

end
