(* ===== verification/Endian.thy ===== *)
theory Endian
  imports Prelude
begin

text \<open>
  Endianness conversions, loads, stores and rotations of \<open>crypto/internal.h\<close>.  The target is
  little-endian, so \<open>memcpy\<close> of an integer object reads and writes \<^const>\<open>le_val\<close> and
  \<^const>\<open>le_bytes\<close>; the byte swaps are the portable definitions of the header (the compiler
  builtins used by GCC and Clang compute the same function).
\<close>

definition CRYPTO_bswap2 :: "u16 \<Rightarrow> u16" where
  "CRYPTO_bswap2 x = drop_bit 8 x OR push_bit 8 x"

definition CRYPTO_bswap4 :: "u32 \<Rightarrow> u32" where
  "CRYPTO_bswap4 x =
     (let x = drop_bit 16 x OR push_bit 16 x
      in drop_bit 8 (x AND 0xff00ff00) OR push_bit 8 (x AND 0x00ff00ff))"

definition CRYPTO_bswap8 :: "u64 \<Rightarrow> u64" where
  "CRYPTO_bswap8 x =
     ucast (CRYPTO_bswap4 (ucast (drop_bit 32 x))) OR push_bit 32 (ucast (CRYPTO_bswap4 (ucast x)))"

definition CRYPTO_load_u32_le :: "bytes \<Rightarrow> u32" where
  "CRYPTO_load_u32_le p = word_of_nat (le_val (take 4 p))"

definition CRYPTO_store_u32_le :: "u32 \<Rightarrow> bytes" where
  "CRYPTO_store_u32_le v = le_bytes 4 (unat v)"

definition CRYPTO_load_u32_be :: "bytes \<Rightarrow> u32" where
  "CRYPTO_load_u32_be p = CRYPTO_bswap4 (word_of_nat (le_val (take 4 p)))"

definition CRYPTO_store_u32_be :: "u32 \<Rightarrow> bytes" where
  "CRYPTO_store_u32_be v = (let v = CRYPTO_bswap4 v in le_bytes 4 (unat v))"

definition CRYPTO_load_u64_be :: "bytes \<Rightarrow> u64" where
  "CRYPTO_load_u64_be p = CRYPTO_bswap8 (word_of_nat (le_val (take 8 p)))"

definition CRYPTO_store_u64_be :: "u64 \<Rightarrow> bytes" where
  "CRYPTO_store_u64_be v = (let v = CRYPTO_bswap8 v in le_bytes 8 (unat v))"

definition CRYPTO_load_word_le :: "bytes \<Rightarrow> u64" where
  "CRYPTO_load_word_le p = word_of_nat (le_val (take 8 p))"

definition CRYPTO_store_word_le :: "u64 \<Rightarrow> bytes" where
  "CRYPTO_store_word_le v = le_bytes 8 (unat v)"

definition CRYPTO_rotl_u32 :: "u32 \<Rightarrow> nat \<Rightarrow> u32" where
  "CRYPTO_rotl_u32 x n = push_bit n x OR drop_bit ((32 - n) mod 32) x"

definition CRYPTO_rotr_u32 :: "u32 \<Rightarrow> nat \<Rightarrow> u32" where
  "CRYPTO_rotr_u32 x n = drop_bit n x OR push_bit ((32 - n) mod 32) x"

definition CRYPTO_rotl_u64 :: "u64 \<Rightarrow> nat \<Rightarrow> u64" where
  "CRYPTO_rotl_u64 x n = push_bit n x OR drop_bit ((64 - n) mod 64) x"

definition CRYPTO_rotr_u64 :: "u64 \<Rightarrow> nat \<Rightarrow> u64" where
  "CRYPTO_rotr_u64 x n = drop_bit n x OR push_bit ((64 - n) mod 64) x"

section \<open>Bits of a little-endian value\<close>

lemma le_val_horner: "int (le_val bs) = horner_sum uint (2 ^ LENGTH(8)) bs"
  by (induction bs) simp_all

lemma bit_le_val: "bit (le_val bs) n \<longleftrightarrow> n div 8 < length bs \<and> bit (bs ! (n div 8)) (n mod 8)"
  using bit_horner_sum_uint_exp_iff[of bs n]
  unfolding le_val_horner [symmetric] by (simp add: bit_of_nat_iff possible_bit_def)

lemma bit_of_le_val:
  "bit (word_of_nat (le_val bs) :: 'a::len word) n \<longleftrightarrow>
     n < LENGTH('a) \<and> n div 8 < length bs \<and> bit (bs ! (n div 8)) (n mod 8)"
  by (auto simp: bit_of_nat_iff bit_le_val)

lemma bit_nth_le_bytes: "i < n \<Longrightarrow> bit (le_bytes n v ! i) k \<longleftrightarrow> k < 8 \<and> bit v (8 * i + k)"
proof (induction n arbitrary: v i)
  case (Suc n)
  have d: "v div 256 = drop_bit 8 v" by (simp add: drop_bit_eq_div)
  show ?case
  proof (cases i)
    case 0
    then show ?thesis by (auto simp: bit_of_nat_iff)
  next
    case (Suc j)
    with Suc.IH[of j "v div 256"] Suc.prems show ?thesis
      by (simp add: d bit_drop_bit_eq add.assoc algebra_simps)
  qed
qed simp

lemma bswap2_bit: "n < 16 \<Longrightarrow> bit (CRYPTO_bswap2 w) n \<longleftrightarrow> bit w (8 * (1 - n div 8) + n mod 8)"
  by (cases "n < 8") (auto simp: CRYPTO_bswap2_def bit_simps le_div_geq le_mod_geq dest: bit_imp_le_length)

lemma mask_ff00ff00: "(0xff00ff00 :: u32) = push_bit 8 (mask 8) OR push_bit 24 (mask 8)"
  by (simp add: mask_eq_exp_minus_1 push_bit_eq_mult)

lemma mask_00ff00ff: "(0x00ff00ff :: u32) = mask 8 OR push_bit 16 (mask 8)"
  by (simp add: mask_eq_exp_minus_1 push_bit_eq_mult)

lemma bswap4_bit: "n < 32 \<Longrightarrow> bit (CRYPTO_bswap4 w) n \<longleftrightarrow> bit w (8 * (3 - n div 8) + n mod 8)"
proof -
  assume n: "n < 32"
  consider "n < 8" | "8 \<le> n" "n < 16" | "16 \<le> n" "n < 24" | "24 \<le> n" "n < 32"
    using n by linarith
  then show ?thesis
    by cases (auto simp: CRYPTO_bswap4_def Let_def mask_ff00ff00 mask_00ff00ff bit_simps le_div_geq
        le_mod_geq dest: bit_imp_le_length)
qed

lemma bswap8_bit: "n < 64 \<Longrightarrow> bit (CRYPTO_bswap8 w) n \<longleftrightarrow> bit w (8 * (7 - n div 8) + n mod 8)"
proof -
  assume n: "n < 64"
  show ?thesis
  proof (cases "n < 32")
    case True
    then have "n div 8 = 0 \<or> n div 8 = 1 \<or> n div 8 = 2 \<or> n div 8 = 3" by linarith
    with True show ?thesis
      by (auto simp: CRYPTO_bswap8_def bit_simps bswap4_bit)
  next
    case False
    define m where "m = n - 32"
    with False n have m: "n = m + 32" "m < 32" by simp_all
    then have "m div 8 = 0 \<or> m div 8 = 1 \<or> m div 8 = 2 \<or> m div 8 = 3" by linarith
    moreover have "(m + 32) div 8 = m div 8 + 4" "(m + 32) mod 8 = m mod 8" by presburger+
    ultimately show ?thesis
      using m by (auto simp: CRYPTO_bswap8_def bit_simps bswap4_bit dest: bit_imp_le_length)
  qed
qed

section \<open>Swapping reverses the bytes\<close>

lemma le_bytes_bswap_gen:
  fixes w w' :: "'a::len word"
  assumes len: "LENGTH('a) = 8 * k"
    and b: "\<And>n. n < 8 * k \<Longrightarrow> bit w' n \<longleftrightarrow> bit w (8 * (k - 1 - n div 8) + n mod 8)"
  shows "le_bytes k (unat w') = be_bytes k (unat w)"
proof (rule nth_equalityI)
  fix i assume "i < length (le_bytes k (unat w'))"
  then have i: "i < k" by simp
  show "le_bytes k (unat w') ! i = be_bytes k (unat w) ! i"
  proof (rule bit_word_eqI)
    fix j assume j: "j < LENGTH(8)"
    have lt: "8 * i + j < 8 * k" using i j by simp
    have dm: "(8 * i + j) div 8 = i" "(8 * i + j) mod 8 = j" using j by simp_all
    have "bit (le_bytes k (unat w') ! i) j \<longleftrightarrow> bit w (8 * (k - 1 - i) + j)"
      using i j lt b[OF lt] by (simp add: bit_nth_le_bytes bit_unsigned_iff len dm)
    moreover have "bit (be_bytes k (unat w) ! i) j \<longleftrightarrow> bit w (8 * (k - 1 - i) + j)"
      using i j by (simp add: be_bytes_eq_rev rev_nth bit_nth_le_bytes bit_unsigned_iff len)
    ultimately show "bit (le_bytes k (unat w') ! i) j \<longleftrightarrow> bit (be_bytes k (unat w) ! i) j"
      by simp
  qed
qed simp

lemma le_bytes_bswap2: "le_bytes 2 (unat (CRYPTO_bswap2 w)) = be_bytes 2 (unat w)"
  by (rule le_bytes_bswap_gen) (simp_all add: bswap2_bit)

lemma le_bytes_bswap4: "le_bytes 4 (unat (CRYPTO_bswap4 w)) = be_bytes 4 (unat w)"
  by (rule le_bytes_bswap_gen) (simp_all add: bswap4_bit)

lemma le_bytes_bswap8: "le_bytes 8 (unat (CRYPTO_bswap8 w)) = be_bytes 8 (unat w)"
  by (rule le_bytes_bswap_gen) (simp_all add: bswap8_bit)

lemma unat_eq_le_bytes:
  fixes v w :: "'a::len word"
  assumes "LENGTH('a) = 8 * k" "le_bytes k (unat v) = le_bytes k (unat w)"
  shows "v = w"
proof -
  have "unat x mod 256 ^ k = unat x" for x :: "'a word"
    using unsigned_less[of x, where 'a = nat] assms(1) by (simp add: power_mult)
  then have "unat v = unat w"
    using assms(2) by (metis le_val_le_bytes)
  then show ?thesis by (simp add: word_unat_eq_iff)
qed

lemma bswap4_bswap4 [simp]: "CRYPTO_bswap4 (CRYPTO_bswap4 w) = w"
proof -
  have "le_bytes 4 (unat (CRYPTO_bswap4 (CRYPTO_bswap4 w))) = le_bytes 4 (unat w)"
    by (simp only: le_bytes_bswap4 be_bytes_eq_rev rev_rev_ident)
  then show ?thesis
    by (rule unat_eq_le_bytes[rotated]) simp
qed

lemma CRYPTO_store_u32_be [wire_simps]: "CRYPTO_store_u32_be v = be_bytes 4 (unat v)"
  by (simp add: CRYPTO_store_u32_be_def le_bytes_bswap4)

lemma CRYPTO_store_u64_be [wire_simps]: "CRYPTO_store_u64_be v = be_bytes 8 (unat v)"
  by (simp add: CRYPTO_store_u64_be_def le_bytes_bswap8)

lemma le_val_of_bytes:
  assumes "length p = k" "LENGTH('a::len) = 8 * k"
  shows "unat (word_of_nat (le_val p) :: 'a word) = le_val p"
  using le_val_less[of p] assms by (simp add: unat_of_nat power_mult)

lemma CRYPTO_load_u32_be:
  assumes "4 \<le> length p"
  shows "CRYPTO_load_u32_be p = word_of_nat (be_val (take 4 p))"
proof -
  let ?b = "take 4 p"
  have l: "length ?b = 4" using assms by simp
  have "le_bytes 4 (unat (CRYPTO_load_u32_be p)) = be_bytes 4 (le_val ?b)"
    unfolding CRYPTO_load_u32_be_def using l by (simp add: le_bytes_bswap4 le_val_of_bytes)
  also have "\<dots> = rev ?b"
    using l le_bytes_le_val[of ?b] by (simp add: be_bytes_eq_rev)
  also have "\<dots> = le_bytes 4 (unat (word_of_nat (be_val ?b) :: u32))"
    using l be_bytes_be_val[of ?b] by (simp add: unat_be_small le_bytes_eq_rev)
  finally show ?thesis
    by (rule unat_eq_le_bytes[rotated]) simp
qed

lemma CRYPTO_load_u64_be:
  assumes "8 \<le> length p"
  shows "CRYPTO_load_u64_be p = word_of_nat (be_val (take 8 p))"
proof -
  let ?b = "take 8 p"
  have l: "length ?b = 8" using assms by simp
  have "le_bytes 8 (unat (CRYPTO_load_u64_be p)) = be_bytes 8 (le_val ?b)"
    unfolding CRYPTO_load_u64_be_def using l by (simp add: le_bytes_bswap8 le_val_of_bytes)
  also have "\<dots> = rev ?b"
    using l le_bytes_le_val[of ?b] by (simp add: be_bytes_eq_rev)
  also have "\<dots> = le_bytes 8 (unat (word_of_nat (be_val ?b) :: u64))"
    using l be_bytes_be_val[of ?b] by (simp add: unat_be_small le_bytes_eq_rev)
  finally show ?thesis
    by (rule unat_eq_le_bytes[rotated]) simp
qed

lemma load_store_u32_be [simp]: "CRYPTO_load_u32_be (CRYPTO_store_u32_be v @ rest) = v"
  by (simp add: CRYPTO_load_u32_be CRYPTO_store_u32_be be_val_be_bytes)

lemma load_store_u64_be [simp]: "CRYPTO_load_u64_be (CRYPTO_store_u64_be v @ rest) = v"
  by (simp add: CRYPTO_load_u64_be CRYPTO_store_u64_be be_val_be_bytes)

lemma load_store_u32_le [simp]: "CRYPTO_load_u32_le (CRYPTO_store_u32_le v @ rest) = v"
  by (simp add: CRYPTO_load_u32_le_def CRYPTO_store_u32_le_def le_val_le_bytes)

lemma length_store [simp]:
  "length (CRYPTO_store_u32_be v) = 4" "length (CRYPTO_store_u32_le v) = 4"
  "length (CRYPTO_store_u64_be w) = 8" "length (CRYPTO_store_word_le w) = 8"
  by (simp_all add: CRYPTO_store_u32_be CRYPTO_store_u32_le_def CRYPTO_store_u64_be
      CRYPTO_store_word_le_def)

text \<open>Xoring two words loaded from memory and storing the result xors the bytes.\<close>

lemma store_xor_word_le:
  assumes "length p = 8" "length q = 8"
  shows "CRYPTO_store_word_le (CRYPTO_load_word_le p XOR CRYPTO_load_word_le q) = map2 (XOR) p q"
proof (rule nth_equalityI)
  fix i assume "i < length (CRYPTO_store_word_le (CRYPTO_load_word_le p XOR CRYPTO_load_word_le q))"
  then have i: "i < 8" by simp
  show "CRYPTO_store_word_le (CRYPTO_load_word_le p XOR CRYPTO_load_word_le q) ! i = map2 (XOR) p q ! i"
    unfolding CRYPTO_store_word_le_def CRYPTO_load_word_le_def
    by (rule bit_word_eqI)
      (use i assms in \<open>simp add: bit_nth_le_bytes bit_unsigned_iff bit_xor_iff bit_of_le_val\<close>)
qed (simp add: assms)

lemma store_load_word_le:
  assumes "length p = 8"
  shows "CRYPTO_store_word_le (CRYPTO_load_word_le p) = p"
  using assms le_bytes_le_val[of p] le_val_less[of p]
  by (simp add: CRYPTO_store_word_le_def CRYPTO_load_word_le_def unat_of_nat)

section \<open>Rotations\<close>

lemma rotl_as_shifts:
  fixes x :: "'a::len word"
  assumes "0 < n" "n < LENGTH('a)"
  shows "push_bit n x OR drop_bit (LENGTH('a) - n) x = word_rotl n x"
proof (rule bit_word_eqI)
  fix m assume m: "m < LENGTH('a)"
  have e: "(m + LENGTH('a) - n) mod LENGTH('a) = (if n \<le> m then m - n else m + LENGTH('a) - n)"
  proof (cases "n \<le> m")
    case True
    with assms have "m + LENGTH('a) - n = (m - n) + LENGTH('a)" by simp
    then have "(m + LENGTH('a) - n) mod LENGTH('a) = (m - n) mod LENGTH('a)"
      by (simp only: mod_add_self2)
    also have "\<dots> = m - n" using m by simp
    finally show ?thesis by (simp only: True if_True)
  qed (use assms in simp)
  show "bit (push_bit n x OR drop_bit (LENGTH('a) - n) x) m = bit (word_rotl n x) m"
    using assms m by (auto simp: bit_simps bit_word_rotl_iff e add.commute dest: bit_imp_le_length)
qed

lemma rotr_as_shifts:
  fixes x :: "'a::len word"
  assumes "0 < n" "n < LENGTH('a)"
  shows "drop_bit n x OR push_bit (LENGTH('a) - n) x = word_rotr n x"
proof -
  have "word_rotr n x = word_rotl (LENGTH('a) - n) x"
    using assms by (intro bit_word_eqI) (auto simp: bit_word_rotl_iff bit_word_rotr_iff)
  with rotl_as_shifts[of "LENGTH('a) - n" x] assms show ?thesis
    by (simp add: or.commute)
qed

lemma CRYPTO_rotl_u32_eq: "0 < n \<Longrightarrow> n < 32 \<Longrightarrow> CRYPTO_rotl_u32 x n = word_rotl n x"
  using rotl_as_shifts[of n x] by (simp add: CRYPTO_rotl_u32_def)

lemma CRYPTO_rotr_u32_eq: "0 < n \<Longrightarrow> n < 32 \<Longrightarrow> CRYPTO_rotr_u32 x n = word_rotr n x"
  using rotr_as_shifts[of n x] by (simp add: CRYPTO_rotr_u32_def)

lemma CRYPTO_rotl_u64_eq: "0 < n \<Longrightarrow> n < 64 \<Longrightarrow> CRYPTO_rotl_u64 x n = word_rotl n x"
  using rotl_as_shifts[of n x] by (simp add: CRYPTO_rotl_u64_def)

lemma CRYPTO_rotr_u64_eq: "0 < n \<Longrightarrow> n < 64 \<Longrightarrow> CRYPTO_rotr_u64 x n = word_rotr n x"
  using rotr_as_shifts[of n x] by (simp add: CRYPTO_rotr_u64_def)

end
