(* ===== verification/ConstTime.thy ===== *)
theory ConstTime
  imports Prelude
begin

text \<open>
  The constant-time primitives of \<open>crypto/internal.h\<close>, on the 64-bit \<open>crypto_word_t\<close>.
  \<open>value_barrier_w\<close> only hides a value from the optimiser and returns its argument.  The
  lemmas show that each mask is all ones exactly when the comparison holds, so that the
  branch-free code equals the branching one.
\<close>

type_synonym crypto_word = u64

abbreviation CONSTTIME_TRUE_W :: crypto_word where "CONSTTIME_TRUE_W \<equiv> NOT 0"
abbreviation CONSTTIME_FALSE_W :: crypto_word where "CONSTTIME_FALSE_W \<equiv> 0"
abbreviation CONSTTIME_TRUE_8 :: u8 where "CONSTTIME_TRUE_8 \<equiv> 0xff"
abbreviation CONSTTIME_FALSE_8 :: u8 where "CONSTTIME_FALSE_8 \<equiv> 0"

definition value_barrier_w :: "crypto_word \<Rightarrow> crypto_word" where
  "value_barrier_w a = a"

definition constant_time_msb_w :: "crypto_word \<Rightarrow> crypto_word" where
  "constant_time_msb_w a = 0 - drop_bit 63 a"

definition constant_time_lt_w :: "crypto_word \<Rightarrow> crypto_word \<Rightarrow> crypto_word" where
  "constant_time_lt_w a b = constant_time_msb_w (a XOR ((a XOR b) OR ((a - b) XOR a)))"

definition constant_time_lt_8 :: "crypto_word \<Rightarrow> crypto_word \<Rightarrow> u8" where
  "constant_time_lt_8 a b = ucast (constant_time_lt_w a b)"

definition constant_time_ge_w :: "crypto_word \<Rightarrow> crypto_word \<Rightarrow> crypto_word" where
  "constant_time_ge_w a b = NOT (constant_time_lt_w a b)"

definition constant_time_ge_8 :: "crypto_word \<Rightarrow> crypto_word \<Rightarrow> u8" where
  "constant_time_ge_8 a b = ucast (constant_time_ge_w a b)"

definition constant_time_is_zero_w :: "crypto_word \<Rightarrow> crypto_word" where
  "constant_time_is_zero_w a = constant_time_msb_w (NOT a AND (a - 1))"

definition constant_time_is_zero_8 :: "crypto_word \<Rightarrow> u8" where
  "constant_time_is_zero_8 a = ucast (constant_time_is_zero_w a)"

definition constant_time_eq_w :: "crypto_word \<Rightarrow> crypto_word \<Rightarrow> crypto_word" where
  "constant_time_eq_w a b = constant_time_is_zero_w (a XOR b)"

definition constant_time_eq_8 :: "crypto_word \<Rightarrow> crypto_word \<Rightarrow> u8" where
  "constant_time_eq_8 a b = ucast (constant_time_eq_w a b)"

definition constant_time_select_w :: "crypto_word \<Rightarrow> crypto_word \<Rightarrow> crypto_word \<Rightarrow> crypto_word" where
  "constant_time_select_w m a b =
     (value_barrier_w m AND a) OR (value_barrier_w (NOT m) AND b)"

definition constant_time_select_8 :: "u8 \<Rightarrow> u8 \<Rightarrow> u8 \<Rightarrow> u8" where
  "constant_time_select_8 m a b =
     ucast (constant_time_select_w (ucast m) (ucast a) (ucast b))"

section \<open>Masks\<close>

lemma drop_bit_63: "drop_bit 63 (a :: crypto_word) = (if bit a 63 then 1 else 0)"
proof (rule bit_word_eqI)
  fix n assume "n < LENGTH(64)"
  show "bit (drop_bit 63 a) n = bit (if bit a 63 then 1 else 0 :: crypto_word) n"
  proof (cases n)
    case (Suc m)
    then have "\<not> bit a (63 + n)" using bit_imp_le_length[of a "63 + n"] by auto
    with Suc show ?thesis by (simp add: bit_simps bit_1_iff)
  qed (simp add: bit_simps bit_1_iff)
qed

lemma msb_w: "constant_time_msb_w a = (if bit a 63 then CONSTTIME_TRUE_W else CONSTTIME_FALSE_W)"
  by (simp add: constant_time_msb_w_def drop_bit_63)

lemma bit_63: "bit (a :: crypto_word) 63 \<longleftrightarrow> 2 ^ 63 \<le> unat a"
proof -
  have "bit a 63 \<longleftrightarrow> bit (unat a) 63"
    by (simp add: bit_unsigned_iff)
  also have "\<dots> \<longleftrightarrow> odd (unat a div 2 ^ 63)"
    by (rule bit_iff_odd)
  also have "unat a div 2 ^ 63 = (if 2 ^ 63 \<le> unat a then 1 else 0)"
    using unat_u64_less[of a] by (auto simp: div_nat_eqI)
  finally show ?thesis by simp
qed

lemma unat_sub_64:
  "unat (a - b :: u64) = (if unat b \<le> unat a then unat a - unat b else unat a + SIZE_MOD - unat b)"
  unfolding unat_sub_if' word_le_nat_alt by (cases "unat b \<le> unat a") simp_all

lemma bit_sub_63:
  "bit (a - b :: u64) 63 \<longleftrightarrow>
     2 ^ 63 \<le> (if unat b \<le> unat a then unat a - unat b else unat a + SIZE_MOD - unat b)"
  by (simp add: bit_63 unat_sub_64)

lemma lt_bits_63:
  "bit (a XOR ((a XOR b) OR ((a - b) XOR a))) 63 \<longleftrightarrow>
     bit a 63 \<noteq> (bit a 63 \<noteq> bit b 63 \<or> bit (a - b) 63 \<noteq> bit a 63)"
  for a b :: crypto_word
  by (simp only: bit_xor_iff bit_or_iff)

lemma lt_case_63:
  "x < SIZE_MOD \<Longrightarrow> y < SIZE_MOD \<Longrightarrow>
   ((2 ^ 63 \<le> x) \<noteq> ((2 ^ 63 \<le> x) \<noteq> (2 ^ 63 \<le> y) \<or>
     (2 ^ 63 \<le> (if y \<le> x then x - y else x + SIZE_MOD - y)) \<noteq> (2 ^ 63 \<le> x))) \<longleftrightarrow> x < y"
  for x y :: nat
  by (cases "2 ^ 63 \<le> x"; cases "2 ^ 63 \<le> y"; cases "y \<le> x") simp_all

lemma constant_time_lt_w [simp]:
  "constant_time_lt_w a b = (if a < b then CONSTTIME_TRUE_W else CONSTTIME_FALSE_W)"
  unfolding constant_time_lt_w_def msb_w lt_bits_63 bit_63[of a] bit_63[of b] bit_sub_63
    lt_case_63 [OF unat_u64_less unat_u64_less] word_less_nat_alt ..

lemma constant_time_ge_w [simp]:
  "constant_time_ge_w a b = (if b \<le> a then CONSTTIME_TRUE_W else CONSTTIME_FALSE_W)"
  by (cases "a < b") (simp_all add: constant_time_ge_w_def not_le not_less)

lemma constant_time_is_zero_w [simp]:
  "constant_time_is_zero_w a = (if a = 0 then CONSTTIME_TRUE_W else CONSTTIME_FALSE_W)"
proof -
  have "bit (NOT a AND (a - 1)) 63 \<longleftrightarrow> \<not> bit a 63 \<and> bit (a - 1) 63"
    by (simp add: bit_and_iff bit_not_iff)
  also have "\<dots> \<longleftrightarrow> unat a = 0"
    unfolding bit_63[of a] bit_sub_63
    using unat_u64_less[of a] by auto
  finally show ?thesis by (simp add: constant_time_is_zero_w_def msb_w unat_eq_0)
qed

lemma word_xor_eq_0: "(a XOR b = 0) \<longleftrightarrow> (a = (b :: 'a::len word))"
  by (auto intro!: bit_word_eqI simp: bit_eq_iff bit_simps)

lemma constant_time_eq_w [simp]:
  "constant_time_eq_w a b = (if a = b then CONSTTIME_TRUE_W else CONSTTIME_FALSE_W)"
  by (simp add: constant_time_eq_w_def word_xor_eq_0)

lemma ucast_true_8 [simp]: "(ucast (- 1 :: u64) :: u8) = CONSTTIME_TRUE_8"
  by (rule word_unat_eq_iff [THEN iffD2]) (simp add: unat_ucast_to_u8 unsigned_minus_1_eq_mask mask_eq_exp_minus_1)

lemma constant_time_lt_8 [simp]:
  "constant_time_lt_8 a b = (if a < b then CONSTTIME_TRUE_8 else CONSTTIME_FALSE_8)"
  by (simp add: constant_time_lt_8_def)

lemma constant_time_ge_8 [simp]:
  "constant_time_ge_8 a b = (if b \<le> a then CONSTTIME_TRUE_8 else CONSTTIME_FALSE_8)"
  by (simp add: constant_time_ge_8_def)

lemma constant_time_eq_8 [simp]:
  "constant_time_eq_8 a b = (if a = b then CONSTTIME_TRUE_8 else CONSTTIME_FALSE_8)"
  by (simp add: constant_time_eq_8_def)

lemma constant_time_is_zero_8 [simp]:
  "constant_time_is_zero_8 a = (if a = 0 then CONSTTIME_TRUE_8 else CONSTTIME_FALSE_8)"
  by (simp add: constant_time_is_zero_8_def)

lemma constant_time_select_w [simp]:
  "constant_time_select_w (- 1) a b = a"
  "constant_time_select_w CONSTTIME_FALSE_W a b = b"
  by (simp_all add: constant_time_select_w_def value_barrier_w_def)

lemma select_8_bits:
  "constant_time_select_8 m a b = (m AND a) OR (NOT m AND b)"
  by (rule bit_word_eqI)
    (auto simp: constant_time_select_8_def constant_time_select_w_def value_barrier_w_def bit_simps)

lemma constant_time_select_8 [simp]:
  "constant_time_select_8 CONSTTIME_TRUE_8 a b = a"
  "constant_time_select_8 CONSTTIME_FALSE_8 a b = b"
proof -
  have "CONSTTIME_TRUE_8 = - 1" by simp
  then show "constant_time_select_8 CONSTTIME_TRUE_8 a b = a"
    by (simp only: select_8_bits) simp
qed (simp add: select_8_bits)

end
