(* ===== verification/Mem.thy ===== *)
theory Mem
  imports Prelude Endian
begin

text \<open>
  The memory and C-string helpers of \<open>crypto/mem.c\<close>.

  \<open>OPENSSL_malloc\<close> keeps the size of an allocation in an eight-byte prefix.  The system
  allocator is the parameter \<open>sys_malloc\<close>: \<open>Some\<close> of the contents of the new block, or \<open>None\<close>
  when it refuses.  A block is its raw contents, prefix included; the pointer a caller gets
  is the block without the prefix, \<open>user_data\<close>.  The weak symbols that let an
  application override the allocator are absent in the build.

  A C string in memory is the list of the readable bytes from the pointer on; a function that
  would read or write past that list returns \<open>None\<close>, so a theorem that gives \<open>Some\<close> also says
  that the accesses are in bounds.
\<close>

section \<open>Allocation\<close>

definition OPENSSL_MALLOC_PREFIX :: nat where
  "OPENSSL_MALLOC_PREFIX = 8"

definition user_data :: "bytes \<Rightarrow> bytes" where
  "user_data block = drop OPENSSL_MALLOC_PREFIX block"

definition OPENSSL_malloc :: "(nat \<Rightarrow> bytes option) \<Rightarrow> nat \<Rightarrow> bytes option" where
  "OPENSSL_malloc sys_malloc sz =
     (if (sz + OPENSSL_MALLOC_PREFIX) mod SIZE_MOD < sz then None
      else case sys_malloc ((sz + OPENSSL_MALLOC_PREFIX) mod SIZE_MOD) of
        None \<Rightarrow> None
      | Some ptr \<Rightarrow> Some (le_bytes 8 sz @ drop 8 ptr))"

definition OPENSSL_cleanse :: "bytes \<Rightarrow> nat \<Rightarrow> bytes" where
  "OPENSSL_cleanse ptr len = replicate len 0 @ drop len ptr"

text \<open>The raw block as it goes back to the system allocator.\<close>

definition OPENSSL_free :: "bytes \<Rightarrow> bytes" where
  "OPENSSL_free ptr =
     (let sz = le_val (take 8 ptr)
      in OPENSSL_cleanse ptr (sz + OPENSSL_MALLOC_PREFIX))"

definition OPENSSL_realloc ::
  "(nat \<Rightarrow> bytes option) \<Rightarrow> bytes option \<Rightarrow> nat \<Rightarrow> bytes option" where
  "OPENSSL_realloc sys_malloc orig_ptr new_size =
     (case orig_ptr of
        None \<Rightarrow> OPENSSL_malloc sys_malloc new_size
      | Some orig \<Rightarrow>
          (let old_size = le_val (take 8 orig)
           in case OPENSSL_malloc sys_malloc new_size of
                None \<Rightarrow> None
              | Some ret \<Rightarrow>
                  (let to_copy = (if old_size < new_size then old_size else new_size)
                   in Some (take 8 ret @ take to_copy (user_data orig) @
                            drop to_copy (user_data ret)))))"

definition OPENSSL_memdup :: "(nat \<Rightarrow> bytes option) \<Rightarrow> bytes \<Rightarrow> nat \<Rightarrow> bytes option" where
  "OPENSSL_memdup sys_malloc data sz =
     (if sz = 0 then None
      else case OPENSSL_malloc sys_malloc sz of
        None \<Rightarrow> None
      | Some ret \<Rightarrow> Some (take 8 ret @ take sz data @ drop sz (user_data ret)))"

section \<open>Comparison and hashing\<close>

primrec memcmp_loop :: "bytes \<Rightarrow> bytes \<Rightarrow> nat \<Rightarrow> u8" where
  "memcmp_loop a b 0 = 0"
| "memcmp_loop a b (Suc i) = memcmp_loop a b i OR (a ! i XOR b ! i)"

definition CRYPTO_memcmp :: "bytes \<Rightarrow> bytes \<Rightarrow> nat \<Rightarrow> int" where
  "CRYPTO_memcmp a b len = uint (memcmp_loop a b len)"

definition OPENSSL_hash32 :: "bytes \<Rightarrow> u32" where
  "OPENSSL_hash32 inp = foldl (\<lambda>h b. (h XOR ucast b) * 16777619) 2166136261 inp"

text \<open>The C library's \<open>memcmp\<close>, on blocks of at least \<open>n\<close> bytes.\<close>

fun memcmp :: "bytes \<Rightarrow> bytes \<Rightarrow> nat \<Rightarrow> int" where
  "memcmp (a # as) (b # bs) (Suc n) = (if a < b then - 1 else if a > b then 1 else memcmp as bs n)"
| "memcmp _ _ _ = 0"

section \<open>C strings\<close>

fun strlen :: "bytes \<Rightarrow> nat option" where
  "strlen [] = None"
| "strlen (c # s) = (if c = 0 then Some 0 else map_option Suc (strlen s))"

definition OPENSSL_strhash :: "bytes \<Rightarrow> u32 option" where
  "OPENSSL_strhash s = map_option (\<lambda>n. OPENSSL_hash32 (take n s)) (strlen s)"

fun OPENSSL_strnlen :: "bytes \<Rightarrow> nat \<Rightarrow> nat option" where
  "OPENSSL_strnlen s 0 = Some 0"
| "OPENSSL_strnlen [] (Suc n) = None"
| "OPENSSL_strnlen (c # s) (Suc n) = (if c = 0 then Some 0 else map_option Suc (OPENSSL_strnlen s n))"

definition OPENSSL_strdup :: "(nat \<Rightarrow> bytes option) \<Rightarrow> bytes \<Rightarrow> bytes option" where
  "OPENSSL_strdup sys_malloc s =
     do {
       n \<leftarrow> strlen s;
       let len = n + 1;
       ret \<leftarrow> OPENSSL_malloc sys_malloc len;
       Some (take 8 ret @ take len s @ drop len (user_data ret))
     }"

definition OPENSSL_strndup :: "(nat \<Rightarrow> bytes option) \<Rightarrow> bytes \<Rightarrow> nat \<Rightarrow> bytes option" where
  "OPENSSL_strndup sys_malloc str n =
     do {
       sz \<leftarrow> OPENSSL_strnlen str n;
       let alloc_size = (sz + 1) mod SIZE_MOD;
       if alloc_size < sz then None
       else do {
         ret \<leftarrow> OPENSSL_malloc sys_malloc alloc_size;
         Some (take 8 ret @ (take sz str @ drop sz (user_data ret))[sz := 0])
       }
     }"

definition OPENSSL_tolower :: "int \<Rightarrow> int" where
  "OPENSSL_tolower c = (if 65 \<le> c \<and> c \<le> 90 then c + (97 - 65) else c)"

text \<open>\<open>char\<close> is signed on the targets of the build.\<close>

fun OPENSSL_strcasecmp :: "bytes \<Rightarrow> bytes \<Rightarrow> int option" where
  "OPENSSL_strcasecmp (a # as) (b # bs) =
     (let aa = OPENSSL_tolower (sint a); bb = OPENSSL_tolower (sint b)
      in if aa < bb then Some (- 1)
         else if aa > bb then Some 1
         else if aa = 0 then Some 0
         else OPENSSL_strcasecmp as bs)"
| "OPENSSL_strcasecmp [] _ = None"
| "OPENSSL_strcasecmp _ [] = None"

fun OPENSSL_strncasecmp :: "bytes \<Rightarrow> bytes \<Rightarrow> nat \<Rightarrow> int option" where
  "OPENSSL_strncasecmp _ _ 0 = Some 0"
| "OPENSSL_strncasecmp (a # as) (b # bs) (Suc n) =
     (let aa = OPENSSL_tolower (sint a); bb = OPENSSL_tolower (sint b)
      in if aa < bb then Some (- 1)
         else if aa > bb then Some 1
         else if aa = 0 then Some 0
         else OPENSSL_strncasecmp as bs n)"
| "OPENSSL_strncasecmp [] _ (Suc n) = None"
| "OPENSSL_strncasecmp _ [] (Suc n) = None"

text \<open>\<open>strlcpy\<close> and \<open>strlcat\<close> return the destination memory and the length.\<close>

fun OPENSSL_strlcpy :: "bytes \<Rightarrow> bytes \<Rightarrow> nat \<Rightarrow> (bytes \<times> nat) option" where
  "OPENSSL_strlcpy dst [] dst_size = None"
| "OPENSSL_strlcpy dst (c # src) dst_size =
     (if dst_size > 1 \<and> c \<noteq> 0 then
        (case dst of
           [] \<Rightarrow> None
         | d # ds \<Rightarrow> map_option (\<lambda>(ds', l). (c # ds', l + 1)) (OPENSSL_strlcpy ds src (dst_size - 1)))
      else if dst_size \<noteq> 0 then
        (case dst of
           [] \<Rightarrow> None
         | d # ds \<Rightarrow> map_option (\<lambda>l. (0 # ds, l)) (strlen (c # src)))
      else map_option (\<lambda>l. (dst, l)) (strlen (c # src)))"

fun OPENSSL_strlcat :: "bytes \<Rightarrow> bytes \<Rightarrow> nat \<Rightarrow> (bytes \<times> nat) option" where
  "OPENSSL_strlcat [] src dst_size = (if dst_size > 0 then None else OPENSSL_strlcpy [] src dst_size)"
| "OPENSSL_strlcat (d # dst) src dst_size =
     (if dst_size > 0 \<and> d \<noteq> 0
      then map_option (\<lambda>(ds', l). (d # ds', l + 1)) (OPENSSL_strlcat dst src (dst_size - 1))
      else OPENSSL_strlcpy (d # dst) src dst_size)"

section \<open>Laws\<close>

lemma OPENSSL_malloc_small:
  assumes "n + 8 < SIZE_MOD"
  shows "OPENSSL_malloc m n = map_option (\<lambda>p. le_bytes 8 n @ drop 8 p) (m (n + 8))"
  using assms by (simp add: OPENSSL_malloc_def OPENSSL_MALLOC_PREFIX_def split: option.splits)

lemma OPENSSL_malloc_bound:
  assumes "OPENSSL_malloc m n \<noteq> None" and "n < SIZE_MOD"
  shows "n + 8 < SIZE_MOD"
proof (rule ccontr)
  assume "\<not> n + 8 < SIZE_MOD"
  then have "(n + 8) mod SIZE_MOD = n + 8 - SIZE_MOD" and "n + 8 - SIZE_MOD < n"
    using assms(2) by (simp_all add: le_mod_geq)
  then have "(n + 8) mod SIZE_MOD < n"
    by (simp only:)
  then show False
    using assms(1) by (simp add: OPENSSL_malloc_def OPENSSL_MALLOC_PREFIX_def)
qed

lemma le_val_size: "n < SIZE_MOD \<Longrightarrow> le_val (le_bytes 8 n) = n"
  by (simp add: le_val_le_bytes)

text \<open>A block as the allocator hands it out: the prefix records the length of the data.\<close>

definition block_of :: "bytes \<Rightarrow> bytes" where
  "block_of d = le_bytes 8 (length d) @ d"

lemma user_data_block_of [simp]: "user_data (block_of d) = d"
  by (simp add: user_data_def block_of_def OPENSSL_MALLOC_PREFIX_def)

lemma take_block_of [simp]: "take 8 (block_of d) = le_bytes 8 (length d)"
  by (simp add: block_of_def)

text \<open>What the system's \<open>malloc\<close> documents: a block of at least the size asked for.\<close>

definition alloc_contract :: "(nat \<Rightarrow> bytes option) \<Rightarrow> bool" where
  "alloc_contract m \<longleftrightarrow> (\<forall>n p. m n = Some p \<longrightarrow> length p = n)"

lemma OPENSSL_malloc_block:
  assumes "alloc_contract m" "OPENSSL_malloc m n = Some p" "n < SIZE_MOD"
  obtains d where "p = block_of d" "length d = n"
proof -
  have b: "n + 8 < SIZE_MOD"
    using OPENSSL_malloc_bound[of m n] assms by simp
  then obtain q where q: "m (n + 8) = Some q" "p = le_bytes 8 n @ drop 8 q"
    using assms(2) by (auto simp: OPENSSL_malloc_small)
  then have "length (drop 8 q) = n"
    using assms(1) by (auto simp: alloc_contract_def)
  then show ?thesis
    using q that[of "drop 8 q"] by (simp add: block_of_def)
qed

lemma memcmp_loop_0:
  "n \<le> length a \<Longrightarrow> n \<le> length b \<Longrightarrow> memcmp_loop a b n = 0 \<longleftrightarrow> take n a = take n b"
proof (induction n)
  case (Suc n)
  have "memcmp_loop a b (Suc n) = 0 \<longleftrightarrow> memcmp_loop a b n = 0 \<and> a ! n XOR b ! n = 0"
    by (auto simp: bit_eq_iff bit_or_iff)
  also have "a ! n XOR b ! n = 0 \<longleftrightarrow> a ! n = b ! n"
    by (auto simp: bit_eq_iff bit_xor_iff)
  finally show ?case using Suc by (simp add: take_Suc_conv_app_nth)
qed simp

definition cstr :: "bytes \<Rightarrow> bytes option" where
  "cstr s = (if 0 \<in> set s then Some (takeWhile (\<lambda>c. c \<noteq> 0) s) else None)"

lemma memcmp_0:
  "n \<le> length a \<Longrightarrow> n \<le> length b \<Longrightarrow> memcmp a b n = 0 \<longleftrightarrow> take n a = take n b"
  by (induction a b n rule: memcmp.induct) auto

lemma cstr_simps [simp]:
  "cstr [] = None"
  "cstr (c # s) = (if c = 0 then Some [] else map_option ((#) c) (cstr s))"
  by (auto simp: cstr_def)

lemma strlen_cstr: "strlen s = map_option length (cstr s)"
  by (induction s) (simp_all add: option.map_comp comp_def)

lemma OPENSSL_strlcpy_spec:
  "cstr src = Some x \<Longrightarrow> n < length dst \<Longrightarrow>
   OPENSSL_strlcpy dst src (Suc n) =
     Some (take n x @ 0 # drop (Suc (min n (length x))) dst, length x)"
proof (induction src arbitrary: dst n x)
  case (Cons c src)
  obtain d ds where dst: "dst = d # ds" using Cons.prems by (cases dst) auto
  show ?case
  proof (cases "c = 0 \<or> n = 0")
    case True
    then show ?thesis using Cons.prems dst by (auto simp: strlen_cstr)
  next
    case False
    then obtain m y where "n = Suc m" "x = c # y" "cstr src = Some y"
      using Cons.prems by (cases n) auto
    then show ?thesis using False Cons.prems dst by (simp add: Cons.IH)
  qed
qed simp

lemma OPENSSL_strlcat_spec:
  "cstr src = Some x \<Longrightarrow> cstr dst = Some d \<Longrightarrow> length d \<le> n \<Longrightarrow> n < length dst \<Longrightarrow>
   OPENSSL_strlcat dst src (Suc n) =
     Some (d @ take (n - length d) x @ 0 # drop (Suc (min n (length d + length x))) dst,
           length d + length x)"
proof (induction dst arbitrary: d n)
  case (Cons c dst)
  show ?case
  proof (cases "c = 0")
    case True
    then show ?thesis using Cons.prems by (simp add: OPENSSL_strlcpy_spec del: OPENSSL_strlcpy.simps)
  next
    case False
    then obtain m e where "n = Suc m" "d = c # e" "cstr dst = Some e"
      using Cons.prems by (cases n) auto
    then show ?thesis using False Cons.prems by (simp add: Cons.IH)
  qed
qed simp

lemma strcasecmp_eq_iff:
  "cstr a = Some x \<Longrightarrow> cstr b = Some y \<Longrightarrow>
   (\<exists>r. OPENSSL_strcasecmp a b = Some r \<and>
        (r = 0 \<longleftrightarrow> map (\<lambda>c. OPENSSL_tolower (sint c)) x = map (\<lambda>c. OPENSSL_tolower (sint c)) y))"
proof (induction a b arbitrary: x y rule: OPENSSL_strcasecmp.induct)
  case (1 a as b bs)
  have z: "OPENSSL_tolower (sint c) = 0 \<longleftrightarrow> c = 0" for c :: u8
    by (auto simp: OPENSSL_tolower_def signed_eq_0_iff)
  show ?case
    using 1 z[of a] z[of b] by (fastforce simp: Let_def split: if_splits)
qed simp_all

lemma OPENSSL_free_block_of:
  "length e < SIZE_MOD \<Longrightarrow> OPENSSL_free (block_of e) = replicate (length e + 8) 0"
  by (simp add: OPENSSL_free_def OPENSSL_cleanse_def OPENSSL_MALLOC_PREFIX_def le_val_size)
    (simp add: block_of_def)

lemma realloc_keeps:
  assumes "alloc_contract sys_malloc" "n < SIZE_MOD" "length d < SIZE_MOD"
    and "OPENSSL_realloc sys_malloc (Some (block_of d)) n = Some p"
  shows "\<exists>e. p = block_of e \<and> length e = n \<and> take (min (length d) n) e = take n d \<and>
             OPENSSL_free p = replicate (n + 8) 0"
proof -
  obtain r where r: "OPENSSL_malloc sys_malloc n = Some r"
    using assms(4) by (auto simp: OPENSSL_realloc_def Let_def split: option.splits)
  obtain q where q: "r = block_of q" "length q = n"
    by (rule OPENSSL_malloc_block [OF assms(1) r assms(2)])
  let ?k = "min (length d) n"
  have p: "p = block_of (take ?k d @ drop ?k q)"
    using assms(3,4) r q
    by (auto simp: OPENSSL_realloc_def le_val_size block_of_def user_data_def
        OPENSSL_MALLOC_PREFIX_def min_def Let_def)
  moreover have "take ?k d = take n d" by (simp add: min_def)
  moreover have len: "length (take ?k d @ drop ?k q) = n"
    using q by simp
  moreover have "OPENSSL_free (block_of (take ?k d @ drop ?k q)) = replicate (n + 8) 0"
    using OPENSSL_free_block_of[of "take ?k d @ drop ?k q"] len assms(2) by (simp only:)
  ultimately show ?thesis
    by (intro exI[of _ "take ?k d @ drop ?k q"]) simp
qed

section \<open>Properties\<close>

text \<open>\<open>CRYPTO_memcmp\<close>, which never branches on the data, returns 0 exactly when the first
  \<open>len\<close> bytes of the two buffers agree.\<close>

lemma CRYPTO_memcmp_correct:
  assumes "len \<le> length a" "len \<le> length b"
  shows "CRYPTO_memcmp a b len = 0 \<longleftrightarrow> take len a = take len b"
  using assms by (simp add: CRYPTO_memcmp_def unsigned_eq_0_iff memcmp_loop_0)

lemma CRYPTO_memcmp_correct_witness:
  "CRYPTO_memcmp [1, 2, 3] [1, 2, 4] 2 = 0 \<longleftrightarrow> take 2 [1, 2, 3 :: u8] = take 2 [1, 2, 4]"
  by (rule CRYPTO_memcmp_correct) simp_all

text \<open>C10: \<open>OPENSSL_strlcat\<close> on a terminated destination string that leaves room: it stays within
  \<open>dst_size\<close>, appends as much of the source as fits, always terminates the result, leaves the
  bytes after the terminator alone and returns the length the full result would have had.\<close>

theorem OPENSSL_strlcat_correct:
  assumes "cstr src = Some x" "cstr dst = Some d" "length d < dst_size" "dst_size \<le> length dst"
  shows "OPENSSL_strlcat dst src dst_size =
    Some (d @ take (dst_size - 1 - length d) x @ 0 #
            drop (Suc (min (dst_size - 1) (length d + length x))) dst, length d + length x)"
  using OPENSSL_strlcat_spec[of src x dst d "dst_size - 1"] assms by simp

theorem OPENSSL_strlcat_correct_witness:
  "OPENSSL_strlcat [1, 0, 7, 7, 7] [2, 3, 4, 0] 4 =
    Some ([1] @ take (4 - 1 - length [1 :: u8]) [2, 3, 4] @ 0 #
            drop (Suc (min (4 - 1) (length [1 :: u8] + length [2, 3, 4 :: u8]))) [1, 0, 7, 7, 7],
          length [1 :: u8] + length [2, 3, 4 :: u8])"
  by (rule OPENSSL_strlcat_correct) simp_all



end
