(* ===== verification/Qsort.thy ===== *)
theory Qsort
  imports Prelude "HOL-Library.Multiset"
begin

text \<open>
  The C library's \<open>qsort\<close>, which \<open>crypto/bytestring/cbb.c\<close> and \<open>crypto/stack/stack.c\<close> call, as an
  insertion sort by the comparison function; and the interface \<open>comparison\<close>, the contract that the
  sort and a binary search rely on.
\<close>

primrec insert_by :: "('a \<Rightarrow> 'a \<Rightarrow> int) \<Rightarrow> 'a \<Rightarrow> 'a list \<Rightarrow> 'a list" where
  "insert_by cmp x [] = [x]"
| "insert_by cmp x (y # ys) = (if cmp x y \<le> 0 then x # y # ys else y # insert_by cmp x ys)"

definition qsort_by :: "('a \<Rightarrow> 'a \<Rightarrow> int) \<Rightarrow> 'a list \<Rightarrow> 'a list" where
  "qsort_by cmp xs = foldr (insert_by cmp) xs []"

lemma mset_insert_by [simp]: "mset (insert_by cmp x xs) = add_mset x (mset xs)"
  by (induction xs) auto

lemma mset_qsort_by [simp]: "mset (qsort_by cmp xs) = mset xs"
  by (induction xs) (simp_all add: qsort_by_def)

lemma set_qsort_by [simp]: "set (qsort_by cmp xs) = set xs"
  by (metis mset_qsort_by set_mset_mset)

lemma length_qsort_by [simp]: "length (qsort_by cmp xs) = length xs"
  by (metis mset_qsort_by size_mset)

definition cmp_ordered :: "('a \<Rightarrow> 'a \<Rightarrow> int) \<Rightarrow> 'a list \<Rightarrow> bool" where
  "cmp_ordered cmp xs \<longleftrightarrow> sorted_wrt (\<lambda>a b. cmp a b \<le> 0) xs"

text \<open>What \<open>qsort\<close> and a binary search ask of a comparison function: the sign tells a total
  preorder.\<close>

locale comparison =
  fixes cmp :: "'a \<Rightarrow> 'a \<Rightarrow> int"
  assumes swap: "cmp a b < 0 \<longleftrightarrow> cmp b a > 0"
    and le_trans: "cmp a b \<le> 0 \<Longrightarrow> cmp b c \<le> 0 \<Longrightarrow> cmp a c \<le> 0"
begin

lemma refl: "cmp a a = 0"
  using swap[of a a] by linarith

lemma le_linear: "cmp a b \<le> 0 \<or> cmp b a \<le> 0"
  using swap[of a b] swap[of b a] by linarith

lemma eq_sym: "cmp a b = 0 \<longleftrightarrow> cmp b a = 0"
  using swap[of a b] swap[of b a] by linarith

lemma ordered_insert_by: "cmp_ordered cmp xs \<Longrightarrow> cmp_ordered cmp (insert_by cmp x xs)"
proof (induction xs)
  case (Cons y ys)
  have "set (insert_by cmp x ys) = insert x (set ys)" by (metis mset_insert_by set_mset_add_mset_insert set_mset_mset)
  then show ?case
    using Cons le_linear[of x y] le_trans[of x y] by (auto simp: cmp_ordered_def)
qed (simp add: cmp_ordered_def)

lemma ordered_qsort_by: "cmp_ordered cmp (qsort_by cmp xs)"
  unfolding qsort_by_def by (induction xs) (simp_all add: ordered_insert_by, simp add: cmp_ordered_def)

lemma ordered_nth: "cmp_ordered cmp xs \<Longrightarrow> i \<le> j \<Longrightarrow> j < length xs \<Longrightarrow> cmp (xs ! i) (xs ! j) \<le> 0"
  by (cases "i = j") (auto simp: cmp_ordered_def refl sorted_wrt_iff_nth_less)

text \<open>In an ordered list a probe that compares greater lies to the left of the matches.\<close>

lemma probe_right:
  assumes "cmp_ordered cmp xs" "i \<le> mid" "mid < length xs" "cmp p (xs ! mid) > 0"
  shows "cmp p (xs ! i) > 0"
proof (rule ccontr)
  assume "\<not> cmp p (xs ! i) > 0"
  then have "cmp p (xs ! mid) \<le> 0" using le_trans ordered_nth[OF assms(1-3)] by (meson not_less)
  then show False using assms(4) by simp
qed

lemma probe_left:
  assumes "cmp_ordered cmp xs" "mid \<le> i" "i < length xs" "cmp p (xs ! mid) < 0"
  shows "cmp p (xs ! i) < 0"
proof (rule ccontr)
  assume "\<not> cmp p (xs ! i) < 0"
  then have "cmp (xs ! i) p \<le> 0" using swap[of p "xs ! i"] swap[of "xs ! i" p] by linarith
  then have "cmp (xs ! mid) p \<le> 0" using le_trans ordered_nth[OF assms(1-3)] by blast
  then show False using assms(4) swap[of p "xs ! mid"] by linarith
qed

end

end
