(* ===== verification/Cbs.thy ===== *)
theory Cbs
  imports Prelude Endian Mem
begin

text \<open>
  \<open>crypto/bytestring/cbs.c\<close>: the CBS reader of byte strings and of BER/DER elements.

  A \<open>CBS\<close> is a pointer and a length, here the list of the bytes left.  A reader that takes a
  \<open>CBS *\<close> and output parameters returns \<open>Some (outputs, rest)\<close> for 1 and \<open>None\<close> for 0.  What a
  failing call leaves in \<open>*cbs\<close> or in its outputs is not modelled: no caller in the modelled
  code reads it.
\<close>

type_synonym cbs = bytes

section \<open>Fixed-size readers\<close>

definition cbs_get :: "cbs \<Rightarrow> nat \<Rightarrow> (bytes \<times> cbs) option" where
  "cbs_get cbs n = (if length cbs < n then None else Some (take n cbs, drop n cbs))"

definition CBS_skip :: "cbs \<Rightarrow> nat \<Rightarrow> cbs option" where
  "CBS_skip cbs len = map_option snd (cbs_get cbs len)"

definition CBS_stow :: "(nat \<Rightarrow> bytes option) \<Rightarrow> cbs \<Rightarrow> (bytes option \<times> nat) option" where
  "CBS_stow sys_malloc cbs =
     (if length cbs = 0 then Some (None, 0)
      else case OPENSSL_memdup sys_malloc cbs (length cbs) of
        None \<Rightarrow> None
      | Some p \<Rightarrow> Some (Some p, length cbs))"

definition CBS_strdup :: "(nat \<Rightarrow> bytes option) \<Rightarrow> cbs \<Rightarrow> bytes option" where
  "CBS_strdup sys_malloc cbs = OPENSSL_strndup sys_malloc cbs (length cbs)"

definition memchr :: "bytes \<Rightarrow> u8 \<Rightarrow> nat option" where
  "memchr s c = (if c \<in> set s then Some (length (takeWhile (\<lambda>b. b \<noteq> c) s)) else None)"

definition CBS_contains_zero_byte :: "cbs \<Rightarrow> bool" where
  "CBS_contains_zero_byte cbs \<longleftrightarrow> memchr cbs 0 \<noteq> None"

definition CBS_mem_equal :: "cbs \<Rightarrow> bytes \<Rightarrow> bool" where
  "CBS_mem_equal cbs data \<longleftrightarrow>
     (if length data \<noteq> length cbs then False else CRYPTO_memcmp cbs data (length data) = 0)"

definition cbs_get_u :: "cbs \<Rightarrow> nat \<Rightarrow> (u64 \<times> cbs) option" where
  "cbs_get_u cbs len =
     do {
       (data, cbs) \<leftarrow> cbs_get cbs len;
       Some (foldl (\<lambda>result b. push_bit 8 result OR ucast b) 0 data, cbs)
     }"

definition CBS_get_u8 :: "cbs \<Rightarrow> (u8 \<times> cbs) option" where
  "CBS_get_u8 cbs = do { (v, cbs) \<leftarrow> cbs_get cbs 1; Some (v ! 0, cbs) }"

definition CBS_get_u16 :: "cbs \<Rightarrow> (u16 \<times> cbs) option" where
  "CBS_get_u16 cbs = do { (v, cbs) \<leftarrow> cbs_get_u cbs 2; Some (ucast v, cbs) }"

definition CBS_get_u16le :: "cbs \<Rightarrow> (u16 \<times> cbs) option" where
  "CBS_get_u16le cbs = do { (v, cbs) \<leftarrow> CBS_get_u16 cbs; Some (CRYPTO_bswap2 v, cbs) }"

definition CBS_get_u24 :: "cbs \<Rightarrow> (u32 \<times> cbs) option" where
  "CBS_get_u24 cbs = do { (v, cbs) \<leftarrow> cbs_get_u cbs 3; Some (ucast v, cbs) }"

definition CBS_get_u32 :: "cbs \<Rightarrow> (u32 \<times> cbs) option" where
  "CBS_get_u32 cbs = do { (v, cbs) \<leftarrow> cbs_get_u cbs 4; Some (ucast v, cbs) }"

definition CBS_get_u32le :: "cbs \<Rightarrow> (u32 \<times> cbs) option" where
  "CBS_get_u32le cbs = do { (v, cbs) \<leftarrow> CBS_get_u32 cbs; Some (CRYPTO_bswap4 v, cbs) }"

definition CBS_get_u64 :: "cbs \<Rightarrow> (u64 \<times> cbs) option" where
  "CBS_get_u64 cbs = cbs_get_u cbs 8"

definition CBS_get_u64le :: "cbs \<Rightarrow> (u64 \<times> cbs) option" where
  "CBS_get_u64le cbs = do { (v, cbs) \<leftarrow> cbs_get_u cbs 8; Some (CRYPTO_bswap8 v, cbs) }"

definition CBS_get_last_u8 :: "cbs \<Rightarrow> (u8 \<times> cbs) option" where
  "CBS_get_last_u8 cbs =
     (if length cbs = 0 then None
      else Some (cbs ! (length cbs - 1), take (length cbs - 1) cbs))"

definition CBS_get_bytes :: "cbs \<Rightarrow> nat \<Rightarrow> (cbs \<times> cbs) option" where
  "CBS_get_bytes cbs len = do { (v, cbs) \<leftarrow> cbs_get cbs len; Some (v, cbs) }"

definition CBS_copy_bytes :: "cbs \<Rightarrow> bytes \<Rightarrow> nat \<Rightarrow> (bytes \<times> cbs) option" where
  "CBS_copy_bytes cbs out len = do { (v, cbs) \<leftarrow> cbs_get cbs len; Some (v @ drop len out, cbs) }"

section \<open>Length-prefixed strings\<close>

definition cbs_get_length_prefixed :: "cbs \<Rightarrow> nat \<Rightarrow> (cbs \<times> cbs) option" where
  "cbs_get_length_prefixed cbs len_len =
     do { (len, cbs) \<leftarrow> cbs_get_u cbs len_len; CBS_get_bytes cbs (unat len) }"

definition CBS_get_u8_length_prefixed :: "cbs \<Rightarrow> (cbs \<times> cbs) option" where
  "CBS_get_u8_length_prefixed cbs = cbs_get_length_prefixed cbs 1"

definition CBS_get_u16_length_prefixed :: "cbs \<Rightarrow> (cbs \<times> cbs) option" where
  "CBS_get_u16_length_prefixed cbs = cbs_get_length_prefixed cbs 2"

definition CBS_get_u24_length_prefixed :: "cbs \<Rightarrow> (cbs \<times> cbs) option" where
  "CBS_get_u24_length_prefixed cbs = cbs_get_length_prefixed cbs 3"

definition CBS_get_until_first :: "cbs \<Rightarrow> u8 \<Rightarrow> (cbs \<times> cbs) option" where
  "CBS_get_until_first cbs c =
     (case memchr cbs c of None \<Rightarrow> None | Some split \<Rightarrow> CBS_get_bytes cbs split)"

section \<open>Tags\<close>

fun parse_base128_loop :: "u64 \<Rightarrow> cbs \<Rightarrow> (u64 \<times> cbs) option" where
  "parse_base128_loop v [] = None"
| "parse_base128_loop v (b # cbs) =
     (if drop_bit (64 - 7) v \<noteq> 0 then None
      else if v = 0 \<and> b = 0x80 then None
      else let v = push_bit 7 v OR ucast (b AND 0x7f)
           in if b AND 0x80 \<noteq> 0 then parse_base128_loop v cbs else Some (v, cbs))"

definition parse_base128_integer :: "cbs \<Rightarrow> (u64 \<times> cbs) option" where
  "parse_base128_integer cbs = parse_base128_loop 0 cbs"

abbreviation CBS_ASN1_TAG_SHIFT :: nat where "CBS_ASN1_TAG_SHIFT \<equiv> 24"
abbreviation CBS_ASN1_CONSTRUCTED :: u32 where "CBS_ASN1_CONSTRUCTED \<equiv> 0x20000000"
abbreviation CBS_ASN1_CONTEXT_SPECIFIC :: u32 where "CBS_ASN1_CONTEXT_SPECIFIC \<equiv> 0x80000000"
abbreviation CBS_ASN1_TAG_NUMBER_MASK :: u32 where "CBS_ASN1_TAG_NUMBER_MASK \<equiv> 0x1fffffff"
abbreviation CBS_ASN1_BOOLEAN :: u32 where "CBS_ASN1_BOOLEAN \<equiv> 1"
abbreviation CBS_ASN1_INTEGER :: u32 where "CBS_ASN1_INTEGER \<equiv> 2"
abbreviation CBS_ASN1_OCTETSTRING :: u32 where "CBS_ASN1_OCTETSTRING \<equiv> 4"

definition parse_asn1_tag :: "cbs \<Rightarrow> (u32 \<times> cbs) option" where
  "parse_asn1_tag cbs =
     do {
       (tag_byte, cbs) \<leftarrow> CBS_get_u8 cbs;
       let tag = (push_bit CBS_ASN1_TAG_SHIFT (ucast tag_byte AND 0xe0) :: u32);
       let tag_number = (ucast (tag_byte AND 0x1f) :: u32);
       if tag_number = 0x1f then
         do {
           (v, cbs) \<leftarrow> parse_base128_integer cbs;
           if v > ucast CBS_ASN1_TAG_NUMBER_MASK \<or> v < 0x1f then None
           else Some (tag OR ucast v, cbs)
         }
       else Some (tag OR tag_number, cbs)
     }"

section \<open>Elements\<close>

record asn1_element =
  el_out :: cbs
  el_tag :: u32
  el_header_len :: nat
  el_ber_found :: bool

definition cbs_get_any_asn1_element :: "cbs \<Rightarrow> bool \<Rightarrow> (asn1_element \<times> cbs) option" where
  "cbs_get_any_asn1_element cbs ber_ok =
     do {
       (tag, header) \<leftarrow> parse_asn1_tag cbs;
       (length_byte, header) \<leftarrow> CBS_get_u8 header;
       let header_len = length cbs - length header;
       if length_byte AND 0x80 = 0 then
         do {
           let len = unat length_byte + header_len;
           (out, cbs) \<leftarrow> CBS_get_bytes cbs len;
           Some (\<lparr>el_out = out, el_tag = tag, el_header_len = header_len, el_ber_found = False\<rparr>, cbs)
         }
       else
         do {
           let num_bytes = unat (length_byte AND 0x7f);
           if ber_ok \<and> tag AND CBS_ASN1_CONSTRUCTED \<noteq> 0 \<and> num_bytes = 0 then
             do {
               (out, cbs) \<leftarrow> CBS_get_bytes cbs header_len;
               Some (\<lparr>el_out = out, el_tag = tag, el_header_len = header_len, el_ber_found = True\<rparr>, cbs)
             }
           else if num_bytes = 0 \<or> num_bytes > 4 then None
           else
             do {
               (len64, header) \<leftarrow> cbs_get_u header num_bytes;
               if len64 < 128 \<and> \<not> ber_ok then None
               else if drop_bit ((num_bytes - 1) * 8) len64 = 0 \<and> \<not> ber_ok then None
               else do {
                 let len = unat len64;
                 if (len + header_len + num_bytes) mod SIZE_MOD < len then None
                 else do {
                   let len = (len + header_len + num_bytes) mod SIZE_MOD;
                   (out, cbs) \<leftarrow> CBS_get_bytes cbs len;
                   Some (\<lparr>el_out = out, el_tag = tag, el_header_len = header_len + num_bytes,
                          el_ber_found = (len64 < 128 \<or> drop_bit ((num_bytes - 1) * 8) len64 = 0)\<rparr>, cbs)
                 }
               }
             }
         }
     }"

definition CBS_get_any_asn1_element :: "cbs \<Rightarrow> (asn1_element \<times> cbs) option" where
  "CBS_get_any_asn1_element cbs = cbs_get_any_asn1_element cbs False"

definition CBS_get_any_ber_asn1_element :: "cbs \<Rightarrow> (asn1_element \<times> cbs) option" where
  "CBS_get_any_ber_asn1_element cbs = cbs_get_any_asn1_element cbs True"

definition CBS_get_any_asn1 :: "cbs \<Rightarrow> (cbs \<times> u32 \<times> cbs) option" where
  "CBS_get_any_asn1 cbs =
     do {
       (el, cbs) \<leftarrow> CBS_get_any_asn1_element cbs;
       out \<leftarrow> CBS_skip (el_out el) (el_header_len el);
       Some (out, el_tag el, cbs)
     }"

definition cbs_get_asn1 :: "cbs \<Rightarrow> u32 \<Rightarrow> bool \<Rightarrow> (cbs \<times> cbs) option" where
  "cbs_get_asn1 cbs tag_value skip_header =
     do {
       (el, cbs) \<leftarrow> CBS_get_any_asn1_element cbs;
       if el_tag el \<noteq> tag_value then None
       else if skip_header then
         do { out \<leftarrow> CBS_skip (el_out el) (el_header_len el); Some (out, cbs) }
       else Some (el_out el, cbs)
     }"

definition CBS_get_asn1 :: "cbs \<Rightarrow> u32 \<Rightarrow> (cbs \<times> cbs) option" where
  "CBS_get_asn1 cbs tag_value = cbs_get_asn1 cbs tag_value True"

definition CBS_get_asn1_element :: "cbs \<Rightarrow> u32 \<Rightarrow> (cbs \<times> cbs) option" where
  "CBS_get_asn1_element cbs tag_value = cbs_get_asn1 cbs tag_value False"

definition CBS_peek_asn1_tag :: "cbs \<Rightarrow> u32 \<Rightarrow> bool" where
  "CBS_peek_asn1_tag cbs tag_value \<longleftrightarrow>
     (if length cbs < 1 then False
      else case parse_asn1_tag cbs of
        None \<Rightarrow> False
      | Some (actual_tag, _) \<Rightarrow> tag_value = actual_tag)"

section \<open>INTEGER and BOOLEAN\<close>

text \<open>The result is \<open>*out_is_negative\<close>.\<close>

definition CBS_is_valid_asn1_integer :: "cbs \<Rightarrow> bool option" where
  "CBS_is_valid_asn1_integer cbs =
     do {
       (first_byte, copy) \<leftarrow> CBS_get_u8 cbs;
       let is_negative = (first_byte AND 0x80 \<noteq> 0);
       case CBS_get_u8 copy of
         None \<Rightarrow> Some is_negative
       | Some (second_byte, _) \<Rightarrow>
           if (first_byte = 0x00 \<and> second_byte AND 0x80 = 0) \<or>
              (first_byte = 0xff \<and> second_byte AND 0x80 \<noteq> 0)
           then None
           else Some is_negative
     }"

definition CBS_is_unsigned_asn1_integer :: "cbs \<Rightarrow> bool" where
  "CBS_is_unsigned_asn1_integer cbs \<longleftrightarrow> CBS_is_valid_asn1_integer cbs = Some False"

fun asn1_uint64_loop :: "u64 \<Rightarrow> bytes \<Rightarrow> u64 option" where
  "asn1_uint64_loop out [] = Some out"
| "asn1_uint64_loop out (b # data) =
     (if drop_bit 56 out \<noteq> 0 then None
      else asn1_uint64_loop (push_bit 8 out OR ucast b) data)"

definition CBS_get_asn1_uint64 :: "cbs \<Rightarrow> (u64 \<times> cbs) option" where
  "CBS_get_asn1_uint64 cbs =
     do {
       (bytes, cbs) \<leftarrow> CBS_get_asn1 cbs CBS_ASN1_INTEGER;
       if \<not> CBS_is_unsigned_asn1_integer bytes then None
       else do { out \<leftarrow> asn1_uint64_loop 0 bytes; Some (out, cbs) }
     }"

definition CBS_get_asn1_int64 :: "cbs \<Rightarrow> (u64 \<times> cbs) option" where
  "CBS_get_asn1_int64 cbs =
     do {
       (data, cbs) \<leftarrow> CBS_get_asn1 cbs CBS_ASN1_INTEGER;
       is_negative \<leftarrow> CBS_is_valid_asn1_integer data;
       let len = length data;
       if len > 8 then None
       else do {
         let u = replicate 8 (if is_negative then 0xff else 0 :: u8);
         let u = foldl (\<lambda>u i. u[i := data ! (len - i - 1)]) u [0..<len];
         Some (word_of_nat (le_val u), cbs)
       }
     }"

definition CBS_get_asn1_bool :: "cbs \<Rightarrow> (bool \<times> cbs) option" where
  "CBS_get_asn1_bool cbs =
     do {
       (bytes, cbs) \<leftarrow> CBS_get_asn1 cbs CBS_ASN1_BOOLEAN;
       if length bytes \<noteq> 1 then None
       else do {
         let v = bytes ! 0;
         if v \<noteq> 0 \<and> v \<noteq> 0xff then None else Some (v \<noteq> 0, cbs)
       }
     }"

section \<open>Optional elements\<close>

text \<open>The output of an absent element is \<open>None\<close> (\<open>*out_present = 0\<close>).\<close>

definition CBS_get_optional_asn1 :: "cbs \<Rightarrow> u32 \<Rightarrow> (cbs option \<times> cbs) option" where
  "CBS_get_optional_asn1 cbs tag =
     (if CBS_peek_asn1_tag cbs tag
      then do { (out, cbs) \<leftarrow> CBS_get_asn1 cbs tag; Some (Some out, cbs) }
      else Some (None, cbs))"

definition CBS_get_optional_asn1_octet_string :: "cbs \<Rightarrow> u32 \<Rightarrow> (cbs \<times> bool \<times> cbs) option" where
  "CBS_get_optional_asn1_octet_string cbs tag =
     do {
       (child, cbs) \<leftarrow> CBS_get_optional_asn1 cbs tag;
       case child of
         Some child \<Rightarrow>
           do {
             (out, child) \<leftarrow> CBS_get_asn1 child CBS_ASN1_OCTETSTRING;
             if length child \<noteq> 0 then None else Some (out, True, cbs)
           }
       | None \<Rightarrow> Some ([], False, cbs)
     }"

definition CBS_get_optional_asn1_uint64 :: "cbs \<Rightarrow> u32 \<Rightarrow> u64 \<Rightarrow> (u64 \<times> cbs) option" where
  "CBS_get_optional_asn1_uint64 cbs tag default_value =
     do {
       (child, cbs) \<leftarrow> CBS_get_optional_asn1 cbs tag;
       case child of
         Some child \<Rightarrow>
           do {
             (out, child) \<leftarrow> CBS_get_asn1_uint64 child;
             if length child \<noteq> 0 then None else Some (out, cbs)
           }
       | None \<Rightarrow> Some (default_value, cbs)
     }"

definition CBS_get_optional_asn1_bool :: "cbs \<Rightarrow> u32 \<Rightarrow> int \<Rightarrow> (int \<times> cbs) option" where
  "CBS_get_optional_asn1_bool cbs tag default_value =
     do {
       (child, cbs) \<leftarrow> CBS_get_optional_asn1 cbs tag;
       case child of
         Some child \<Rightarrow>
           do {
             (child2, child) \<leftarrow> CBS_get_asn1 child CBS_ASN1_BOOLEAN;
             if length child2 \<noteq> 1 \<or> length child \<noteq> 0 then None
             else do {
               let boolean = child2 ! 0;
               if boolean = 0 then Some (0, cbs)
               else if boolean = 0xff then Some (1, cbs)
               else None
             }
           }
       | None \<Rightarrow> Some (default_value, cbs)
     }"

section \<open>BIT STRING\<close>

definition CBS_is_valid_asn1_bitstring :: "cbs \<Rightarrow> bool" where
  "CBS_is_valid_asn1_bitstring cbs \<longleftrightarrow>
     (case CBS_get_u8 cbs of
        None \<Rightarrow> False
      | Some (num_unused_bits, inp) \<Rightarrow>
          if num_unused_bits > 7 then False
          else if num_unused_bits = 0 then True
          else (case CBS_get_last_u8 inp of
                  None \<Rightarrow> False
                | Some (last_byte, _) \<Rightarrow>
                    ucast last_byte AND (push_bit (unat num_unused_bits) 1 - 1 :: u32) = 0))"

definition CBS_asn1_bitstring_has_bit :: "cbs \<Rightarrow> u32 \<Rightarrow> bool" where
  "CBS_asn1_bitstring_has_bit cbs n \<longleftrightarrow>
     (if \<not> CBS_is_valid_asn1_bitstring cbs then False
      else let byte_num = unat (drop_bit 3 n + 1);
               bit_num = 7 - unat (n AND 7)
           in byte_num < length cbs \<and>
              ucast (cbs ! byte_num) AND (push_bit bit_num 1 :: u32) \<noteq> 0)"

section \<open>What a successful read consumed\<close>

lemma cbs_get_Some [simp]: "cbs_get c n = Some (p, r) \<longleftrightarrow> c = p @ r \<and> length p = n"
  by (auto simp: cbs_get_def)

lemma cbs_get_append [simp]: "length p = n \<Longrightarrow> cbs_get (p @ r) n = Some (p, r)"
  by simp

lemma CBS_skip_Some [simp]: "CBS_skip c n = Some r \<longleftrightarrow> (\<exists>p. c = p @ r \<and> length p = n)"
  by (auto simp: CBS_skip_def)

lemma CBS_get_bytes_Some [simp]: "CBS_get_bytes c n = Some (p, r) \<longleftrightarrow> c = p @ r \<and> length p = n"
  by (auto simp: CBS_get_bytes_def bind_eq_Some_conv)

lemma CBS_get_u8_simps [simp]: "CBS_get_u8 [] = None" "CBS_get_u8 (b # r) = Some (b, r)"
  by (simp_all add: CBS_get_u8_def cbs_get_def)

lemma CBS_get_u8_Some [simp]: "CBS_get_u8 c = Some (b, r) \<longleftrightarrow> c = b # r"
  by (cases c) auto

lemma fold_be_word:
  fixes f :: "u8 \<Rightarrow> 'a::len word"
  assumes "8 \<le> LENGTH('a)" "\<And>b. f b = word_of_nat (unat b)"
  shows "foldl (\<lambda>r b. push_bit 8 r OR f b) (word_of_nat k) data =
         word_of_nat (k * 256 ^ length data + be_val data)"
proof (induction data arbitrary: k)
  case (Cons b data)
  have "push_bit 8 (word_of_nat k) OR f b = word_of_nat (k * 256 + unat b)"
    using word_shift_or[of 8 "unat b" k, where 'a = 'a] unfolding assms(2) using assms(1) by simp
  then have "foldl (\<lambda>r b. push_bit 8 r OR f b) (word_of_nat k) (b # data) =
      word_of_nat ((k * 256 + unat b) * 256 ^ length data + be_val data)"
    by (simp only: foldl.simps Cons.IH)
  also have "(k * 256 + unat b) * 256 ^ length data + be_val data =
      k * 256 ^ length (b # data) + be_val (b # data)"
    by (simp add: algebra_simps)
  finally show ?case .
qed simp

lemma u8_u64_of_nat: "(ucast (b :: u8) :: u64) = word_of_nat (unat b)"
  by (rule word_unat_eq_iff [THEN iffD2]) (use unat_u8_less[of b] in \<open>simp add: unat_of_nat del: unat_u8_less\<close>)

lemma cbs_get_u_value:
  "foldl (\<lambda>r b. push_bit 8 r OR ucast b) 0 data = (word_of_nat (be_val data) :: u64)"
  using fold_be_word[OF _ u8_u64_of_nat, of 0 data] by simp

lemma cbs_get_u_Some [simp]:
  "cbs_get_u c n = Some (v, r) \<longleftrightarrow> (\<exists>p. c = p @ r \<and> length p = n \<and> v = word_of_nat (be_val p))"
  by (auto simp: cbs_get_u_def cbs_get_u_value bind_eq_Some_conv)

lemma ucast_of_nat_down:
  "LENGTH('b) \<le> LENGTH('a) \<Longrightarrow> (ucast (word_of_nat n :: 'a::len word) :: 'b::len word) = word_of_nat n"
  by (rule bit_word_eqI) (simp add: bit_simps bit_of_nat_iff)

lemma CBS_get_u16_Some [simp]:
  "CBS_get_u16 c = Some (v, r) \<longleftrightarrow> (\<exists>p. c = p @ r \<and> length p = 2 \<and> v = word_of_nat (be_val p))"
  by (auto simp: CBS_get_u16_def bind_eq_Some_conv ucast_of_nat_down)

lemma CBS_get_u24_Some [simp]:
  "CBS_get_u24 c = Some (v, r) \<longleftrightarrow> (\<exists>p. c = p @ r \<and> length p = 3 \<and> v = word_of_nat (be_val p))"
  by (auto simp: CBS_get_u24_def bind_eq_Some_conv ucast_of_nat_down)

lemma CBS_get_u32_Some [simp]:
  "CBS_get_u32 c = Some (v, r) \<longleftrightarrow> (\<exists>p. c = p @ r \<and> length p = 4 \<and> v = word_of_nat (be_val p))"
  by (auto simp: CBS_get_u32_def bind_eq_Some_conv ucast_of_nat_down)

lemma CBS_get_u64_Some [simp]:
  "CBS_get_u64 c = Some (v, r) \<longleftrightarrow> (\<exists>p. c = p @ r \<and> length p = 8 \<and> v = word_of_nat (be_val p))"
  by (auto simp: CBS_get_u64_def)

lemma cbs_get_length_prefixed_Some [simp]:
  assumes "n \<le> 8"
  shows "cbs_get_length_prefixed c n = Some (out, r) \<longleftrightarrow>
    (\<exists>p. c = p @ out @ r \<and> length p = n \<and> be_val p = length out)"
proof -
  have small: "unat (word_of_nat (be_val p) :: u64) = be_val p" if "length p = n" for p
    using unat_be_small[of p n, where 'a = 64] that assms power_increasing[of n 8 "256::nat"] by simp
  show ?thesis
        unfolding cbs_get_length_prefixed_def bind_eq_Some_conv
    by (auto simp del: unsigned_of_nat) (metis small, metis small)
qed

section \<open>Base-128 integers\<close>

text \<open>The minimal base-128 form: the digits of \<open>v\<close>, most significant first, all but the last
  with the high bit set.\<close>

fun base128_prefix :: "nat \<Rightarrow> bytes" where
  "base128_prefix v = (if v = 0 then [] else base128_prefix (v div 128) @ [word_of_nat (128 + v mod 128)])"

declare base128_prefix.simps [simp del]

definition base128 :: "nat \<Rightarrow> bytes" where
  "base128 v = base128_prefix (v div 128) @ [word_of_nat (v mod 128)]"

lemma base128_prefix_0 [simp]: "base128_prefix 0 = []"
  by (simp add: base128_prefix.simps)

lemma base128_prefix_step:
  "0 < v * 128 + d \<Longrightarrow> d < 128 \<Longrightarrow>
   base128_prefix (v * 128 + d) = base128_prefix v @ [word_of_nat (128 + d)]"
  by (subst base128_prefix.simps) simp

definition base128_shift :: "u64 \<Rightarrow> u8 \<Rightarrow> u64" where
  "base128_shift v b = push_bit 7 v OR ucast (b AND 0x7f)"

lemma parse_base128_loop_step:
  "parse_base128_loop v (b # c) =
     (if unat v \<ge> 2 ^ 57 \<or> (unat v = 0 \<and> unat b = 128) then None
      else if unat b < 128 then Some (base128_shift v b, c)
      else parse_base128_loop (base128_shift v b) c)"
proof -
  have d: "drop_bit (64 - 7) v \<noteq> 0 \<longleftrightarrow> unat v \<ge> 2 ^ 57"
  proof -
    have "drop_bit (64 - 7) v = 0 \<longleftrightarrow> unat v div 2 ^ (64 - 7) = 0"
      by (simp only: unat_drop_bit [symmetric] unat_eq_0)
    also have "\<dots> \<longleftrightarrow> unat v < 2 ^ 57" by (simp add: div_eq_0_iff)
    finally show ?thesis by (simp add: not_less)
  qed
  have b: "b = 0x80 \<longleftrightarrow> unat b = 128"
    by (simp add: word_unat_eq_iff)
  show ?thesis
    unfolding parse_base128_loop.simps Let_def u8_and_80 base128_shift_def [symmetric] d b unat_eq_0
    by simp
qed

declare parse_base128_loop.simps(2) [simp del]

lemma base128_shift_value:
  "unat v < 2 ^ 57 \<Longrightarrow> unat (base128_shift v b) = unat v * 128 + unat b mod 128"
  unfolding base128_shift_def
  using unat_shift_or[of "ucast (b AND 0x7f) :: u64" 7 v] by simp

lemma high_bit_nat: "\<not> n < 128 \<Longrightarrow> n < 256 \<Longrightarrow> 128 + n mod 128 = (n::nat)"
proof -
  assume "\<not> n < 128" "n < 256"
  then have "n mod 128 = n - 128" by (simp add: le_mod_geq)
  then show ?thesis using \<open>\<not> n < 128\<close> by simp
qed

lemma high_bit_digit: "\<not> unat (b :: u8) < 128 \<Longrightarrow> word_of_nat (128 + unat b mod 128) = b"
  by (subst high_bit_nat) simp_all

lemma base128_prefix_shift:
  assumes "unat v < 2 ^ 57" "\<not> (unat v = 0 \<and> unat b = 128)" "\<not> unat b < 128"
  shows "base128_prefix (unat (base128_shift v b)) = base128_prefix (unat v) @ [b]"
proof -
  have "0 < unat v * 128 + unat b mod 128"
    using assms(2) high_bit_nat[OF assms(3) unat_u8_less] by (cases "unat v = 0") auto
  then show ?thesis
    by (simp only: base128_shift_value[OF assms(1)] base128_prefix_step mod_less_divisor
        high_bit_digit[OF assms(3)] zero_less_numeral)
qed

lemma parse_base128_loop_sound:
  "parse_base128_loop v c = Some (w, r) \<Longrightarrow> base128_prefix (unat v) @ c = base128 (unat w) @ r"
proof (induction c arbitrary: v)
  case (Cons b c)
  then have v: "unat v < 2 ^ 57" "\<not> (unat v = 0 \<and> unat b = 128)"
    unfolding parse_base128_loop_step by (meson not_le option.distinct(1))+
  show ?case
  proof (cases "unat b < 128")
    case True
    with Cons.prems v have "w = base128_shift v b" "r = c"
      by (simp_all add: parse_base128_loop_step)
    with True show ?thesis
      by (simp add: base128_def base128_shift_value[OF v(1)])
  next
    case False
    with Cons.prems v have "parse_base128_loop (base128_shift v b) c = Some (w, r)"
      by (simp add: parse_base128_loop_step)
    then show ?thesis
      using Cons.IH base128_prefix_shift[OF v False] by fastforce
  qed
qed simp

lemma parse_base128_loop_prefix:
  "x < 2 ^ 64 \<Longrightarrow> c \<noteq> [] \<Longrightarrow>
   parse_base128_loop 0 (base128_prefix x @ c) = parse_base128_loop (word_of_nat x) c"
proof (induction x arbitrary: c rule: base128_prefix.induct)
  case (1 x)
  show ?case
  proof (cases "x = 0")
    case False
    let ?d = "word_of_nat (128 + x mod 128) :: u8"
    have d: "unat ?d = 128 + x mod 128"
      by (simp only: u8_of_nat_unat_mod) (simp add: mod_less)
    have p: "base128_prefix x = base128_prefix (x div 128) @ [?d]"
      using False by (subst base128_prefix.simps) simp
    have small: "x div 128 < 2 ^ 57" using 1(2) by (simp add: div_less_iff_less_mult)
    have u: "unat (word_of_nat (x div 128) :: u64) = x div 128"
      using small by (simp add: unat_of_nat)
    have "parse_base128_loop 0 (base128_prefix x @ c) =
          parse_base128_loop (word_of_nat (x div 128)) (?d # c)"
      using 1 False by (simp add: p)
    also have "\<dots> = parse_base128_loop (base128_shift (word_of_nat (x div 128)) ?d) c"
      unfolding parse_base128_loop_step u d using small False by auto
    also have "base128_shift (word_of_nat (x div 128)) ?d = word_of_nat x"
      by (rule word_unat_eq_iff [THEN iffD2], subst base128_shift_value, unfold u d, rule small)
        (use 1(2) in \<open>simp add: unat_of_nat\<close>)
    finally show ?thesis .
  qed simp
qed

lemma parse_base128_integer_Some:
  "parse_base128_integer c = Some (v, r) \<longleftrightarrow> c = base128 (unat v) @ r"
proof
  assume "parse_base128_integer c = Some (v, r)"
  then show "c = base128 (unat v) @ r"
    using parse_base128_loop_sound[of 0 c v r] by (simp add: parse_base128_integer_def)
next
  assume c: "c = base128 (unat v) @ r"
  let ?q = "unat v div 128" let ?d = "word_of_nat (unat v mod 128) :: u8"
  have q: "?q < 2 ^ 57" using unat_u64_less[of v] by (simp add: div_less_iff_less_mult)
  have u: "unat (word_of_nat ?q :: u64) = ?q" using q by (simp add: unat_of_nat)
  have d: "unat ?d = unat v mod 128" by (simp only: u8_of_nat_unat_mod) simp
  have "parse_base128_integer c = parse_base128_loop (word_of_nat ?q) (?d # r)"
    unfolding parse_base128_integer_def c base128_def append_assoc
    using parse_base128_loop_prefix[of ?q "?d # r"] q by simp
  also have "\<dots> = Some (base128_shift (word_of_nat ?q) ?d, r)"
    unfolding parse_base128_loop_step u d using q mod_less_divisor[of 128 "unat v"] by auto
  also have "base128_shift (word_of_nat ?q) ?d = v"
    by (rule word_unat_eq_iff [THEN iffD2], subst base128_shift_value, unfold u d, rule q) simp
  finally show "parse_base128_integer c = Some (v, r)" .
qed

section \<open>Identifier octets\<close>

text \<open>The DER identifier octets of a tag: the class and constructed bits are the top three
  bits of the tag value, the tag number the other 29.\<close>

definition der_tag :: "u32 \<Rightarrow> bytes" where
  "der_tag tag =
     (let cls = unat tag div 2 ^ 29; n = unat tag mod 2 ^ 29
      in if n < 31 then [word_of_nat (cls * 32 + n)]
         else word_of_nat (cls * 32 + 31) # base128 n)"

definition tag_of :: "nat \<Rightarrow> nat \<Rightarrow> u32" where
  "tag_of cls n = word_of_nat (cls * 2 ^ 29 + n)"

lemma unat_tag_of: "cls < 8 \<Longrightarrow> n < 2 ^ 29 \<Longrightarrow> unat (tag_of cls n) = cls * 2 ^ 29 + n"
  unfolding tag_of_def by (simp only: unsigned_of_nat) (simp add: take_bit_nat_eq_self)

lemma and_e0: "(ucast (b :: u8) AND 0xe0 :: u32) = push_bit 5 (drop_bit 5 (ucast b))"
proof -
  have m: "(0xe0 :: u32) = push_bit 5 (mask 3)" by (simp add: mask_eq_exp_minus_1)
  show ?thesis
    unfolding m by (rule bit_word_eqI) (auto simp: bit_simps dest: bit_imp_le_length)
qed

lemma tag_bits:
  fixes n :: u32
  assumes "unat n < 2 ^ 29"
  shows "push_bit 24 (ucast (b :: u8) AND 0xe0) OR n = tag_of (unat b div 32) (unat n)"
proof -
  have c: "unat (drop_bit 5 (ucast b :: u32)) = unat b div 32"
    by (simp add: unat_drop_bit)
  have lt: "unat b div 32 < 8" using unat_u8_less[of b] by (simp add: div_less_iff_less_mult del: unat_u8_less)
  have "unat (push_bit 29 (drop_bit 5 (ucast b :: u32)) OR n) = unat b div 32 * 2 ^ 29 + unat n"
    using unat_shift_or[of n 29 "drop_bit 5 (ucast b)"] assms lt unfolding c by simp
  moreover have "push_bit 24 (ucast b AND 0xe0) = push_bit 29 (drop_bit 5 (ucast b :: u32))"
    unfolding and_e0 by simp
  ultimately have "unat (push_bit 24 (ucast b AND 0xe0) OR n) = unat (tag_of (unat b div 32) (unat n))"
    by (simp only: unat_tag_of[OF lt assms])
  then show ?thesis by (simp only: word_unat_eq_iff)
qed

lemma parse_asn1_tag_Cons:
  "parse_asn1_tag (b # c) =
     (if ucast (b AND 0x1f) = (0x1f :: u32) then
        do {
          (v, r) \<leftarrow> parse_base128_integer c;
          if v > ucast CBS_ASN1_TAG_NUMBER_MASK \<or> v < 0x1f then None
          else Some (push_bit CBS_ASN1_TAG_SHIFT (ucast b AND 0xe0) OR ucast v, r)
        }
      else Some (push_bit CBS_ASN1_TAG_SHIFT (ucast b AND 0xe0) OR ucast (b AND 0x1f), c))"
  by (simp only: parse_asn1_tag_def CBS_get_u8_simps Let_def bind.bind_lunit prod.case)

lemma parse_asn1_tag_low:
  assumes "unat b mod 32 \<noteq> 31"
  shows "parse_asn1_tag (b # c) = Some (tag_of (unat b div 32) (unat b mod 32), c)"
proof -
  let ?n = "ucast (b AND 0x1f) :: u32"
  have n: "unat ?n = unat b mod 32" by simp
  have "unat ?n < 2 ^ 29" unfolding n by (rule less_le_trans [OF mod_less_divisor]) simp_all
  note t = tag_bits[OF this, of b, unfolded n]
  have "?n \<noteq> 0x1f"
  proof
    assume "?n = 0x1f"
    then have "unat ?n = unat (0x1f :: u32)" by (rule arg_cong)
    then show False using assms unfolding n by simp
  qed
  then show ?thesis
    unfolding parse_asn1_tag_Cons t by (simp only: if_False)
qed

lemma parse_asn1_tag_high:
  assumes "unat b mod 32 = 31"
  shows "parse_asn1_tag (b # c) =
    (case parse_base128_integer c of
       None \<Rightarrow> None
     | Some (v, r) \<Rightarrow>
         if unat v < 2 ^ 29 \<and> 31 \<le> unat v then Some (tag_of (unat b div 32) (unat v), r) else None)"
proof -
  let ?n = "ucast (b AND 0x1f) :: u32"
  have "unat ?n = 31" using assms by simp
  then have n: "?n = 0x1f" by (simp add: word_unat_eq_iff)
  have lim: "(v > ucast CBS_ASN1_TAG_NUMBER_MASK \<or> v < 0x1f) \<longleftrightarrow> \<not> (unat v < 2 ^ 29 \<and> 31 \<le> unat v)"
    for v :: u64 by (auto simp: word_less_nat_alt)
  have t: "push_bit 24 (ucast b AND 0xe0) OR ucast v = tag_of (unat b div 32) (unat v)"
    if "unat v < 2 ^ 29" for v :: u64
  proof -
    have u: "unat (ucast v :: u32) = unat v"
      using that by (simp add: unsigned_ucast_eq take_bit_nat_eq_self)
    show ?thesis using tag_bits[of "ucast v" b] that unfolding u by blast
  qed
  have eq: "(if \<not> (unat v < 2 ^ 29 \<and> 31 \<le> unat v) then None
        else Some (push_bit 24 (ucast b AND 0xe0) OR ucast v, r)) =
      (if unat v < 2 ^ 29 \<and> 31 \<le> unat v then Some (tag_of (unat b div 32) (unat v), r) else None)"
    for v :: u64 and r :: cbs
    by (cases "unat v < 2 ^ 29 \<and> 31 \<le> unat v") (simp_all only: t if_True if_False simp_thms if_not_P)
  show ?thesis
    unfolding parse_asn1_tag_Cons n lim
    by (cases "parse_base128_integer c") (simp_all only: eq bind.simps option.simps if_True split_def simp_thms)
qed

lemma nat_u8_digit: "n < 256 \<Longrightarrow> unat (word_of_nat n :: u8) = n"
  by (simp only: u8_of_nat_unat_mod mod_less)

lemma div_mod_digit: "cls * 32 + n = unat (b :: u8) \<Longrightarrow> n < 32 \<Longrightarrow> unat b div 32 = cls \<and> unat b mod 32 = n"
  by (metis add.commute add.right_neutral div_less div_mult_self3 mod_less mod_mult_self3 zero_neq_numeral)

lemma der_tag_of:
  assumes "cls < 8" "n < 2 ^ 29"
  shows "der_tag (tag_of cls n) =
    (if n < 31 then [word_of_nat (cls * 32 + n)] else word_of_nat (cls * 32 + 31) # base128 n)"
proof -
  have "unat (tag_of cls n) div 2 ^ 29 = cls" "unat (tag_of cls n) mod 2 ^ 29 = n"
    unfolding unat_tag_of[OF assms] using assms(2) by simp_all
  then show ?thesis unfolding der_tag_def Let_def by simp
qed

lemma tag_of_cases:
  obtains cls n where "t = tag_of cls n" "cls < 8" "n < 2 ^ 29"
proof
  show "t = tag_of (unat t div 2 ^ 29) (unat t mod 2 ^ 29)"
    by (simp add: tag_of_def del: of_nat_add of_nat_mult)
  show "unat t div 2 ^ 29 < 8" using unat_u32_less[of t] by (simp add: div_less_iff_less_mult)
  show "unat t mod 2 ^ 29 < 2 ^ 29" by simp
qed

lemma parse_asn1_tag_Some:
  "parse_asn1_tag c = Some (t, r) \<longleftrightarrow> c = der_tag t @ r"
proof
  assume p: "parse_asn1_tag c = Some (t, r)"
  then obtain b c' where c: "c = b # c'"
    by (cases c) (auto simp: parse_asn1_tag_def)
  have lt: "unat b div 32 < 8" using unat_u8_less[of b] by (simp add: div_less_iff_less_mult del: unat_u8_less)
  show "c = der_tag t @ r"
  proof (cases "unat b mod 32 = 31")
    case False
    then have "unat b mod 32 < 31" using mod_less_divisor[of 32 "unat b"] by linarith
    then show ?thesis
      using p False lt unfolding c parse_asn1_tag_low[OF False] by (auto simp: der_tag_of)
  next
    case True
    have b: "word_of_nat (unat b div 32 * 32 + 31) = b"
      using div_mult_mod_eq[of "unat b" 32] unfolding True by simp
    from p obtain v where "parse_base128_integer c' = Some (v, r)" "t = tag_of (unat b div 32) (unat v)"
      "unat v < 2 ^ 29" "31 \<le> unat v"
      unfolding c parse_asn1_tag_high[OF True] by (auto split: option.splits if_splits)
    then show ?thesis
      using lt b by (simp add: c parse_base128_integer_Some der_tag_of)
  qed
next
  assume c: "c = der_tag t @ r"
  obtain cls n where t: "t = tag_of cls n" "cls < 8" "n < 2 ^ 29" by (rule tag_of_cases)
  show "parse_asn1_tag c = Some (t, r)"
  proof (cases "n < 31")
    case True
    let ?b = "word_of_nat (cls * 32 + n) :: u8"
    have "cls * 32 + n = unat ?b" using nat_u8_digit[of "cls * 32 + n"] True t by simp
    from div_mod_digit[OF this] True have "unat ?b div 32 = cls" "unat ?b mod 32 = n" by simp_all
    then show ?thesis
      using parse_asn1_tag_low[of ?b r] True by (simp add: c t(1) der_tag_of[OF t(2,3)])
  next
    case False
    let ?b = "word_of_nat (cls * 32 + 31) :: u8"
    have "cls * 32 + 31 = unat ?b" using nat_u8_digit[of "cls * 32 + 31"] t by simp
    from div_mod_digit[OF this] have d: "unat ?b div 32 = cls" "unat ?b mod 32 = 31" by simp_all
    have u: "unat (word_of_nat n :: u64) = n" using t by (simp add: unat_of_nat)
    have "parse_base128_integer (base128 n @ r) = Some (word_of_nat n, r)"
      unfolding parse_base128_integer_Some u ..
    then show ?thesis
      using parse_asn1_tag_high[OF d(2), of "base128 n @ r", unfolded d(1)] False t u
      by (simp add: c t(1) der_tag_of[OF t(2,3)])
  qed
qed

section \<open>Elements\<close>

lemma length_base128_prefix: "x < 128 ^ j \<Longrightarrow> length (base128_prefix x) \<le> j"
proof (induction j arbitrary: x)
  case (Suc j)
  then have "x div 128 < 128 ^ j" by (simp add: div_less_iff_less_mult mult.commute)
  then show ?case using Suc.IH[of "x div 128"] by (subst base128_prefix.simps) simp
qed (simp add: base128_prefix.simps)

lemma length_der_tag: "length (der_tag t) \<le> 6" "der_tag t \<noteq> []"
proof -
  obtain cls n where t: "t = tag_of cls n" "cls < 8" "n < 2 ^ 29" by (rule tag_of_cases)
  have "n div 128 < 128 ^ 4" using t(3) by (simp add: div_less_iff_less_mult)
  then have "length (base128 n) \<le> 5" using length_base128_prefix[of "n div 128" 4] by (simp add: base128_def)
  then show "length (der_tag t) \<le> 6" "der_tag t \<noteq> []" by (simp_all add: t(1) der_tag_of[OF t(2,3)])
qed

text \<open>The length octets: the short form below 128, else the least number of octets.\<close>

definition length_octets :: "nat \<Rightarrow> nat" where
  "length_octets n = (if n < 256 then 1 else if n < 65536 then 2 else if n < 16777216 then 3 else 4)"

definition der_len :: "nat \<Rightarrow> bytes" where
  "der_len n =
     (if n < 128 then [word_of_nat n]
      else word_of_nat (128 + length_octets n) # be_bytes (length_octets n) n)"

text \<open>The contents octets are minimal when the length is not short and its first octet is not 0.\<close>

definition minimal_len :: "nat \<Rightarrow> nat \<Rightarrow> bool" where
  "minimal_len k n \<longleftrightarrow> 128 \<le> n \<and> n div 256 ^ (k - 1) \<noteq> 0"

lemma minimal_len_octets:
  assumes "1 \<le> k" "k \<le> 4" "n < 256 ^ k" "minimal_len k n"
  shows "k = length_octets n"
proof -
  have "k = 1 \<or> k = 2 \<or> k = 3 \<or> k = 4" using assms(1,2) by linarith
  then show ?thesis
    using assms(3,4) by (auto simp: minimal_len_def length_octets_def div_eq_0_iff)
qed

lemma length_octets_minimal:
  assumes "128 \<le> n" "n < 2 ^ 32"
  shows "minimal_len (length_octets n) n" "n < 256 ^ length_octets n"
    "1 \<le> length_octets n" "length_octets n \<le> 4"
  using assms by (auto simp: minimal_len_def length_octets_def div_eq_0_iff)

lemma der_len_long:
  assumes "\<not> unat lb < 128" "length p = unat lb - 128" "unat lb - 128 \<le> 4" "1 \<le> unat lb - 128"
    "minimal_len (unat lb - 128) (be_val p)"
  shows "der_len (be_val p) = lb # p"
proof -
  have k: "unat lb - 128 = length_octets (be_val p)"
    using assms be_val_less[of p] by (intro minimal_len_octets) auto
  have "128 + (unat lb - 128) = unat lb" using assms(1) by simp
  then have lb: "word_of_nat (128 + length_octets (be_val p)) = lb"
    unfolding k [symmetric] by (simp only: word_of_nat_eq_iff) simp
  have "be_bytes (length_octets (be_val p)) (be_val p) = p"
    unfolding k [symmetric] assms(2) [symmetric] by simp
  then show ?thesis
    unfolding der_len_def lb using assms(5) by (simp add: minimal_len_def)
qed

lemma der_len_cases:
  assumes "n < 2 ^ 32"
  obtains (short) lb where "der_len n = [lb]" "unat lb = n" "n < 128"
  | (long) lb p where "der_len n = lb # p" "\<not> unat lb < 128" "length p = unat lb - 128"
      "1 \<le> unat lb - 128" "unat lb - 128 \<le> 4" "minimal_len (unat lb - 128) (be_val p)" "be_val p = n"
proof (cases "n < 128")
  case True
  then show ?thesis using short[of "word_of_nat n"] nat_u8_digit[of n] by (simp add: der_len_def)
next
  case False
  then have n: "128 \<le> n" by simp
  note m = length_octets_minimal[OF n assms]
  have "unat (word_of_nat (128 + length_octets n) :: u8) = 128 + length_octets n"
    using m(4) by (intro nat_u8_digit) simp
  then show ?thesis
    using False m by (intro long[of "word_of_nat (128 + length_octets n)" "be_bytes (length_octets n) n"])
      (simp_all add: der_len_def be_val_be_bytes)
qed

lemma u64_be_val:
  "length p \<le> 4 \<Longrightarrow> unat (word_of_nat (be_val p) :: u64) = be_val p"
  using unat_be_small[of p "length p", where 'a = 64] power_increasing[of "length p" 8 "256::nat"] by simp

lemma length_checks:
  assumes "length p = k" "k \<le> 4" 
  shows "((word_of_nat (be_val p) :: u64) < 128 \<or> drop_bit ((k - 1) * 8) (word_of_nat (be_val p) :: u64) = 0)
         \<longleftrightarrow> \<not> minimal_len k (be_val p)"
proof -
  have "drop_bit ((k - 1) * 8) (word_of_nat (be_val p) :: u64) = 0 \<longleftrightarrow> be_val p div 2 ^ ((k - 1) * 8) = 0"
    using assms by (simp only: unat_drop_bit u64_be_val flip: unat_eq_0)
  also have "2 ^ ((k - 1) * 8) = (256 :: nat) ^ (k - 1)"
    unfolding mult.commute[of "k - 1"] power_mult by simp
  finally show ?thesis
    using u64_be_val[of p] assms by (auto simp: minimal_len_def word_less_nat_alt)
qed

abbreviation element :: "cbs \<Rightarrow> nat \<Rightarrow> u32 \<Rightarrow> nat \<Rightarrow> bool \<Rightarrow> (asn1_element \<times> cbs) option" where
  "element c n tag hl ber \<equiv>
     (if n \<le> length c
      then Some (\<lparr>el_out = take n c, el_tag = tag, el_header_len = hl, el_ber_found = ber\<rparr>, drop n c)
      else None)"

lemma asn1_element_unfold:
  assumes c: "c = der_tag tag @ lb # h" and hl: "hl = length (der_tag tag) + 1"
  shows "cbs_get_any_asn1_element c ber =
    (if unat lb < 128 then element c (unat lb + hl) tag hl False
     else if ber \<and> tag AND CBS_ASN1_CONSTRUCTED \<noteq> 0 \<and> unat (lb AND 0x7f) = 0
       then element c hl tag hl True
     else if unat (lb AND 0x7f) = 0 \<or> unat (lb AND 0x7f) > 4 then None
     else
       do {
         (len64, header) \<leftarrow> cbs_get_u h (unat (lb AND 0x7f));
         if len64 < 128 \<and> \<not> ber then None
         else if drop_bit ((unat (lb AND 0x7f) - 1) * 8) len64 = 0 \<and> \<not> ber then None
         else if (unat len64 + hl + unat (lb AND 0x7f)) mod SIZE_MOD < unat len64 then None
         else element c ((unat len64 + hl + unat (lb AND 0x7f)) mod SIZE_MOD) tag (hl + unat (lb AND 0x7f))
                (len64 < 128 \<or> drop_bit ((unat (lb AND 0x7f) - 1) * 8) len64 = 0)
       })"
proof -
  have tag: "parse_asn1_tag c = Some (tag, lb # h)"
    by (simp add: parse_asn1_tag_Some c)
  have len: "length c - length h = hl" by (simp add: c hl)
  have gb: "(CBS_get_bytes c k \<bind> (\<lambda>(out, cbs). Some (f out, cbs))) =
      (if k \<le> length c then Some (f (take k c), drop k c) else None)" for k and f :: "cbs \<Rightarrow> asn1_element"
    by (simp add: CBS_get_bytes_def cbs_get_def)
  show ?thesis
    unfolding cbs_get_any_asn1_element_def tag bind.bind_lunit prod.case CBS_get_u8_simps Let_def len
      u8_and_80 gb ..
qed

text \<open>What the element reader computes on a well-formed identifier, in numbers.\<close>

lemma asn1_element_eval:
  assumes c: "c = der_tag tag @ lb # h" and hl: "hl = length (der_tag tag) + 1"
  shows "cbs_get_any_asn1_element c ber =
    (if unat lb < 128 then element c (unat lb + hl) tag hl False
     else if ber \<and> tag AND CBS_ASN1_CONSTRUCTED \<noteq> 0 \<and> unat lb = 128 then element c hl tag hl True
     else
       (let k = unat lb - 128; n = be_val (take k h)
        in if k = 0 \<or> k > 4 \<or> length h < k \<or> (\<not> minimal_len k n \<and> \<not> ber) then None
           else element c (n + hl + k) tag (hl + k) (\<not> minimal_len k n)))"
proof (cases "unat lb < 128")
  case True
  then show ?thesis
    by (simp only: asn1_element_unfold[OF c hl, of ber] if_True)
next
  case False
  let ?k = "unat lb - 128"
  have k: "unat (lb AND 0x7f) = ?k" "?k = 0 \<longleftrightarrow> unat lb = 128"
    using False unat_u8_less[of lb] by (auto simp: le_mod_geq simp del: unat_u8_less)
  note unf = asn1_element_unfold[OF c hl, of ber, unfolded k(1)]
  show ?thesis
  proof (cases "(ber \<and> tag AND CBS_ASN1_CONSTRUCTED \<noteq> 0 \<and> ?k = 0) \<or> ?k = 0 \<or> ?k > 4")
    case True
    with False show ?thesis
      unfolding unf Let_def using k(2) by (auto simp only: if_True if_False simp_thms)
  next
    case ok: False
    let ?p = "take ?k h" let ?w = "word_of_nat (be_val ?p) :: u64"
    show ?thesis
    proof (cases "length h < ?k")
      case True
      then have "cbs_get_u h ?k = None" by (simp add: cbs_get_u_def cbs_get_def)
      then show ?thesis unfolding unf Let_def using False ok True k(2) by simp
    next
      case len: False
      have lp: "length ?p = ?k" "?k \<le> 4" using ok len by auto
      have gu: "cbs_get_u h ?k = Some (?w, drop ?k h)"
        using len by (simp add: cbs_get_u_def cbs_get_def cbs_get_u_value)
      have val: "unat ?w = be_val ?p" using lp by (intro u64_be_val) simp
      have small: "be_val ?p < 2 ^ 32"
        using be_val_less[of ?p] power_increasing[of ?k 4 "256::nat"] lp by simp
      have "hl \<le> 7" using length_der_tag(1)[of tag] by (simp add: hl)
      then have tot: "(be_val ?p + hl + ?k) mod SIZE_MOD = be_val ?p + hl + ?k"
        using small lp(2) by simp
      have chk: "(?w < 128 \<or> drop_bit ((?k - 1) * 8) ?w = 0) = (\<not> minimal_len ?k (be_val ?p))"
        by (rule length_checks[OF lp])
      have ovf: "\<not> be_val ?p + hl + ?k < be_val ?p" by simp
      have merge: "(if A \<and> \<not> ber then None else if B \<and> \<not> ber then None else X) =
          (if (A \<or> B) \<and> \<not> ber then None else X)" for A B and X :: "'x option"
        by simp
      show ?thesis
        unfolding unf Let_def gu bind.bind_lunit prod.case val tot merge chk if_not_P[OF ovf]
        using False ok len k(2) by auto
    qed
  qed
qed

text \<open>The DER encoding of an element, and the record the reader gives for it.\<close>

definition der_tlv :: "u32 \<Rightarrow> bytes \<Rightarrow> bytes" where
  "der_tlv tag body = der_tag tag @ der_len (length body) @ body"

definition tlv_element :: "u32 \<Rightarrow> bytes \<Rightarrow> asn1_element" where
  "tlv_element tag body =
     \<lparr>el_out = der_tlv tag body, el_tag = tag,
      el_header_len = length (der_tag tag @ der_len (length body)), el_ber_found = False\<rparr>"

lemma DER_element_complete:
  assumes "length body < 2 ^ 32"
  shows "cbs_get_any_asn1_element (der_tlv tag body @ r) ber = Some (tlv_element tag body, r)"
  using assms
proof (cases rule: der_len_cases)
  case (short lb)
  have c: "der_tlv tag body @ r = der_tag tag @ lb # (body @ r)" by (simp add: der_tlv_def short)
  show ?thesis
    by (subst asn1_element_eval[OF c refl]) (use short in \<open>simp add: tlv_element_def der_tlv_def\<close>)
next
  case (long lb p)
  have c: "der_tlv tag body @ r = der_tag tag @ lb # (p @ body @ r)" by (simp add: der_tlv_def long)
  have "\<not> (unat lb = 128)" using long by linarith
  then show ?thesis
    by (subst asn1_element_eval[OF c refl], unfold Let_def long(3) [symmetric])
      (use long(1-2,4-7) in \<open>auto simp: tlv_element_def der_tlv_def simp flip: long(3)\<close>)
qed

lemma element_Some:
  assumes "element c n tag hl ber = Some (el, r)"
  obtains d where "c = d @ r" "length d = n"
    "el = \<lparr>el_out = d, el_tag = tag, el_header_len = hl, el_ber_found = ber\<rparr>"
  using assms that[of "take n c"] by (auto split: if_splits)

lemma DER_sound_short:
  assumes c: "c = der_tag tag @ lb # h" and lb: "unat lb < 128"
    and e: "element c (unat lb + (length (der_tag tag) + 1)) tag (length (der_tag tag) + 1) False = Some (el, r)"
  shows "\<exists>body. c = der_tlv tag body @ r \<and> length body < 2 ^ 32 \<and> el = tlv_element tag body"
proof -
  obtain d where d: "c = d @ r" "length d = unat lb + (length (der_tag tag) + 1)"
    "el = \<lparr>el_out = d, el_tag = tag, el_header_len = length (der_tag tag) + 1, el_ber_found = False\<rparr>"
    using e by (rule element_Some)
  have "d = take (length d) (der_tag tag @ lb # h)" using c d(1) by (metis append_eq_conv_conj)
  then have "d = der_tag tag @ lb # take (unat lb) h" unfolding d(2) by simp
  then obtain body where b: "d = der_tag tag @ lb # body" by blast
  then have l: "length body = unat lb" using d(2) by simp
  then have "der_len (length body) = [lb]" using lb by (simp add: der_len_def)
  then show ?thesis
    using b d lb l by (intro exI[of _ body]) (simp add: der_tlv_def tlv_element_def)
qed

lemma DER_sound_long:
  assumes c: "c = der_tag tag @ lb # p @ h" and lb: "\<not> unat lb < 128"
    and k: "length p = unat lb - 128" "unat lb - 128 \<noteq> 0" "unat lb - 128 \<le> 4"
      "minimal_len (unat lb - 128) (be_val p)"
    and e: "element c (be_val p + (length (der_tag tag) + 1) + length p) tag
              (length (der_tag tag) + 1 + length p) False = Some (el, r)"
  shows "\<exists>body. c = der_tlv tag body @ r \<and> length body < 2 ^ 32 \<and> el = tlv_element tag body"
proof -
  obtain d where d: "c = d @ r" "length d = be_val p + (length (der_tag tag) + 1) + length p"
    "el = \<lparr>el_out = d, el_tag = tag, el_header_len = length (der_tag tag) + 1 + length p,
           el_ber_found = False\<rparr>"
    using e by (rule element_Some)
  have "d = take (length d) (der_tag tag @ lb # p @ h)" using c d(1) by (metis append_eq_conv_conj)
  then have "d = der_tag tag @ lb # p @ take (be_val p) h" unfolding d(2) by simp
  then obtain body where b: "d = der_tag tag @ lb # p @ body" by blast
  then have l: "length body = be_val p" using d(2) by simp
  have dl: "der_len (length body) = lb # p"
    unfolding l using lb k by (intro der_len_long) simp_all
  have "be_val p < 2 ^ 32"
    using be_val_less[of p] power_increasing[of "length p" 4 "256::nat"] k by simp
  then show ?thesis
    using b d dl l by (intro exI[of _ body]) (simp add: der_tlv_def tlv_element_def)
qed

lemma if_None_Some: "(if P then None else x) = Some y \<Longrightarrow> \<not> P \<and> x = Some y"
  by (cases P) simp_all

lemma DER_element_sound:
  assumes "cbs_get_any_asn1_element c False = Some (el, r)"
  obtains tag body where "c = der_tlv tag body @ r" "length body < 2 ^ 32" "el = tlv_element tag body"
proof -
  obtain tag lb h where "parse_asn1_tag c = Some (tag, lb # h)"
  proof -
    have "parse_asn1_tag c \<noteq> None"
    proof
      assume "parse_asn1_tag c = None"
      then show False
        using assms unfolding cbs_get_any_asn1_element_def by (simp only: bind.bind_lzero option.distinct)
    qed
    then obtain tag h where t: "parse_asn1_tag c = Some (tag, h)" by auto
    moreover have "h \<noteq> []"
    proof
      assume "h = []"
      then show False
        using assms unfolding cbs_get_any_asn1_element_def
        by (simp only: t bind.bind_lunit bind.bind_lzero prod.case CBS_get_u8_simps option.distinct)
    qed
    ultimately show ?thesis using that by (cases h) simp_all
  qed
  then have c: "c = der_tag tag @ lb # h" by (simp add: parse_asn1_tag_Some)
  have "\<exists>body. c = der_tlv tag body @ r \<and> length body < 2 ^ 32 \<and> el = tlv_element tag body"
  proof (cases "unat lb < 128")
    case True
    from assms show ?thesis
      unfolding asn1_element_eval[OF c refl] if_P[OF True] by (rule DER_sound_short[OF c True])
  next
    case False
    let ?k = "unat lb - 128" let ?p = "take ?k h"
    have both: "\<not> (?k = 0 \<or> ?k > 4 \<or> length h < ?k \<or> (\<not> minimal_len ?k (be_val ?p) \<and> \<not> False)) \<and>
        element c (be_val ?p + (length (der_tag tag) + 1) + ?k) tag
              (length (der_tag tag) + 1 + ?k) (\<not> minimal_len ?k (be_val ?p)) = Some (el, r)"
      using assms unfolding asn1_element_eval[OF c refl] if_not_P[OF False] Let_def simp_thms if_False
      by (rule if_None_Some)
    then have ok: "?k \<noteq> 0" "?k \<le> 4" "?k \<le> length h" "minimal_len ?k (be_val ?p)"
      by (simp_all only: de_Morgan_disj not_less simp_thms)
    have e: "element c (be_val ?p + (length (der_tag tag) + 1) + ?k) tag
              (length (der_tag tag) + 1 + ?k) False = Some (el, r)"
      using both ok(4) by (simp only: simp_thms)
    have "c = der_tag tag @ lb # ?p @ drop ?k h" "length ?p = ?k" using c ok by simp_all
    with DER_sound_long[of c tag lb ?p "drop ?k h" el r] ok e False show ?thesis
      by (simp only: simp_thms)
  qed
  then show ?thesis using that by blast
qed

lemma CBS_get_any_asn1_element_Some:
  "CBS_get_any_asn1_element c = Some (el, r) \<longleftrightarrow>
     (\<exists>tag body. c = der_tlv tag body @ r \<and> length body < 2 ^ 32 \<and> el = tlv_element tag body)"
  unfolding CBS_get_any_asn1_element_def
  using DER_element_sound[of c el r] DER_element_complete by metis

lemma skip_header: "CBS_skip (el_out (tlv_element tag body)) (el_header_len (tlv_element tag body)) = Some body"
  unfolding CBS_skip_Some by (rule exI[of _ "der_tag tag @ der_len (length body)"])
    (simp add: tlv_element_def der_tlv_def)

lemma tlv_element_simps [simp]:
  "el_tag (tlv_element tag body) = tag" "el_out (tlv_element tag body) = der_tlv tag body"
  by (simp_all add: tlv_element_def)

lemmas skip_header' = skip_header [unfolded tlv_element_simps]

lemma CBS_get_any_asn1_element_cases:
  obtains tag body r where "CBS_get_any_asn1_element c = Some (tlv_element tag body, r)"
    "c = der_tlv tag body @ r" "length body < 2 ^ 32"
  | "CBS_get_any_asn1_element c = None" "\<And>tag body r. c = der_tlv tag body @ r \<Longrightarrow> \<not> length body < 2 ^ 32"
proof (cases "CBS_get_any_asn1_element c")
  case None
  then show ?thesis
    using that(2) CBS_get_any_asn1_element_Some[of c] by (metis option.distinct(1))
next
  case (Some x)
  then show ?thesis
    using that(1) CBS_get_any_asn1_element_Some[of c "fst x" "snd x"] by (metis prod.collapse)
qed

lemma der_tlv_unique:
  assumes "der_tlv tag body @ r = der_tlv tag' body' @ r'" "length body < 2 ^ 32" "length body' < 2 ^ 32"
  shows "tag = tag' \<and> body = body' \<and> r = r'"
proof -
  have "Some (tlv_element tag body, r) = Some (tlv_element tag' body', r')"
    using DER_element_complete[OF assms(2), of tag r False] DER_element_complete[OF assms(3), of tag' r' False]
    unfolding assms(1) by simp
  then have "tlv_element tag body = tlv_element tag' body'" "r = r'" by simp_all
  then show ?thesis
    using skip_header[of tag body] skip_header[of tag' body'] by (metis option.inject tlv_element_simps(1))
qed

lemma CBS_get_any_asn1_Some:
  "CBS_get_any_asn1 c = Some (body, tag, r) \<longleftrightarrow> c = der_tlv tag body @ r \<and> length body < 2 ^ 32"
proof (cases c rule: CBS_get_any_asn1_element_cases)
  case (1 t b s)
  then have "CBS_get_any_asn1 c = Some (b, t, s)"
    unfolding CBS_get_any_asn1_def 1(1) bind.bind_lunit prod.case skip_header by simp
  then show ?thesis using 1 der_tlv_unique[of t b s tag body r] by auto
qed (auto simp: CBS_get_any_asn1_def)

lemma CBS_get_asn1_Some:
  "CBS_get_asn1 c tag = Some (body, r) \<longleftrightarrow> c = der_tlv tag body @ r \<and> length body < 2 ^ 32"
proof (cases c rule: CBS_get_any_asn1_element_cases)
  case (1 t b s)
  then have "CBS_get_asn1 c tag = (if t \<noteq> tag then None else Some (b, s))"
    unfolding CBS_get_asn1_def cbs_get_asn1_def 1(1) bind.bind_lunit prod.case skip_header
      tlv_element_simps by (simp del: CBS_skip_Some add: skip_header')
  then show ?thesis using 1 der_tlv_unique[of t b s tag body r] by auto
qed (auto simp: CBS_get_asn1_def cbs_get_asn1_def)

lemma CBS_get_asn1_element_Some:
  "CBS_get_asn1_element c tag = Some (out, r) \<longleftrightarrow>
     (\<exists>body. c = out @ r \<and> out = der_tlv tag body \<and> length body < 2 ^ 32)"
proof (cases c rule: CBS_get_any_asn1_element_cases)
  case (1 t b s)
  then have e: "CBS_get_asn1_element c tag = (if t \<noteq> tag then None else Some (der_tlv t b, s))"
    unfolding CBS_get_asn1_element_def cbs_get_asn1_def 1(1) bind.bind_lunit prod.case
      tlv_element_simps by simp
  show ?thesis
    unfolding e using 1(2,3) der_tlv_unique[of t b s tag _ r] by (cases "t = tag") auto
qed (auto simp: CBS_get_asn1_element_def cbs_get_asn1_def)

lemma CBS_peek_asn1_tag_iff: "CBS_peek_asn1_tag c tag \<longleftrightarrow> (\<exists>r. c = der_tag tag @ r)"
proof
  assume "CBS_peek_asn1_tag c tag"
  then obtain r where "parse_asn1_tag c = Some (tag, r)"
    by (auto simp: CBS_peek_asn1_tag_def split: option.splits if_splits)
  then show "\<exists>r. c = der_tag tag @ r" by (auto simp: parse_asn1_tag_Some)
next
  assume "\<exists>r. c = der_tag tag @ r"
  then obtain r where "c = der_tag tag @ r" by blast
  then have "parse_asn1_tag c = Some (tag, r)" "c \<noteq> []"
    using length_der_tag(2)[of tag] by (auto simp: parse_asn1_tag_Some)
  then show "CBS_peek_asn1_tag c tag"
    by (cases c) (auto simp: CBS_peek_asn1_tag_def)
qed

section \<open>INTEGER contents\<close>

text \<open>The contents octets of a DER INTEGER (X.690, 8.3): at least one octet, the first nine bits
  not all equal; the value is their two's complement.\<close>

definition minimal_int :: "bytes \<Rightarrow> bool" where
  "minimal_int bs \<longleftrightarrow> bs \<noteq> [] \<and>
     (2 \<le> length bs \<longrightarrow> \<not> (bs ! 0 = 0 \<and> unat (bs ! 1) < 128) \<and> \<not> (bs ! 0 = 0xff \<and> 128 \<le> unat (bs ! 1)))"

definition negative_int :: "bytes \<Rightarrow> bool" where
  "negative_int bs \<longleftrightarrow> 128 \<le> unat (bs ! 0)"

definition asn1_int :: "bytes \<Rightarrow> int" where
  "asn1_int bs = int (be_val bs) - (if negative_int bs then 256 ^ length bs else 0)"

lemma CBS_is_valid_asn1_integer_iff:
  "CBS_is_valid_asn1_integer bs = (if minimal_int bs then Some (negative_int bs) else None)"
proof (cases bs)
  case (Cons a t)
  then show ?thesis
    by (cases t) (auto simp: CBS_is_valid_asn1_integer_def minimal_int_def negative_int_def u8_and_80 not_less)
qed (simp add: CBS_is_valid_asn1_integer_def minimal_int_def)

lemma CBS_is_unsigned_asn1_integer_iff:
  "CBS_is_unsigned_asn1_integer bs \<longleftrightarrow> minimal_int bs \<and> \<not> negative_int bs"
  by (simp add: CBS_is_unsigned_asn1_integer_def CBS_is_valid_asn1_integer_iff)

lemma asn1_uint64_loop_value:
  "asn1_uint64_loop out data =
     (if unat out * 256 ^ length data + be_val data < 2 ^ 64
      then Some (word_of_nat (unat out * 256 ^ length data + be_val data)) else None)"
proof (induction data arbitrary: out)
  case Nil
  then show ?case using unat_u64_less[of out] by simp
next
  case (Cons b data)
  have d: "drop_bit 56 out = 0 \<longleftrightarrow> unat out < 2 ^ 56"
    by (simp only: unat_drop_bit div_eq_0_iff flip: unat_eq_0) simp
  show ?case
  proof (cases "unat out < 2 ^ 56")
    case True
    then have u: "unat (push_bit 8 out OR ucast b) = unat out * 256 + unat b"
      using unat_shift_or[of "ucast b :: u64" 8 out] by simp
    have e: "(unat out * 256 + unat b) * 256 ^ length data + be_val data =
        unat out * 256 ^ length (b # data) + be_val (b # data)"
      by (simp add: algebra_simps)
    show ?thesis
      using True d Cons.IH[of "push_bit 8 out OR ucast b"] unfolding u e by simp
  next
    case False
    then have "(2 :: nat) ^ 64 \<le> unat out * 256 ^ length (b # data)"
    proof -
      have "(2 :: nat) ^ 64 \<le> unat out * 256" using False by simp
      also have "\<dots> \<le> unat out * 256 ^ length (b # data)" by simp
      finally show ?thesis .
    qed
    then show ?thesis using False d by simp
  qed
qed

lemma CBS_get_asn1_uint64_Some:
  "CBS_get_asn1_uint64 c = Some (v, r) \<longleftrightarrow>
     (\<exists>bs. c = der_tlv CBS_ASN1_INTEGER bs @ r \<and> minimal_int bs \<and> \<not> negative_int bs \<and>
           length bs < 2 ^ 32 \<and> be_val bs = unat v)"
proof -
  have "(be_val bs < 2 ^ 64 \<and> word_of_nat (be_val bs) = v) \<longleftrightarrow> be_val bs = unat v" for bs
    using unat_u64_less[of v] by (auto simp: unat_of_nat word_unat_eq_iff)
  then show ?thesis
    unfolding CBS_get_asn1_uint64_def bind_eq_Some_conv
    by (fastforce simp: CBS_get_asn1_Some CBS_is_unsigned_asn1_integer_iff asn1_uint64_loop_value
        split: if_splits)
qed

lemma foldl_upd:
  "k \<le> length data \<Longrightarrow> length data \<le> length u \<Longrightarrow>
   foldl (\<lambda>u i. u[i := data ! (length data - i - 1)]) u [0..<k] = take k (rev data) @ drop k u"
proof (induction k)
  case (Suc k)
  then have "foldl (\<lambda>u i. u[i := data ! (length data - i - 1)]) u [0..<Suc k] =
      (take k (rev data) @ drop k u)[k := data ! (length data - k - 1)]"
    by simp
  also have "drop k u = u ! k # drop (Suc k) u"
    using Suc.prems by (simp add: Cons_nth_drop_Suc)
  also have "take (Suc k) (rev data) = take k (rev data) @ [data ! (length data - k - 1)]"
    using Suc.prems by (simp add: take_Suc_conv_app_nth rev_nth)
  ultimately show ?case using Suc.prems by (simp add: list_update_append)
qed simp

lemma le_val_replicate: "le_val (replicate k 0) = 0" "le_val (replicate k 0xff) = 256 ^ k - 1"
proof -
  have "le_val (replicate k 0xff) + 1 = 256 ^ k" by (induction k) simp_all
  then show "le_val (replicate k 0xff) = 256 ^ k - 1" by simp
qed (induction k, simp_all)

lemma int64_bytes:
  assumes "length data \<le> 8"
  shows "word_of_nat (le_val (foldl (\<lambda>u i. u[i := data ! (length data - i - 1)])
           (replicate 8 (if negative_int data then 0xff else 0)) [0..<length data])) =
         (word_of_int (asn1_int data) :: u64)"
proof -
  let ?k = "8 - length data"
  have "int (256 ^ length data * (256 ^ ?k - 1)) = 2 ^ 64 - 256 ^ length data"
  proof -
    have "(256 :: int) ^ length data * 256 ^ ?k = 2 ^ 64"
      using assms by (simp flip: power_add)
    then show ?thesis by (simp add: of_nat_diff right_diff_distrib)
  qed
  then have "int (le_val (rev data @ replicate ?k (if negative_int data then 0xff else 0))) =
      asn1_int data + (if negative_int data then 2 ^ 64 else 0)"
    by (simp add: le_val_append le_val_rev le_val_replicate asn1_int_def)
  then have "(word_of_int (int (le_val (rev data @ replicate ?k (if negative_int data then 0xff else 0)))) :: u64)
      = word_of_int (asn1_int data)"
    by (simp add: word_of_int_eq_iff take_bit_eq_mod)
  then show ?thesis
    using foldl_upd[of "length data" data "replicate 8 (if negative_int data then 0xff else 0)"] assms
    by simp
qed

lemma asn1_int_range:
  assumes "bs \<noteq> []"
  shows "- (2 ^ (8 * length bs - 1)) \<le> asn1_int bs" "asn1_int bs < 2 ^ (8 * length bs - 1)"
proof -
  obtain a t where bs: "bs = a # t" using assms by (cases bs) auto
  have p: "(2 :: int) ^ (8 * length bs - 1) = 128 * 256 ^ length t"
    unfolding bs by (simp add: power_mult power_add)
  have v: "int (be_val t) < 256 ^ length t" "0 \<le> int (be_val t)"
    using be_val_less[of t] by (metis of_nat_less_iff of_nat_numeral of_nat_power) simp
  have q: "(0::int) < 256 ^ length t" by simp
  define n where "n = unat a"
  have n: "n < 256" "negative_int bs \<longleftrightarrow> 128 \<le> n"
    "asn1_int bs = int n * 256 ^ length t + int (be_val t) - (if negative_int bs then 256 * 256 ^ length t else 0)"
    by (simp_all add: n_def bs negative_int_def asn1_int_def)
  have "int n * 256 ^ length t \<le> (if negative_int bs then 255 else 127) * 256 ^ length t"
    using n by (intro mult_right_mono) auto
  moreover have "(if negative_int bs then 128 else 0) * 256 ^ length t \<le> int n * 256 ^ length t"
    using n by (intro mult_right_mono) auto
  ultimately show "- (2 ^ (8 * length bs - 1)) \<le> asn1_int bs" "asn1_int bs < 2 ^ (8 * length bs - 1)"
    unfolding p n(3) using v q
    by (cases "negative_int bs"; simp only: if_True if_False; linarith)+
qed

lemma sint_asn1_int:
  assumes "minimal_int bs" "length bs \<le> 8"
  shows "sint (word_of_int (asn1_int bs) :: u64) = asn1_int bs"
proof -
  have ne: "bs \<noteq> []" using assms(1) by (simp add: minimal_int_def)
  have "(2 :: int) ^ (8 * length bs - 1) \<le> 2 ^ 63"
    using assms(2) by (intro power_increasing) auto
  then have "- (2 ^ 63) \<le> asn1_int bs" "asn1_int bs < 2 ^ 63"
    using asn1_int_range[OF ne] by linarith+
  then show ?thesis
    by (simp add: sint_sbintrunc' signed_take_bit_int_eq_self)
qed

lemma CBS_get_asn1_int64_eval:
  assumes "CBS_get_asn1 c CBS_ASN1_INTEGER = Some (bs, r)"
  shows "CBS_get_asn1_int64 c =
    (if minimal_int bs \<and> length bs \<le> 8 then Some (word_of_int (asn1_int bs), r) else None)"
proof (cases "minimal_int bs")
  case True
  have "8 < length bs \<longleftrightarrow> \<not> length bs \<le> 8" by auto
  then show ?thesis
    unfolding CBS_get_asn1_int64_def assms bind.bind_lunit prod.case CBS_is_valid_asn1_integer_iff Let_def
      if_P[OF True] using True
    by (cases "length bs \<le> 8") (simp_all only: if_True if_False int64_bytes simp_thms)
next
  case False
  then show ?thesis
    unfolding CBS_get_asn1_int64_def assms bind.bind_lunit prod.case CBS_is_valid_asn1_integer_iff
      if_not_P[OF False] by simp
qed

lemma CBS_get_asn1_int64_Some:
  "CBS_get_asn1_int64 c = Some (v, r) \<longleftrightarrow>
     (\<exists>bs. c = der_tlv CBS_ASN1_INTEGER bs @ r \<and> minimal_int bs \<and> length bs \<le> 8 \<and> asn1_int bs = sint v)"
proof -
  have "word_of_int (asn1_int bs) = v \<longleftrightarrow> asn1_int bs = sint v" if "minimal_int bs" "length bs \<le> 8" for bs
    using sint_asn1_int[OF that] by auto
  note val = this
  show ?thesis
  proof (cases "CBS_get_asn1 c CBS_ASN1_INTEGER")
    case None
    then have "\<not> (c = der_tlv CBS_ASN1_INTEGER bs @ r \<and> length bs \<le> 8)" for bs
      using CBS_get_asn1_Some[of c CBS_ASN1_INTEGER bs r] by auto
    then show ?thesis using None by (auto simp: CBS_get_asn1_int64_def)
  next
    case (Some x)
    obtain bs r' where x: "x = (bs, r')" by (cases x)
    have u: "(c = der_tlv CBS_ASN1_INTEGER bs' @ r \<and> length bs' \<le> 8) \<longleftrightarrow> bs' = bs \<and> r' = r \<and> length bs' \<le> 8" for bs'
      using CBS_get_asn1_Some[of c CBS_ASN1_INTEGER bs' r] Some x by auto
    have "CBS_get_asn1_int64 c = (if minimal_int bs \<and> length bs \<le> 8 then Some (word_of_int (asn1_int bs), r') else None)"
      using Some x by (simp only: CBS_get_asn1_int64_eval)
    moreover have "(\<exists>bs. c = der_tlv CBS_ASN1_INTEGER bs @ r \<and> minimal_int bs \<and> length bs \<le> 8 \<and> asn1_int bs = sint v)
        \<longleftrightarrow> minimal_int bs \<and> length bs \<le> 8 \<and> r' = r \<and> asn1_int bs = sint v" (is "?L \<longleftrightarrow> ?R")
    proof
      assume ?L
      then obtain bs' where b: "c = der_tlv CBS_ASN1_INTEGER bs' @ r \<and> length bs' \<le> 8"
        "minimal_int bs'" "asn1_int bs' = sint v" by blast
      then have "bs' = bs" "r' = r" "length bs' \<le> 8" using u[of bs'] by blast+
      then show ?R using b(2,3) by simp
    next
      assume R: ?R
      then have "c = der_tlv CBS_ASN1_INTEGER bs @ r" using u[of bs] by blast
      then show ?L using R by blast
    qed
    ultimately show ?thesis
      using val[of bs] by (cases "minimal_int bs \<and> length bs \<le> 8") (simp_all only: if_True if_False option.inject prod.inject option.distinct simp_thms, blast+)
  qed
qed

lemma CBS_get_asn1_bool_Some:
  "CBS_get_asn1_bool c = Some (v, r) \<longleftrightarrow> c = der_tlv CBS_ASN1_BOOLEAN [if v then 0xff else 0] @ r"
proof (cases "CBS_get_asn1 c CBS_ASN1_BOOLEAN")
  case None
  then have "\<not> (c = der_tlv CBS_ASN1_BOOLEAN [if v then 0xff else 0] @ r)"
    using CBS_get_asn1_Some[of c CBS_ASN1_BOOLEAN "[if v then 0xff else 0]" r] by auto
  then show ?thesis using None by (simp add: CBS_get_asn1_bool_def)
next
  case (Some x)
  obtain bs r' where x: "x = (bs, r')" by (cases x)
  have "c = der_tlv CBS_ASN1_BOOLEAN [if v then 0xff else 0] @ r \<longleftrightarrow>
      bs = [if v then 0xff else 0] \<and> r' = r"
    using CBS_get_asn1_Some[of c CBS_ASN1_BOOLEAN "[if v then 0xff else 0]" r] Some x by auto
  then show ?thesis
    using Some x by (auto simp: CBS_get_asn1_bool_def Let_def length_Suc_conv)
qed

section \<open>The readers as prefix codecs\<close>

interpretation b128: prefix_codec "\<lambda>v. base128 (unat v)" parse_base128_integer "\<lambda>_. True"
  by unfold_locales (auto simp: parse_base128_integer_Some base128_def)

interpretation tag: prefix_codec der_tag parse_asn1_tag "\<lambda>_. True"
  by unfold_locales (auto simp: parse_asn1_tag_Some length_der_tag)

interpretation tlv: prefix_codec
  "\<lambda>(tag, body). der_tlv tag body"
  "\<lambda>c. map_option (\<lambda>(body, tag, r). ((tag, body), r)) (CBS_get_any_asn1 c)"
  "\<lambda>(tag, body). length body < 2 ^ 32"
proof unfold_locales
  fix x :: "u32 \<times> bytes" and r
  assume "case x of (tag, body) \<Rightarrow> length body < 2 ^ 32"
  then show "map_option (\<lambda>(body, tag, r). ((tag, body), r)) (CBS_get_any_asn1 ((case x of (tag, body) \<Rightarrow> der_tlv tag body) @ r)) = Some (x, r)"
    using CBS_get_any_asn1_Some[of "der_tlv (fst x) (snd x) @ r" "snd x" "fst x" r] by (auto split: prod.splits)
next
  fix c x r
  assume "map_option (\<lambda>(body, tag, r). ((tag, body), r)) (CBS_get_any_asn1 c) = Some (x, r)"
  then show "(case x of (tag, body) \<Rightarrow> length body < 2 ^ 32) \<and> c = (case x of (tag, body) \<Rightarrow> der_tlv tag body) @ r"
    by (auto simp: CBS_get_any_asn1_Some)
next
  fix x :: "u32 \<times> bytes"
  show "(case x of (tag, body) \<Rightarrow> der_tlv tag body) \<noteq> []"
    using length_der_tag(2) by (auto simp: der_tlv_def split: prod.splits)
qed

end
