(* ===== verification/Cbb.thy ===== *)
theory Cbb
  imports Prelude Endian Mem Cbs Qsort "HOL-Library.List_Lexorder" "HOL-Library.Char_ord"
begin

text \<open>
  \<open>crypto/bytestring/cbb.c\<close>: the CBB writer.

  A top-level \<open>CBB\<close> and the children that are attached to it share one \<open>cbb_buffer_st\<close>.  The
  model keeps the buffer and the chain of pending children, outermost first: the C handle of the
  top-level object is depth 0, its child depth 1 and so on; a handle deeper than the chain is a
  child that was flushed or discarded (\<open>base == NULL\<close>).

  \<^item> \<open>buf\<close> holds the \<open>len\<close> valid bytes.  The bytes a caller stores in fresh space are an argument
    of the operation that makes the space.
  \<^item> An operation returns its result and the new state; \<open>error\<close> is sticky.
  \<^item> The allocator is the parameter \<open>m\<close> of \<open>Mem\<close>; a reallocation succeeds when it grants the block.
\<close>

section \<open>State\<close>

record cbb_buffer =
  buf :: bytes
  cap :: nat
  can_resize :: bool
  error :: bool

record cbb_child =
  offset :: nat
  pending_len_len :: nat
  pending_is_asn1 :: bool

record cbb =
  base :: "cbb_buffer option"
  chain :: "cbb_child list"

definition CBB_zero :: cbb where
  "CBB_zero = \<lparr>base = None, chain = []\<rparr>"

definition cbb_init :: "(nat \<Rightarrow> bytes option) \<Rightarrow> nat \<Rightarrow> bool \<times> cbb" where
  "cbb_init m capacity =
     (if OPENSSL_malloc m 32 = None then (False, CBB_zero)
      else (True, \<lparr>base = Some \<lparr>buf = [], cap = capacity, can_resize = True, error = False\<rparr>, chain = []\<rparr>))"

definition CBB_init :: "(nat \<Rightarrow> bytes option) \<Rightarrow> nat \<Rightarrow> bool \<times> cbb" where
  "CBB_init m initial_capacity =
     (if initial_capacity > 0 \<and> OPENSSL_malloc m initial_capacity = None then (False, CBB_zero)
      else cbb_init m initial_capacity)"

definition CBB_init_fixed :: "(nat \<Rightarrow> bytes option) \<Rightarrow> nat \<Rightarrow> bool \<times> cbb" where
  "CBB_init_fixed m len =
     (case cbb_init m len of
        (False, cbb) \<Rightarrow> (False, cbb)
      | (True, cbb) \<Rightarrow> (True, cbb\<lparr>base := map_option (can_resize_update (\<lambda>_. False)) (base cbb)\<rparr>))"

definition CBB_cleanup :: "cbb \<Rightarrow> cbb" where
  "CBB_cleanup cbb = cbb\<lparr>base := None\<rparr>"

section \<open>The buffer\<close>

definition cbb_buffer_reserve :: "(nat \<Rightarrow> bytes option) \<Rightarrow> cbb_buffer \<Rightarrow> nat \<Rightarrow> bool \<times> cbb_buffer" where
  "cbb_buffer_reserve m b len =
     (let newlen = (length (buf b) + len) mod SIZE_MOD
      in if newlen < length (buf b) then (False, b\<lparr>error := True\<rparr>)
         else if newlen > cap b then
           (let newcap = cap b * 2 mod SIZE_MOD
            in if \<not> can_resize b then (False, b\<lparr>error := True\<rparr>)
               else
                 (let newcap = (if newcap < cap b \<or> newcap < newlen then newlen else newcap)
                  in if OPENSSL_malloc m newcap = None then (False, b\<lparr>error := True\<rparr>)
                     else (True, b\<lparr>cap := newcap\<rparr>)))
         else (True, b))"

text \<open>\<open>data\<close> is what the caller stores in the new space.\<close>

definition cbb_buffer_add :: "(nat \<Rightarrow> bytes option) \<Rightarrow> cbb_buffer \<Rightarrow> bytes \<Rightarrow> bool \<times> cbb_buffer" where
  "cbb_buffer_add m b data =
     (case cbb_buffer_reserve m b (length data) of
        (False, b) \<Rightarrow> (False, b)
      | (True, b) \<Rightarrow> (True, b\<lparr>buf := buf b @ data\<rparr>))"

text \<open>The loop that stores an integer from its last byte to its first, and what is left of it.\<close>

fun store_be :: "nat \<Rightarrow> u64 \<Rightarrow> bytes \<times> u64" where
  "store_be 0 v = ([], v)"
| "store_be (Suc i) v = (let (bs, w) = store_be i (drop_bit 8 v) in (bs @ [ucast v], w))"

definition cbb_buffer_add_u :: "(nat \<Rightarrow> bytes option) \<Rightarrow> cbb_buffer \<Rightarrow> u64 \<Rightarrow> nat \<Rightarrow> bool \<times> cbb_buffer" where
  "cbb_buffer_add_u m b v len_len =
     (if len_len = 0 then (True, b)
      else let (bs, v) = store_be len_len v
           in case cbb_buffer_add m b bs of
                (False, b) \<Rightarrow> (False, b)
              | (True, b) \<Rightarrow> (if v \<noteq> 0 then (False, b\<lparr>error := True\<rparr>) else (True, b)))"

section \<open>Flushing\<close>

definition blit :: "bytes \<Rightarrow> nat \<Rightarrow> bytes \<Rightarrow> bytes" where
  "blit dst off src = take off dst @ src @ drop (off + length src) dst"

definition asn1_len_len :: "nat \<Rightarrow> nat \<times> u8" where
  "asn1_len_len len =
     (if len > 0xffffff then (5, 0x80 OR 4)
      else if len > 0xffff then (4, 0x80 OR 3)
      else if len > 0xff then (3, 0x80 OR 2)
      else if len > 0x7f then (2, 0x80 OR 1)
      else (1, word_of_nat len))"

text \<open>The pending prefix of one child, once its own children are flushed.\<close>

definition flush_prefix :: "(nat \<Rightarrow> bytes option) \<Rightarrow> cbb_buffer \<Rightarrow> cbb_child \<Rightarrow> bool \<times> cbb_buffer" where
  "flush_prefix m b c =
     (let child_start = (offset c + pending_len_len c) mod SIZE_MOD;
          len = length (buf b) - child_start
      in if pending_is_asn1 c then
           (if len > 0xfffffffe then (False, b\<lparr>error := True\<rparr>)
            else
              (let (len_len, initial_length_byte) = asn1_len_len len;
                   rest = (if len_len = 1 then 0 else len);
                   (ok, b) =
                     (if len_len \<noteq> 1 then
                        (let extra_bytes = len_len - 1
                         in case cbb_buffer_add m b (replicate extra_bytes 0) of
                              (False, b) \<Rightarrow> (False, b\<lparr>error := True\<rparr>)
                            | (True, b) \<Rightarrow>
                                (True, b\<lparr>buf := blit (buf b) (child_start + extra_bytes)
                                                   (take len (drop child_start (buf b)))\<rparr>))
                      else (True, b))
               in if \<not> ok then (False, b)
                  else
                    (let b = b\<lparr>buf := (buf b)[offset c := initial_length_byte]\<rparr>;
                         (bs, rest) = store_be (len_len - 1) (word_of_nat rest)
                     in if rest \<noteq> 0 then (False, b\<lparr>buf := blit (buf b) (offset c + 1) bs, error := True\<rparr>)
                        else (True, b\<lparr>buf := blit (buf b) (offset c + 1) bs\<rparr>))))
         else
           (let (bs, rest) = store_be (pending_len_len c) (word_of_nat len)
            in if rest \<noteq> 0 then (False, b\<lparr>buf := blit (buf b) (offset c) bs, error := True\<rparr>)
               else (True, b\<lparr>buf := blit (buf b) (offset c) bs\<rparr>)))"

text \<open>\<open>flush_chain\<close> is \<open>CBB_flush\<close> on a handle whose descendants are the list.\<close>

fun flush_chain ::
  "(nat \<Rightarrow> bytes option) \<Rightarrow> cbb_buffer \<Rightarrow> cbb_child list \<Rightarrow> bool \<times> cbb_buffer \<times> cbb_child list" where
  "flush_chain m b [] = (if error b then (False, b, []) else (True, b, []))"
| "flush_chain m b (c # cs) =
     (if error b then (False, b, c # cs)
      else if pending_len_len c = 0 then (True, b, c # cs)
      else
        (let child_start = (offset c + pending_len_len c) mod SIZE_MOD;
             (ok, b, cs) = flush_chain m b cs
         in if \<not> ok \<or> child_start < offset c \<or> length (buf b) < child_start
            then (False, b\<lparr>error := True\<rparr>, c # cs)
            else
              (case flush_prefix m b c of
                 (False, b) \<Rightarrow> (False, b, c # cs)
               | (True, b) \<Rightarrow> (True, b, []))))"

definition CBB_flush :: "(nat \<Rightarrow> bytes option) \<Rightarrow> cbb \<Rightarrow> nat \<Rightarrow> bool \<times> cbb" where
  "CBB_flush m cbb d =
     (case base cbb of
        None \<Rightarrow> (False, cbb)
      | Some b \<Rightarrow>
          (if length (chain cbb) < d then (False, cbb)
           else
             (let (ok, b, cs) = flush_chain m b (drop d (chain cbb))
              in (ok, cbb\<lparr>base := Some b, chain := take d (chain cbb) @ cs\<rparr>))))"

text \<open>The result is the data handed to the caller; \<open>out_null\<close> says that an output pointer is
  \<open>NULL\<close>.\<close>

definition CBB_finish :: "(nat \<Rightarrow> bytes option) \<Rightarrow> cbb \<Rightarrow> nat \<Rightarrow> bool \<Rightarrow> bytes option \<times> cbb" where
  "CBB_finish m cbb d out_null =
     (if d \<noteq> 0 then (None, cbb)
      else case CBB_flush m cbb d of
        (False, cbb) \<Rightarrow> (None, cbb)
      | (True, cbb) \<Rightarrow>
          (case base cbb of
             None \<Rightarrow> (None, cbb)
           | Some b \<Rightarrow>
               (if can_resize b \<and> out_null then (None, cbb)
                else (Some (buf b), CBB_cleanup cbb))))"

section \<open>Handles without a pending child\<close>

definition CBB_offset :: "cbb \<Rightarrow> nat \<Rightarrow> nat" where
  "CBB_offset cbb d =
     (if d = 0 then 0 else offset (chain cbb ! (d - 1)) + pending_len_len (chain cbb ! (d - 1)))"

definition CBB_data :: "cbb \<Rightarrow> nat \<Rightarrow> bytes" where
  "CBB_data cbb d = (case base cbb of None \<Rightarrow> [] | Some b \<Rightarrow> drop (CBB_offset cbb d) (buf b))"

definition CBB_len :: "cbb \<Rightarrow> nat \<Rightarrow> nat" where
  "CBB_len cbb d = (case base cbb of None \<Rightarrow> 0 | Some b \<Rightarrow> length (buf b) - CBB_offset cbb d)"

text \<open>\<open>flush_then\<close>: the guard \<open>if (!CBB_flush(cbb)) return 0;\<close> before a step on the buffer.\<close>

definition flush_then ::
  "(nat \<Rightarrow> bytes option) \<Rightarrow> cbb \<Rightarrow> nat \<Rightarrow> (cbb_buffer \<Rightarrow> bool \<times> cbb_buffer) \<Rightarrow> bool \<times> cbb" where
  "flush_then m cbb d step =
     (case CBB_flush m cbb d of
        (False, cbb) \<Rightarrow> (False, cbb)
      | (True, cbb) \<Rightarrow>
          (case base cbb of
             None \<Rightarrow> (False, cbb)
           | Some b \<Rightarrow> (let (ok, b) = step b in (ok, cbb\<lparr>base := Some b\<rparr>))))"

definition CBB_add_bytes :: "(nat \<Rightarrow> bytes option) \<Rightarrow> cbb \<Rightarrow> nat \<Rightarrow> bytes \<Rightarrow> bool \<times> cbb" where
  "CBB_add_bytes m cbb d data = flush_then m cbb d (\<lambda>b. cbb_buffer_add m b data)"

definition CBB_add_space :: "(nat \<Rightarrow> bytes option) \<Rightarrow> cbb \<Rightarrow> nat \<Rightarrow> bytes \<Rightarrow> bool \<times> cbb" where
  "CBB_add_space m cbb d written = flush_then m cbb d (\<lambda>b. cbb_buffer_add m b written)"

definition CBB_add_zeros :: "(nat \<Rightarrow> bytes option) \<Rightarrow> cbb \<Rightarrow> nat \<Rightarrow> nat \<Rightarrow> bool \<times> cbb" where
  "CBB_add_zeros m cbb d len = CBB_add_space m cbb d (replicate len 0)"

definition CBB_reserve :: "(nat \<Rightarrow> bytes option) \<Rightarrow> cbb \<Rightarrow> nat \<Rightarrow> nat \<Rightarrow> bool \<times> cbb" where
  "CBB_reserve m cbb d len = flush_then m cbb d (\<lambda>b. cbb_buffer_reserve m b len)"

text \<open>\<open>written\<close> are the \<open>len\<close> bytes the caller has stored in the reserved space.\<close>

definition CBB_did_write :: "cbb \<Rightarrow> nat \<Rightarrow> bytes \<Rightarrow> bool \<times> cbb" where
  "CBB_did_write cbb d written =
     (case base cbb of
        None \<Rightarrow> (False, cbb)
      | Some b \<Rightarrow>
          (let newlen = (length (buf b) + length written) mod SIZE_MOD
           in if d < length (chain cbb) \<or> newlen < length (buf b) \<or> newlen > cap b then (False, cbb)
              else (True, cbb\<lparr>base := Some (b\<lparr>buf := buf b @ written\<rparr>)\<rparr>)))"

definition CBB_add_u8 :: "(nat \<Rightarrow> bytes option) \<Rightarrow> cbb \<Rightarrow> nat \<Rightarrow> u8 \<Rightarrow> bool \<times> cbb" where
  "CBB_add_u8 m cbb d v = flush_then m cbb d (\<lambda>b. cbb_buffer_add_u m b (ucast v) 1)"

definition CBB_add_u16 :: "(nat \<Rightarrow> bytes option) \<Rightarrow> cbb \<Rightarrow> nat \<Rightarrow> u16 \<Rightarrow> bool \<times> cbb" where
  "CBB_add_u16 m cbb d v = flush_then m cbb d (\<lambda>b. cbb_buffer_add_u m b (ucast v) 2)"

definition CBB_add_u16le :: "(nat \<Rightarrow> bytes option) \<Rightarrow> cbb \<Rightarrow> nat \<Rightarrow> u16 \<Rightarrow> bool \<times> cbb" where
  "CBB_add_u16le m cbb d v = CBB_add_u16 m cbb d (CRYPTO_bswap2 v)"

definition CBB_add_u24 :: "(nat \<Rightarrow> bytes option) \<Rightarrow> cbb \<Rightarrow> nat \<Rightarrow> u32 \<Rightarrow> bool \<times> cbb" where
  "CBB_add_u24 m cbb d v = flush_then m cbb d (\<lambda>b. cbb_buffer_add_u m b (ucast v) 3)"

definition CBB_add_u32 :: "(nat \<Rightarrow> bytes option) \<Rightarrow> cbb \<Rightarrow> nat \<Rightarrow> u32 \<Rightarrow> bool \<times> cbb" where
  "CBB_add_u32 m cbb d v = flush_then m cbb d (\<lambda>b. cbb_buffer_add_u m b (ucast v) 4)"

definition CBB_add_u32le :: "(nat \<Rightarrow> bytes option) \<Rightarrow> cbb \<Rightarrow> nat \<Rightarrow> u32 \<Rightarrow> bool \<times> cbb" where
  "CBB_add_u32le m cbb d v = CBB_add_u32 m cbb d (CRYPTO_bswap4 v)"

definition CBB_add_u64 :: "(nat \<Rightarrow> bytes option) \<Rightarrow> cbb \<Rightarrow> nat \<Rightarrow> u64 \<Rightarrow> bool \<times> cbb" where
  "CBB_add_u64 m cbb d v = flush_then m cbb d (\<lambda>b. cbb_buffer_add_u m b v 8)"

definition CBB_add_u64le :: "(nat \<Rightarrow> bytes option) \<Rightarrow> cbb \<Rightarrow> nat \<Rightarrow> u64 \<Rightarrow> bool \<times> cbb" where
  "CBB_add_u64le m cbb d v = CBB_add_u64 m cbb d (CRYPTO_bswap8 v)"

definition CBB_discard_child :: "cbb \<Rightarrow> nat \<Rightarrow> cbb" where
  "CBB_discard_child cbb d =
     (if d < length (chain cbb)
      then cbb\<lparr>base := map_option (\<lambda>b. b\<lparr>buf := take (offset (chain cbb ! d)) (buf b)\<rparr>) (base cbb),
               chain := take d (chain cbb)\<rparr>
      else cbb)"

section \<open>Children\<close>

text \<open>A successful call attaches the new child at depth \<open>d + 1\<close>.\<close>

definition cbb_add_length_prefixed :: "(nat \<Rightarrow> bytes option) \<Rightarrow> cbb \<Rightarrow> nat \<Rightarrow> nat \<Rightarrow> bool \<times> cbb" where
  "cbb_add_length_prefixed m cbb d len_len =
     (case CBB_flush m cbb d of
        (False, cbb) \<Rightarrow> (False, cbb)
      | (True, cbb) \<Rightarrow>
          (case base cbb of
             None \<Rightarrow> (False, cbb)
           | Some b \<Rightarrow>
               (case cbb_buffer_add m b (replicate len_len 0) of
                  (False, b') \<Rightarrow> (False, cbb\<lparr>base := Some b'\<rparr>)
                | (True, b') \<Rightarrow>
                    (True, \<lparr>base = Some b',
                            chain = take d (chain cbb) @
                              [\<lparr>offset = length (buf b), pending_len_len = len_len,
                                pending_is_asn1 = False\<rparr>]\<rparr>))))"

definition CBB_add_u8_length_prefixed :: "(nat \<Rightarrow> bytes option) \<Rightarrow> cbb \<Rightarrow> nat \<Rightarrow> bool \<times> cbb" where
  "CBB_add_u8_length_prefixed m cbb d = cbb_add_length_prefixed m cbb d 1"

definition CBB_add_u16_length_prefixed :: "(nat \<Rightarrow> bytes option) \<Rightarrow> cbb \<Rightarrow> nat \<Rightarrow> bool \<times> cbb" where
  "CBB_add_u16_length_prefixed m cbb d = cbb_add_length_prefixed m cbb d 2"

definition CBB_add_u24_length_prefixed :: "(nat \<Rightarrow> bytes option) \<Rightarrow> cbb \<Rightarrow> nat \<Rightarrow> bool \<times> cbb" where
  "CBB_add_u24_length_prefixed m cbb d = cbb_add_length_prefixed m cbb d 3"

text \<open>A sequence of one-byte writes that stops at the first failure.\<close>

fun add_u8s :: "(nat \<Rightarrow> bytes option) \<Rightarrow> cbb \<Rightarrow> nat \<Rightarrow> bytes \<Rightarrow> bool \<times> cbb" where
  "add_u8s m cbb d [] = (True, cbb)"
| "add_u8s m cbb d (b # bs) =
     (case CBB_add_u8 m cbb d b of
        (False, cbb) \<Rightarrow> (False, cbb)
      | (True, cbb) \<Rightarrow> add_u8s m cbb d bs)"

function base128_len :: "u64 \<Rightarrow> nat" where
  "base128_len copy = (if copy > 0 then Suc (base128_len (drop_bit 7 copy)) else 0)"
  by auto
termination
  by (relation "measure unat") (auto simp: unat_drop_bit word_less_nat_alt)

definition base128_bytes :: "u64 \<Rightarrow> nat \<Rightarrow> bytes" where
  "base128_bytes v len_len =
     map (\<lambda>i. let byte = ucast (drop_bit (7 * i) v AND 0x7f) :: u8
              in if i \<noteq> 0 then byte OR 0x80 else byte)
       (rev [0..<len_len])"

definition add_base128_integer :: "(nat \<Rightarrow> bytes option) \<Rightarrow> cbb \<Rightarrow> nat \<Rightarrow> u64 \<Rightarrow> bool \<times> cbb" where
  "add_base128_integer m cbb d v =
     (let len_len = base128_len v;
          len_len = (if len_len = 0 then 1 else len_len)
      in add_u8s m cbb d (base128_bytes v len_len))"

text \<open>\<open>cbb_then\<close> is the C idiom \<open>if (!step) return 0;\<close> between two calls.\<close>

definition cbb_then :: "bool \<times> cbb \<Rightarrow> (cbb \<Rightarrow> bool \<times> cbb) \<Rightarrow> bool \<times> cbb" where
  "cbb_then r f = (if fst r then f (snd r) else r)"

definition CBB_add_asn1 :: "(nat \<Rightarrow> bytes option) \<Rightarrow> cbb \<Rightarrow> nat \<Rightarrow> u32 \<Rightarrow> bool \<times> cbb" where
  "CBB_add_asn1 m cbb d tag =
     cbb_then (CBB_flush m cbb d) (\<lambda>cbb.
       let tag_bits = ucast (drop_bit CBS_ASN1_TAG_SHIFT tag AND 0xe0) :: u8 ;
           tag_number = tag AND CBS_ASN1_TAG_NUMBER_MASK
       in cbb_then
            (if tag_number \<ge> 0x1f
             then cbb_then (CBB_add_u8 m cbb d (tag_bits OR 0x1f))
                    (\<lambda>cbb. add_base128_integer m cbb d (ucast tag_number))
             else CBB_add_u8 m cbb d (tag_bits OR ucast tag_number))
            (\<lambda>cbb.
              let off = (case base cbb of None \<Rightarrow> 0 | Some b \<Rightarrow> length (buf b))
              in cbb_then (CBB_add_u8 m cbb d 0) (\<lambda>cbb.
                   (True, cbb\<lparr>chain := take d (chain cbb) @
                                [\<lparr>offset = off, pending_len_len = 1, pending_is_asn1 = True\<rparr>]\<rparr>))))"

section \<open>Integers, strings and booleans\<close>

fun asn1_uint64_bytes ::
  "(nat \<Rightarrow> bytes option) \<Rightarrow> cbb \<Rightarrow> nat \<Rightarrow> bool \<Rightarrow> bytes \<Rightarrow> bool \<times> cbb" where
  "asn1_uint64_bytes m cbb d started [] =
     (if \<not> started then CBB_add_u8 m cbb d 0 else (True, cbb))"
| "asn1_uint64_bytes m cbb d started (byte # bs) =
     (if \<not> started \<and> byte = 0 then asn1_uint64_bytes m cbb d started bs
      else
        cbb_then
          (if \<not> started \<and> byte AND 0x80 \<noteq> 0 then CBB_add_u8 m cbb d 0 else (True, cbb))
          (\<lambda>cbb. cbb_then (CBB_add_u8 m cbb d byte) (\<lambda>cbb. asn1_uint64_bytes m cbb d True bs)))"

definition CBB_add_asn1_uint64 :: "(nat \<Rightarrow> bytes option) \<Rightarrow> cbb \<Rightarrow> nat \<Rightarrow> u64 \<Rightarrow> bool \<times> cbb" where
  "CBB_add_asn1_uint64 m cbb d v =
     cbb_then (CBB_add_asn1 m cbb d CBS_ASN1_INTEGER) (\<lambda>cbb.
       cbb_then
         (asn1_uint64_bytes m cbb (d + 1) False
            (map (\<lambda>i. ucast (drop_bit (8 * (7 - i)) v AND 0xff)) [0..<8]))
         (\<lambda>cbb. CBB_flush m cbb d))"

fun int64_start :: "bytes \<Rightarrow> nat \<Rightarrow> nat" where
  "int64_start u 0 = 0"
| "int64_start u (Suc start) =
     (if u ! Suc start = 0xff \<and> u ! start AND 0x80 \<noteq> 0 then int64_start u start else Suc start)"

definition CBB_add_asn1_int64 :: "(nat \<Rightarrow> bytes option) \<Rightarrow> cbb \<Rightarrow> nat \<Rightarrow> u64 \<Rightarrow> bool \<times> cbb" where
  "CBB_add_asn1_int64 m cbb d v =
     (if sint v \<ge> 0 then CBB_add_asn1_uint64 m cbb d v
      else
        (let u = le_bytes 8 (unat v); start = int64_start u 7
         in cbb_then (CBB_add_asn1 m cbb d CBS_ASN1_INTEGER) (\<lambda>cbb.
              cbb_then (add_u8s m cbb (d + 1) (map (\<lambda>i. u ! i) (rev [0..<start + 1])))
                (\<lambda>cbb. CBB_flush m cbb d))))"

definition CBB_add_asn1_octet_string :: "(nat \<Rightarrow> bytes option) \<Rightarrow> cbb \<Rightarrow> nat \<Rightarrow> bytes \<Rightarrow> bool \<times> cbb" where
  "CBB_add_asn1_octet_string m cbb d data =
     cbb_then (CBB_add_asn1 m cbb d CBS_ASN1_OCTETSTRING) (\<lambda>cbb.
       cbb_then (CBB_add_bytes m cbb (d + 1) data) (\<lambda>cbb. CBB_flush m cbb d))"

definition CBB_add_asn1_bool :: "(nat \<Rightarrow> bytes option) \<Rightarrow> cbb \<Rightarrow> nat \<Rightarrow> int \<Rightarrow> bool \<times> cbb" where
  "CBB_add_asn1_bool m cbb d v =
     cbb_then (CBB_add_asn1 m cbb d CBS_ASN1_BOOLEAN) (\<lambda>cbb.
       cbb_then (CBB_add_u8 m cbb (d + 1) (if v \<noteq> 0 then 0xff else 0)) (\<lambda>cbb. CBB_flush m cbb d))"

section \<open>Object identifiers\<close>

fun parse_dotted_decimal_loop :: "u64 \<Rightarrow> bool \<Rightarrow> cbs \<Rightarrow> (u64 \<times> cbs) option" where
  "parse_dotted_decimal_loop out seen_digit [] = (if seen_digit then Some (out, []) else None)"
| "parse_dotted_decimal_loop out seen_digit (u # cbs) =
     (if u = 46 \<and> length cbs > 0 then (if seen_digit then Some (out, cbs) else None)
      else if u < 48 \<or> u > 57 \<or> (seen_digit \<and> out = 0) \<or> out > 1844674407370955161 \<or>
              out * 10 > 18446744073709551615 - ucast (u - 48) then None
      else parse_dotted_decimal_loop (out * 10 + ucast (u - 48)) True cbs)"

definition parse_dotted_decimal :: "cbs \<Rightarrow> (u64 \<times> cbs) option" where
  "parse_dotted_decimal cbs = parse_dotted_decimal_loop 0 False cbs"

lemma parse_dotted_decimal_loop_shorter:
  "parse_dotted_decimal_loop out seen cbs = Some (v, r) \<Longrightarrow>
     length r \<le> length cbs \<and> (\<not> seen \<longrightarrow> length r < length cbs)"
proof (induction cbs arbitrary: out seen)
  case (Cons u cbs)
  show ?case
  proof (cases "u = 46 \<and> length cbs > 0")
    case True
    then show ?thesis using Cons.prems by (auto split: if_splits)
  next
    case False
    with Cons.prems have "parse_dotted_decimal_loop (out * 10 + ucast (u - 48)) True cbs = Some (v, r)"
      by (auto simp del: parse_dotted_decimal_loop.simps(1) split: if_splits)
    from Cons.IH[OF this] show ?thesis by auto
  qed
qed (auto split: if_splits)

function add_oid_components :: "(nat \<Rightarrow> bytes option) \<Rightarrow> cbb \<Rightarrow> nat \<Rightarrow> cbs \<Rightarrow> bool \<times> cbb" where
  "add_oid_components m cbb d cbs =
     (if length cbs > 0 then
        (case parse_dotted_decimal cbs of
           None \<Rightarrow> (False, cbb)
         | Some (a, cbs) \<Rightarrow>
             cbb_then (add_base128_integer m cbb d a) (\<lambda>cbb. add_oid_components m cbb d cbs))
      else (True, cbb))"
  by auto
termination
  by (relation "measure (\<lambda>(m, cbb, d, cbs). length cbs)")
    (auto simp: parse_dotted_decimal_def dest: parse_dotted_decimal_loop_shorter)

declare add_oid_components.simps [simp del]

definition CBB_add_asn1_oid_from_text :: "(nat \<Rightarrow> bytes option) \<Rightarrow> cbb \<Rightarrow> nat \<Rightarrow> bytes \<Rightarrow> bool \<times> cbb" where
  "CBB_add_asn1_oid_from_text m cbb d text =
     cbb_then (CBB_flush m cbb d) (\<lambda>cbb.
       case parse_dotted_decimal text of
         None \<Rightarrow> (False, cbb)
       | Some (a, cbs) \<Rightarrow>
           (case parse_dotted_decimal cbs of
              None \<Rightarrow> (False, cbb)
            | Some (b, cbs) \<Rightarrow>
                if a > 2 \<or> (a < 2 \<and> b > 39) \<or> b > 18446744073709551615 - 80 then (False, cbb)
                else cbb_then (add_base128_integer m cbb d (40 * a + b))
                       (\<lambda>cbb. add_oid_components m cbb d cbs)))"

text \<open>\<open>BIO_snprintf\<close> with the format \<open>"%" PRIu64\<close>.\<close>

fun decimal :: "nat \<Rightarrow> bytes" where
  "decimal n = (if n < 10 then [word_of_nat (48 + n)] else decimal (n div 10) @ [word_of_nat (48 + n mod 10)])"

declare decimal.simps [simp del]

definition add_decimal :: "(nat \<Rightarrow> bytes option) \<Rightarrow> cbb \<Rightarrow> u64 \<Rightarrow> bool \<times> cbb" where
  "add_decimal m out v = CBB_add_bytes m out 0 (decimal (unat v))"

lemma parse_base128_loop_shorter:
  "parse_base128_loop v c = Some (w, r) \<Longrightarrow> length r < length c"
proof (induction c arbitrary: v)
  case (Cons b c)
  then show ?case
    unfolding parse_base128_loop_step by (fastforce split: if_splits)
qed simp

function oid_text_components :: "(nat \<Rightarrow> bytes option) \<Rightarrow> cbb \<Rightarrow> cbs \<Rightarrow> bool \<times> cbb" where
  "oid_text_components m cbb copy =
     (if length copy \<noteq> 0 then
        (case parse_base128_integer copy of
           None \<Rightarrow> (False, cbb)
         | Some (v, copy) \<Rightarrow>
             cbb_then (CBB_add_u8 m cbb 0 46) (\<lambda>cbb.
               cbb_then (add_decimal m cbb v) (\<lambda>cbb. oid_text_components m cbb copy)))
      else (True, cbb))"
  by auto
termination
  by (relation "measure (\<lambda>(m, cbb, copy). length copy)")
    (auto simp: parse_base128_integer_def dest: parse_base128_loop_shorter)

declare oid_text_components.simps [simp del]

definition CBS_asn1_oid_to_text :: "(nat \<Rightarrow> bytes option) \<Rightarrow> cbs \<Rightarrow> bytes option" where
  "CBS_asn1_oid_to_text m cbs =
     (let r =
        cbb_then (CBB_init m 32) (\<lambda>cbb.
          case parse_base128_integer cbs of
            None \<Rightarrow> (False, cbb)
          | Some (v, copy) \<Rightarrow>
              cbb_then
                (if v \<ge> 80
                 then cbb_then (CBB_add_bytes m cbb 0 [50, 46]) (\<lambda>cbb. add_decimal m cbb (v - 80))
                 else cbb_then (add_decimal m cbb (v div 40)) (\<lambda>cbb.
                        cbb_then (CBB_add_u8 m cbb 0 46) (\<lambda>cbb. add_decimal m cbb (v mod 40))))
                (\<lambda>cbb. cbb_then (oid_text_components m cbb copy) (\<lambda>cbb. CBB_add_u8 m cbb 0 0)))
      in if fst r then fst (CBB_finish m (snd r) 0 False) else None)"

section \<open>SET OF\<close>

definition compare_set_of_element :: "cbs \<Rightarrow> cbs \<Rightarrow> int" where
  "compare_set_of_element a b =
     (let a_len = length a; b_len = length b;
          min_len = (if a_len < b_len then a_len else b_len);
          ret = memcmp a b min_len
      in if ret \<noteq> 0 then ret
         else if a_len = b_len then 0
         else if a_len < b_len then - 1 else 1)"

lemma CBS_get_any_asn1_element_shorter:
  "CBS_get_any_asn1_element c = Some (el, r) \<Longrightarrow> length r < length c"
  using length_der_tag(2) by (fastforce simp: CBS_get_any_asn1_element_Some der_tlv_def)

function set_of_count :: "cbs \<Rightarrow> nat option" where
  "set_of_count cbs =
     (if length cbs \<noteq> 0 then
        (case CBS_get_any_asn1_element cbs of
           None \<Rightarrow> None
         | Some (_, cbs) \<Rightarrow> map_option Suc (set_of_count cbs))
      else Some 0)"
  by auto
termination
  by (relation "measure length") (auto dest: CBS_get_any_asn1_element_shorter)

declare set_of_count.simps [simp del]

primrec set_of_children :: "nat \<Rightarrow> cbs \<Rightarrow> cbs list option" where
  "set_of_children 0 cbs = Some []"
| "set_of_children (Suc n) cbs =
     (case CBS_get_any_asn1_element cbs of
        None \<Rightarrow> None
      | Some (el, cbs) \<Rightarrow> map_option ((#) (el_out el)) (set_of_children n cbs))"

fun add_all_bytes :: "(nat \<Rightarrow> bytes option) \<Rightarrow> cbb \<Rightarrow> nat \<Rightarrow> bytes list \<Rightarrow> bool \<times> cbb" where
  "add_all_bytes m cbb d [] = (True, cbb)"
| "add_all_bytes m cbb d (c # cs) =
     cbb_then (CBB_add_bytes m cbb d c) (\<lambda>cbb. add_all_bytes m cbb d cs)"

definition CBB_flush_asn1_set_of :: "(nat \<Rightarrow> bytes option) \<Rightarrow> cbb \<Rightarrow> nat \<Rightarrow> bool \<times> cbb" where
  "CBB_flush_asn1_set_of m cbb d =
     cbb_then (CBB_flush m cbb d) (\<lambda>cbb.
       case set_of_count (CBB_data cbb d) of
         None \<Rightarrow> (False, cbb)
       | Some num_children \<Rightarrow>
           if num_children < 2 then (True, cbb)
           else if num_children > (SIZE_MOD - 1) div 16 then (False, cbb)
           else if OPENSSL_memdup m (CBB_data cbb d) (CBB_len cbb d) = None \<or>
                   OPENSSL_malloc m (num_children * 16 mod SIZE_MOD) = None then (False, cbb)
           else
             (case set_of_children num_children (CBB_data cbb d) of
                None \<Rightarrow> (False, cbb)
              | Some children \<Rightarrow>
                  let children = qsort_by compare_set_of_element children;
                      cbb' = cbb\<lparr>base := map_option (\<lambda>b. b\<lparr>buf := take (CBB_offset cbb d) (buf b)\<rparr>) (base cbb)\<rparr>
                  in add_all_bytes m cbb' d children))"

section \<open>The buffer grows and keeps what it holds\<close>

text \<open>The allocator grants every request that fits the address space.\<close>

definition grants :: "(nat \<Rightarrow> bytes option) \<Rightarrow> bool" where
  "grants m \<longleftrightarrow> (\<forall>n. n + 8 < SIZE_MOD \<longrightarrow> OPENSSL_malloc m n \<noteq> None)"

lemma cbb_buffer_reserve_cap:
  assumes "cbb_buffer_reserve m b n = (True, b')" "length (buf b) + n < SIZE_MOD"
  shows "length (buf b) + n \<le> cap b'" "buf b' = buf b" "error b' = error b" "can_resize b' = can_resize b"
    "\<not> can_resize b \<Longrightarrow> cap b' = cap b"
  using assms by (auto simp: cbb_buffer_reserve_def Let_def split: if_splits)

lemma cbb_buffer_reserve_grants:
  assumes "grants m" "can_resize b" "length (buf b) + n < 2 ^ 62"
  shows "\<exists>k. cbb_buffer_reserve m b n = (True, b\<lparr>cap := k\<rparr>)"
proof -
  let ?n = "length (buf b) + n"
  have mod: "?n mod SIZE_MOD = ?n" using assms(3) by simp
  show ?thesis
  proof (cases "?n > cap b")
    case False
    then have "cbb_buffer_reserve m b n = (True, b\<lparr>cap := cap b\<rparr>)"
      unfolding cbb_buffer_reserve_def mod Let_def by simp
    then show ?thesis by blast
  next
    case True
    have c: "cap b * 2 mod SIZE_MOD = cap b * 2" using True assms(3) by simp
    let ?k = "if cap b * 2 < cap b \<or> cap b * 2 < ?n then ?n else cap b * 2"
    have "?k + 8 < SIZE_MOD" using True assms(3) by simp
    then have "OPENSSL_malloc m ?k \<noteq> None" using assms(1) unfolding grants_def by blast
    then have "cbb_buffer_reserve m b n = (True, b\<lparr>cap := ?k\<rparr>)"
      unfolding cbb_buffer_reserve_def mod c Let_def using True assms(2) by simp
    then show ?thesis by blast
  qed
qed

lemma cbb_buffer_add_ok:
  assumes "cbb_buffer_add m b data = (True, b')"
  shows "buf b' = buf b @ data" "error b' = error b" "can_resize b' = can_resize b"
  using assms by (auto simp: cbb_buffer_add_def cbb_buffer_reserve_def Let_def split: if_splits)

lemma cbb_buffer_add_grants:
  assumes "grants m" "can_resize b" "length (buf b) + length data < 2 ^ 62"
  shows "\<exists>k. cbb_buffer_add m b data = (True, b\<lparr>cap := k, buf := buf b @ data\<rparr>)"
  using cbb_buffer_reserve_grants[OF assms] by (auto simp: cbb_buffer_add_def)

lemma store_be_eq: "store_be k v = (be_bytes k (unat v), drop_bit (8 * k) v)"
proof (induction k arbitrary: v)
  case (Suc k)
  have "be_bytes (Suc k) (unat v) = be_bytes k (unat (drop_bit 8 v)) @ [ucast v]"
    by (simp only: be_bytes_snoc unat_drop_bit ucast_to_u8_of_nat) simp
  then show ?case by (simp add: Suc.IH add.commute del: be_bytes.simps)
qed simp

lemma drop_bit_0_iff: "drop_bit k (v :: 'a::len word) = 0 \<longleftrightarrow> unat v < 2 ^ k"
  by (simp only: unat_drop_bit div_eq_0_iff flip: unat_eq_0) simp

lemma two_pow_8: "(2 :: nat) ^ (8 * k) = 256 ^ k"
  by (simp add: power_mult)

lemma cbb_buffer_add_u_ok:
  assumes "cbb_buffer_add_u m b v k = (True, b')"
  shows "buf b' = buf b @ be_bytes k (unat v)" "error b' = error b" "can_resize b' = can_resize b"
    "k \<noteq> 0 \<longrightarrow> unat v < 256 ^ k"
  using assms unfolding cbb_buffer_add_u_def store_be_eq
  by (auto simp: drop_bit_0_iff two_pow_8 dest: cbb_buffer_add_ok split: if_splits bool.splits prod.splits)

lemma cbb_buffer_add_u_grants:
  assumes "grants m" "can_resize b" "length (buf b) + k < 2 ^ 62" "unat v < 256 ^ k"
  shows "\<exists>c. cbb_buffer_add_u m b v k = (True, b\<lparr>cap := c, buf := buf b @ be_bytes k (unat v)\<rparr>)"
proof (cases "k = 0")
  case True
  then show ?thesis by (intro exI[of _ "cap b"]) (simp add: cbb_buffer_add_u_def)
next
  case False
  have "drop_bit (8 * k) v = 0" using assms(4) by (simp add: drop_bit_0_iff two_pow_8)
  then show ?thesis
    using cbb_buffer_add_grants[of m b "be_bytes k (unat v)"] assms False
    by (auto simp: cbb_buffer_add_u_def store_be_eq)
qed

section \<open>Flushing writes the prefixes\<close>

text \<open>The prefix of one child, from the bytes of the buffer alone.\<close>

definition render_prefix :: "bytes \<Rightarrow> cbb_child \<Rightarrow> bytes option" where
  "render_prefix out c =
     (let body = drop (offset c + pending_len_len c) out
      in if length out < offset c + pending_len_len c then None
         else if pending_is_asn1 c then
           (if length body > 0xfffffffe then None
            else Some (take (offset c) out @ der_len (length body) @ body))
         else if length body < 256 ^ pending_len_len c
           then Some (take (offset c) out @ be_bytes (pending_len_len c) (length body) @ body)
           else None)"

fun render :: "bytes \<Rightarrow> cbb_child list \<Rightarrow> bytes option" where
  "render out [] = Some out"
| "render out (c # cs) = render out cs \<bind> (\<lambda>full. render_prefix full c)"

definition child_ok :: "cbb_child \<Rightarrow> bool" where
  "child_ok c \<longleftrightarrow> (pending_is_asn1 c \<longrightarrow> pending_len_len c = 1) \<and>
     0 < pending_len_len c \<and> pending_len_len c \<le> 8"

lemma der_len_prefix:
  assumes "n \<le> 0xfffffffe"
  obtains (short) ib where "n < 128" "asn1_len_len n = (1, ib)" "der_len n = [ib]"
  | (long) k ib where "128 \<le> n" "asn1_len_len n = (Suc k, ib)" "der_len n = ib # be_bytes k n"
      "0 < k" "k \<le> 4" "n < 256 ^ k"
proof -
  consider "n < 128" | "128 \<le> n" "n < 256" | "256 \<le> n" "n < 65536" | "65536 \<le> n" "n < 16777216"
    | "16777216 \<le> n" by linarith
  then show ?thesis
  proof cases
    case 1
    then show ?thesis using short[of "word_of_nat n"] by (simp add: asn1_len_len_def der_len_def)
  next
    case 2
    then show ?thesis using long[of 1 129] by (simp add: asn1_len_len_def der_len_def length_octets_def)
  next
    case 3
    then show ?thesis using long[of 2 130] by (simp add: asn1_len_len_def der_len_def length_octets_def)
  next
    case 4
    then show ?thesis using long[of 3 131] by (simp add: asn1_len_len_def der_len_def length_octets_def)
  next
    case 5
    then show ?thesis using long[of 4 132] assms by (simp add: asn1_len_len_def der_len_def length_octets_def)
  qed
qed

lemma blit_at: "off = length x \<Longrightarrow> length y = length s \<Longrightarrow> blit (x @ y @ z) off s = x @ s @ z"
  by (simp add: blit_def)

lemma asn1_shift:
  assumes "length bs = k"
  shows "blit ((blit ((pre @ z # body) @ replicate k 0) (Suc (length pre) + k)
            (take (length body) (drop (Suc (length pre)) ((pre @ z # body) @ replicate k 0))))
            [length pre := ib]) (Suc (length pre)) bs = pre @ ib # bs @ body"
proof -
  let ?gap = "take k (body @ replicate k (0 :: u8))"
  have g: "length ?gap = k" by simp
  have "blit ((pre @ z # body) @ replicate k 0) (Suc (length pre) + k)
            (take (length body) (drop (Suc (length pre)) ((pre @ z # body) @ replicate k 0)))
        = pre @ z # ?gap @ body"
    by (simp add: blit_def)
  then have e: "(blit ((pre @ z # body) @ replicate k 0) (Suc (length pre) + k)
            (take (length body) (drop (Suc (length pre)) ((pre @ z # body) @ replicate k 0))))
            [length pre := ib] = (pre @ [ib]) @ ?gap @ body"
    by simp
  show ?thesis
    unfolding e by (subst blit_at) (use assms g in simp_all)
qed

lemma word_of_nat_u64: "n < SIZE_MOD \<Longrightarrow> unat (word_of_nat n :: u64) = n"
  by (simp add: unat_of_nat)

lemma store_be_fits:
  "n < 256 ^ k \<Longrightarrow> n < SIZE_MOD \<Longrightarrow> store_be k (word_of_nat n) = (be_bytes k n, 0)"
  using drop_bit_0_iff[of "8 * k" "word_of_nat n :: u64"]
  by (simp add: store_be_eq word_of_nat_u64 two_pow_8)

lemma flush_prefix_asn1:
  assumes b: "buf b = pre @ z # body" and c: "offset c = length pre" "pending_len_len c = 1" "pending_is_asn1 c"
    and len: "length (buf b) < SIZE_MOD"
  shows "flush_prefix m b c =
    (if length body > 0xfffffffe then (False, b\<lparr>error := True\<rparr>)
     else if length body < 128 then (True, b\<lparr>buf := pre @ der_len (length body) @ body\<rparr>)
     else (case cbb_buffer_add m b (replicate (fst (asn1_len_len (length body)) - 1) 0) of
             (False, b) \<Rightarrow> (False, b\<lparr>error := True\<rparr>)
           | (True, b) \<Rightarrow> (True, b\<lparr>buf := pre @ der_len (length body) @ body\<rparr>)))"
proof (cases "length body > 0xfffffffe")
  case True
  have s: "Suc (length pre) mod SIZE_MOD = Suc (length pre)" using len b by simp
  show ?thesis using True by (simp add: flush_prefix_def c b s Let_def)
next
  case False
  have s: "(length pre + 1) mod SIZE_MOD = Suc (length pre)" using len b by simp
  have l: "length (buf b) - Suc (length pre) = length body" by (simp add: b)
  have le: "length body \<le> 0xfffffffe" using False by simp
  have lt: "length body < SIZE_MOD" using len b by simp
  from le show ?thesis
  proof (cases rule: der_len_prefix)
    case (short ib)
    have "(buf b)[length pre := ib] = pre @ [ib] @ body" by (simp add: b)
    then show ?thesis
      using short False unfolding flush_prefix_def c(1,2) if_P[OF c(3)] s l Let_def short(2)
      by (simp add: blit_def b)
  next
    case (long k ib)
    show ?thesis
    proof (cases "cbb_buffer_add m b (replicate k 0)")
      case (Pair ok b1)
      show ?thesis
      proof (cases ok)
        case False
        then show ?thesis
          using Pair long le unfolding flush_prefix_def c(1,2) if_P[OF c(3)] s l Let_def long(2)
          by simp
      next
        case True
        have b1: "buf b1 = (pre @ z # body) @ replicate k 0"
          using cbb_buffer_add_ok(1)[of m b "replicate k 0" b1] Pair True b by simp
        have st: "store_be k (word_of_nat (length body)) = (be_bytes k (length body), 0)"
          using long lt by (intro store_be_fits) simp_all
        have sh: "Suc (length pre) + (Suc k - 1) = Suc (length pre) + k" "length pre + 1 = Suc (length pre)"
          "Suc k - 1 = k" by simp_all
        have nk: "Suc k \<noteq> 1" "\<not> length body < 128" using long by simp_all
        show ?thesis
          unfolding flush_prefix_def c(1,2) if_P[OF c(3)] s l Let_def
          unfolding long(2,3) prod.case fst_conv if_P[OF nk(1)] if_not_P[OF nk(1)]
            if_not_P[OF nk(2)] sh Pair
          using True False le nk(1)
          by (simp add: st b1 asn1_shift[simplified])
      qed
    qed
  qed
qed

lemma flush_prefix_plain:
  assumes "buf b = pre @ z @ body" "offset c = length pre" "pending_len_len c = length z" "\<not> pending_is_asn1 c"
    and "length (buf b) < SIZE_MOD" "length z \<le> 8"
  shows "flush_prefix m b c =
    (if length body < 256 ^ length z then (True, b\<lparr>buf := pre @ be_bytes (length z) (length body) @ body\<rparr>)
     else (False, b\<lparr>buf := pre @ be_bytes (length z) (length body) @ body, error := True\<rparr>))"
proof -
  have s: "(length pre + length z) mod SIZE_MOD = length pre + length z" using assms(1,5) by simp
  have l: "length (buf b) - (length pre + length z) = length body" by (simp add: assms(1))
  have lt: "length body < SIZE_MOD" using assms(1,5) by simp
  have bl: "blit (buf b) (length pre) (be_bytes (length z) n) = pre @ be_bytes (length z) n @ body" for n
    unfolding assms(1) by (rule blit_at) simp_all
  have "drop_bit (8 * length z) (word_of_nat (length body) :: u64) = 0 \<longleftrightarrow> length body < 256 ^ length z"
    using lt by (simp add: drop_bit_0_iff word_of_nat_u64 two_pow_8)
  then show ?thesis
    unfolding flush_prefix_def assms(2,3) s l Let_def if_not_P[OF assms(4)] store_be_eq prod.case
    using lt by (simp add: bl word_of_nat_u64)
qed

lemma no_wrap:
  assumes "\<not> (x + n) mod SIZE_MOD < x" "x < SIZE_MOD" "n < SIZE_MOD"
  shows "x + n < SIZE_MOD"
proof (rule ccontr)
  assume "\<not> x + n < SIZE_MOD"
  then have "(x + n) mod SIZE_MOD = x + n - SIZE_MOD" "x + n - SIZE_MOD < x"
    using assms(2,3) by (simp_all add: le_mod_geq)
  then show False using assms(1) by metis
qed

lemma cbb_buffer_add_length:
  assumes "cbb_buffer_add m b data = (True, b')" "length (buf b) < SIZE_MOD" "length data < SIZE_MOD"
  shows "length (buf b') < SIZE_MOD"
proof -
  have "\<not> (length (buf b) + length data) mod SIZE_MOD < length (buf b)"
    using assms(1) by (auto simp: cbb_buffer_add_def cbb_buffer_reserve_def Let_def split: if_splits)
  from no_wrap[OF this assms(2,3)] show ?thesis
    using cbb_buffer_add_ok(1)[OF assms(1)] by simp
qed

lemma split_at_child:
  assumes "child_ok c" "offset c + pending_len_len c \<le> length out"
  obtains pre z body where "out = pre @ z @ body" "offset c = length pre" "pending_len_len c = length z"
proof
  have d: "drop (offset c + pending_len_len c) out = drop (pending_len_len c) (drop (offset c) out)"
    by (simp add: add.commute)
  show "out = take (offset c) out @ take (pending_len_len c) (drop (offset c) out) @
      drop (offset c + pending_len_len c) out"
    unfolding d append_take_drop_id ..
  show "offset c = length (take (offset c) out)"
    "pending_len_len c = length (take (pending_len_len c) (drop (offset c) out))"
    using assms(2) by simp_all
qed

lemma render_prefix_split:
  assumes "offset c = length pre" "pending_len_len c = length z"
  shows "render_prefix (pre @ z @ body) c =
    (if pending_is_asn1 c then
       (if length body > 0xfffffffe then None else Some (pre @ der_len (length body) @ body))
     else if length body < 256 ^ length z then Some (pre @ be_bytes (length z) (length body) @ body) else None)"
  by (simp add: render_prefix_def assms)

lemma flush_prefix_ok:
  assumes "child_ok c" "offset c + pending_len_len c \<le> length (buf b)" "length (buf b) < SIZE_MOD"
    and "flush_prefix m b c = (True, b')"
  shows "render_prefix (buf b) c = Some (buf b') \<and> error b' = error b \<and> can_resize b' = can_resize b \<and>
    length (buf b') < SIZE_MOD"
proof -
  obtain pre z body where s: "buf b = pre @ z @ body" "offset c = length pre" "pending_len_len c = length z"
    using assms(1,2) by (rule split_at_child)
  show ?thesis
  proof (cases "pending_is_asn1 c")
    case True
    then obtain z' where z: "z = [z']" using assms(1) s(3) by (auto simp: child_ok_def length_Suc_conv)
    have "buf b = pre @ z' # body" using s z by simp
    note b = this
    have p1: "pending_len_len c = 1" using s(3) z by simp
    note f = flush_prefix_asn1[OF b s(2) p1 True assms(3), of m]
    have le: "length body \<le> 0xfffffffe" using assms(4) unfolding f by (auto split: if_splits)
    then show ?thesis
    proof (cases rule: der_len_prefix)
      case (short ib)
      then show ?thesis
        using assms(3,4) le True unfolding f b render_prefix_split[OF s(2,3), unfolded z append_Cons append_Nil]
        by auto
    next
      case (long k ib)
      then obtain b1 where b1: "cbb_buffer_add m b (replicate k 0) = (True, b1)"
        "b' = b1\<lparr>buf := pre @ der_len (length body) @ body\<rparr>"
        using assms(4) le unfolding f by (auto split: if_splits prod.splits bool.splits)
      have "length (replicate k (0 :: u8)) < SIZE_MOD" using long by simp
      note l = cbb_buffer_add_length[OF b1(1) assms(3) this]
      show ?thesis
        using cbb_buffer_add_ok[OF b1(1)] l le True long
        unfolding b1(2) b render_prefix_split[OF s(2,3), unfolded z append_Cons append_Nil]
        by (simp add: add.commute)
    qed
  next
    case False
    have "length z \<le> 8" using assms(1) s(3) by (simp add: child_ok_def)
    note f = flush_prefix_plain[OF s False assms(3) this, of m]
    show ?thesis
      using assms(3,4) unfolding f s(1) render_prefix_split[OF s(2,3)]
      by (auto simp: False split: if_splits)
  qed
qed

lemma render_prefix_length: "render_prefix out c = Some out' \<Longrightarrow> child_ok c \<Longrightarrow> length out \<le> length out'"
proof -
  assume a: "render_prefix out c = Some out'" "child_ok c"
  then have le: "offset c + pending_len_len c \<le> length out"
    by (auto simp: render_prefix_def Let_def split: if_splits)
  obtain pre z body where s: "out = pre @ z @ body" "offset c = length pre" "pending_len_len c = length z"
    using a(2) le by (rule split_at_child)
  show ?thesis
    using a unfolding s(1) render_prefix_split[OF s(2,3)]
    by (auto simp: child_ok_def s(3) der_len_def split: if_splits)
qed

lemma flush_prefix_grants:
  assumes "child_ok c" "render_prefix (buf b) c = Some out" "length out < 2 ^ 62" "grants m" "can_resize b"
  shows "\<exists>k. flush_prefix m b c = (True, b\<lparr>cap := k, buf := out\<rparr>)"
proof -
  have le: "offset c + pending_len_len c \<le> length (buf b)"
    using assms(2) by (auto simp: render_prefix_def Let_def split: if_splits)
  have len: "length (buf b) < SIZE_MOD"
    using render_prefix_length[OF assms(2,1)] assms(3) by simp
  obtain pre z body where s: "buf b = pre @ z @ body" "offset c = length pre" "pending_len_len c = length z"
    using assms(1) le by (rule split_at_child)
  note r = assms(2)[unfolded s(1) render_prefix_split[OF s(2,3)]]
  show ?thesis
  proof (cases "pending_is_asn1 c")
    case True
    then obtain z' where z: "z = [z']" using assms(1) s(3) by (auto simp: child_ok_def length_Suc_conv)
    have b: "buf b = pre @ z' # body" using s z by simp
    have p1: "pending_len_len c = 1" using s(3) z by simp
    note f = flush_prefix_asn1[OF b s(2) p1 True len, of m]
    from r True have out: "out = pre @ der_len (length body) @ body" and nl: "\<not> length body > 0xfffffffe"
      by (auto split: if_splits)
    show ?thesis
    proof (cases "length body < 128")
      case True
      then show ?thesis unfolding f out using nl by (intro exI[of _ "cap b"]) simp
    next
      case False
      have le: "length body \<le> 0xfffffffe" using nl by simp
      obtain k ib where k: "asn1_len_len (length body) = (Suc k, ib)" "der_len (length body) = ib # be_bytes k (length body)"
        using le False by (cases rule: der_len_prefix) auto
      have "length (buf b) + length (replicate (fst (asn1_len_len (length body)) - 1) (0 :: u8)) < 2 ^ 62"
        using assms(3) unfolding out b k by simp
      from cbb_buffer_add_grants[OF assms(4,5) this] obtain c where
        "cbb_buffer_add m b (replicate (fst (asn1_len_len (length body)) - 1) 0) =
           (True, b\<lparr>cap := c, buf := buf b @ replicate (fst (asn1_len_len (length body)) - 1) 0\<rparr>)" by blast
      then show ?thesis unfolding f out using nl False by (intro exI[of _ c]) simp
    qed
  next
    case False
    have "length z \<le> 8" using assms(1) s(3) by (simp add: child_ok_def)
    note f = flush_prefix_plain[OF s False len this, of m]
    show ?thesis unfolding f using r False by (intro exI[of _ "cap b"]) (auto split: if_splits)
  qed
qed



lemma flush_chain_render:
  assumes "flush_chain m b cs = (True, b', cs')" "\<forall>c\<in>set cs. child_ok c \<and> offset c < 2 ^ 62"
    "length (buf b) < SIZE_MOD"
  shows "cs' = [] \<and> \<not> error b' \<and> can_resize b' = can_resize b \<and> render (buf b) cs = Some (buf b') \<and>
    length (buf b') < SIZE_MOD"
  using assms
proof (induction cs arbitrary: b b' cs')
  case Nil
  then show ?case by (auto split: if_splits)
next
  case (Cons c cs)
  have c: "child_ok c" "offset c < 2 ^ 62" and cs: "\<forall>c\<in>set cs. child_ok c \<and> offset c < 2 ^ 62"
    using Cons.prems(2) by auto
  then have pl: "0 < pending_len_len c" and st: "(offset c + pending_len_len c) mod SIZE_MOD = offset c + pending_len_len c"
    by (simp_all add: child_ok_def)
  obtain ok1 b1 cs1 where r1: "flush_chain m b cs = (ok1, b1, cs1)" by (cases "flush_chain m b cs")
  obtain ok2 b2 where r2: "flush_prefix m b1 c = (ok2, b2)" by (cases "flush_prefix m b1 c")
  have ok: "ok1" "offset c + pending_len_len c \<le> length (buf b1)" "ok2" "b' = b2" "cs' = []"
    using Cons.prems(1) pl by (auto simp: st r1 r2 Let_def split: if_splits bool.splits)
  have r1': "flush_chain m b cs = (True, b1, cs1)" "flush_prefix m b1 c = (True, b2)" using r1 r2 ok by simp_all
  note IH = Cons.IH[OF r1'(1) cs Cons.prems(3)]
  have "length (buf b1) < SIZE_MOD" using IH by blast
  note P = flush_prefix_ok[OF c(1) ok(2) this r1'(2)]
  show ?case using IH P ok by simp
qed

lemma render_length: "render out cs = Some out' \<Longrightarrow> \<forall>c\<in>set cs. child_ok c \<Longrightarrow> length out \<le> length out'"
  by (induction cs arbitrary: out') (auto simp: bind_eq_Some_conv dest!: render_prefix_length)

lemma flush_chain_grants:
  assumes "grants m" "render (buf b) cs = Some out" "length out < 2 ^ 62" "can_resize b" "\<not> error b"
    "\<forall>c\<in>set cs. child_ok c \<and> offset c < 2 ^ 62"
  shows "\<exists>k. flush_chain m b cs = (True, b\<lparr>cap := k, buf := out\<rparr>, [])"
  using assms(2,3,6)
proof (induction cs arbitrary: out)
  case Nil
  then show ?case using assms(5) by (intro exI[of _ "cap b"]) simp
next
  case (Cons c cs)
  have c: "child_ok c" "offset c < 2 ^ 62" and cs: "\<forall>c\<in>set cs. child_ok c \<and> offset c < 2 ^ 62"
    using Cons.prems(3) by auto
  then have pl: "0 < pending_len_len c" and st: "(offset c + pending_len_len c) mod SIZE_MOD = offset c + pending_len_len c"
    by (simp_all add: child_ok_def)
  obtain full where full: "render (buf b) cs = Some full" "render_prefix full c = Some out"
    using Cons.prems(1) by (auto simp: bind_eq_Some_conv)
  have "length full < 2 ^ 62" using render_prefix_length[OF full(2) c(1)] Cons.prems(2) by simp
  from Cons.IH[OF full(1) this cs] obtain k where
    r1: "flush_chain m b cs = (True, b\<lparr>cap := k, buf := full\<rparr>, [])" by blast
  let ?b = "b\<lparr>cap := k, buf := full\<rparr>"
  have "render_prefix (buf ?b) c = Some out" "can_resize ?b" using full(2) assms(4) by simp_all
  from flush_prefix_grants[OF c(1) this(1) Cons.prems(2) assms(1) this(2)] obtain k' where
    r2: "flush_prefix m ?b c = (True, ?b\<lparr>cap := k', buf := out\<rparr>)" by blast
  have "offset c + pending_len_len c \<le> length full"
    using full(2) by (auto simp: render_prefix_def Let_def split: if_splits)
  then have "flush_chain m b (c # cs) = (True, ?b\<lparr>cap := k', buf := out\<rparr>, [])"
    using pl assms(5) by (simp add: st r1 r2)
  then show ?case by (intro exI[of _ k']) simp
qed

section \<open>What a writer emits\<close>

text \<open>
  \<open>emits m d w data\<close>: on a handle at depth \<open>d\<close> that has no pending child, the step \<open>w\<close> either
  fails or appends exactly \<open>data\<close> to the buffer and changes nothing else; it does not fail when
  the buffer may grow and the allocator grants every request.
\<close>

definition leaf :: "cbb \<Rightarrow> nat \<Rightarrow> cbb_buffer \<Rightarrow> bool" where
  "leaf c d b \<longleftrightarrow> base c = Some b \<and> \<not> error b \<and> length (chain c) = d"

definition appended :: "cbb \<Rightarrow> cbb_buffer \<Rightarrow> bytes \<Rightarrow> cbb \<Rightarrow> bool" where
  "appended c b data c' \<longleftrightarrow>
     (\<exists>b'. c' = c\<lparr>base := Some b'\<rparr> \<and> buf b' = buf b @ data \<and> \<not> error b' \<and> can_resize b' = can_resize b)"

definition emits :: "(nat \<Rightarrow> bytes option) \<Rightarrow> nat \<Rightarrow> (cbb \<Rightarrow> bool \<times> cbb) \<Rightarrow> bytes \<Rightarrow> bool" where
  "emits m d w data \<longleftrightarrow>
     (\<forall>c b. leaf c d b \<and> length (buf b) + length data < 2 ^ 62 \<longrightarrow>
        (fst (w c) \<longrightarrow> appended c b data (snd (w c))) \<and> (grants m \<and> can_resize b \<longrightarrow> fst (w c)))"

lemma emitsI:
  assumes "\<And>c b. leaf c d b \<Longrightarrow> length (buf b) + length data < 2 ^ 62 \<Longrightarrow> fst (w c) \<Longrightarrow> appended c b data (snd (w c))"
    and "\<And>c b. leaf c d b \<Longrightarrow> length (buf b) + length data < 2 ^ 62 \<Longrightarrow> grants m \<Longrightarrow> can_resize b \<Longrightarrow> fst (w c)"
  shows "emits m d w data"
  using assms by (auto simp: emits_def)

lemma emitsD:
  assumes "emits m d w data" "leaf c d b" "length (buf b) + length data < 2 ^ 62"
  shows "fst (w c) \<Longrightarrow> appended c b data (snd (w c))" "grants m \<Longrightarrow> can_resize b \<Longrightarrow> fst (w c)"
  using assms by (auto simp: emits_def)

lemma appended_leaf:
  assumes "leaf c d b" "appended c b x c'"
  obtains b' where "leaf c' d b'" "buf b' = buf b @ x" "can_resize b' = can_resize b" "c' = c\<lparr>base := Some b'\<rparr>"
  using assms by (auto simp: leaf_def appended_def)

lemma appended_append:
  "leaf c d b \<Longrightarrow> appended c b x c' \<Longrightarrow> leaf c' d b' \<Longrightarrow> appended c' b' y c'' \<Longrightarrow> appended c b (x @ y) c''"
  by (auto simp: appended_def leaf_def)

lemma emits_then:
  assumes "emits m d w1 x" "emits m d w2 y"
  shows "emits m d (\<lambda>c. cbb_then (w1 c) w2) (x @ y)"
proof (rule emitsI)
  fix c b assume l: "leaf c d b" "length (buf b) + length (x @ y) < 2 ^ 62"
  then have l1: "length (buf b) + length x < 2 ^ 62" by simp
  have step: "\<exists>b'. leaf (snd (w1 c)) d b' \<and> length (buf b') + length y < 2 ^ 62 \<and> can_resize b' = can_resize b"
    if f: "fst (w1 c)"
  proof -
    obtain b' where b': "leaf (snd (w1 c)) d b'" "buf b' = buf b @ x" "can_resize b' = can_resize b"
      using appended_leaf[OF l(1) emitsD(1)[OF assms(1) l(1) l1 f]] by metis
    then have "length (buf b') + length y < 2 ^ 62" using l(2) by simp
    then show ?thesis using b' by blast
  qed
  { assume "fst (cbb_then (w1 c) w2)"
    then have f: "fst (w1 c)" "fst (w2 (snd (w1 c)))" by (auto simp: cbb_then_def split: if_splits)
    then obtain b' where b': "leaf (snd (w1 c)) d b'" "length (buf b') + length y < 2 ^ 62" using step by blast
    show "appended c b (x @ y) (snd (cbb_then (w1 c) w2))"
      using appended_append[OF l(1) emitsD(1)[OF assms(1) l(1) l1 f(1)] b'(1) emitsD(1)[OF assms(2) b' f(2)]] f(1)
      by (simp add: cbb_then_def) }
  { assume g: "grants m" "can_resize b"
    then have f: "fst (w1 c)" using emitsD(2)[OF assms(1) l(1) l1] by blast
    then obtain b' where b': "leaf (snd (w1 c)) d b'" "length (buf b') + length y < 2 ^ 62" "can_resize b'"
      using step g(2) by blast
    show "fst (cbb_then (w1 c) w2)"
      using emitsD(2)[OF assms(2) b'(1,2) g(1) b'(3)] f by (simp add: cbb_then_def) }
qed

lemma emits_nothing: "emits m d (\<lambda>c. (True, c)) []"
proof (rule emitsI)
  fix c b assume "leaf c d b"
  then have "(c :: cbb) = c\<lparr>base := Some b\<rparr>" "\<not> error b" by (simp_all add: leaf_def)
  then show "appended c b [] (snd (True, c))"
    unfolding appended_def snd_conv by (intro exI[of _ b]) auto
qed simp

lemma CBB_flush_leaf: "leaf c d b \<Longrightarrow> CBB_flush m c d = (True, c)"
  by (auto simp: CBB_flush_def leaf_def)

lemma emits_flush_then:
  assumes "\<And>b b'. step b = (True, b') \<Longrightarrow> buf b' = buf b @ data \<and> error b' = error b \<and> can_resize b' = can_resize b"
    and "\<And>b. grants m \<Longrightarrow> can_resize b \<Longrightarrow> length (buf b) + length data < 2 ^ 62 \<Longrightarrow> fst (step b)"
  shows "emits m d (\<lambda>c. flush_then m c d step) data"
proof (rule emitsI)
  fix c b assume l: "leaf c d b" "length (buf b) + length data < 2 ^ 62"
  obtain ok b' where s: "step b = (ok, b')" by (cases "step b")
  have e: "flush_then m c d step = (ok, c\<lparr>base := Some b'\<rparr>)"
    using l(1) by (simp add: flush_then_def CBB_flush_leaf[OF l(1)] leaf_def s)
  { assume "fst (flush_then m c d step)"
    then show "appended c b data (snd (flush_then m c d step))"
      using assms(1)[of b b'] s l(1) by (auto simp: e appended_def leaf_def) }
  { assume "grants m" "can_resize b"
    then show "fst (flush_then m c d step)" using assms(2)[of b] l s by (simp add: e) }
qed

lemma emits_bytes: "emits m d (\<lambda>c. CBB_add_bytes m c d data) data"
  unfolding CBB_add_bytes_def
  by (rule emits_flush_then) (auto dest: cbb_buffer_add_ok cbb_buffer_add_grants)

lemma emits_space: "emits m d (\<lambda>c. CBB_add_space m c d data) data"
  unfolding CBB_add_space_def
  by (rule emits_flush_then) (auto dest: cbb_buffer_add_ok cbb_buffer_add_grants)

lemma emits_u:
  assumes "unat v < 256 ^ k"
  shows "emits m d (\<lambda>c. flush_then m c d (\<lambda>b. cbb_buffer_add_u m b v k)) (be_bytes k (unat v))"
proof (rule emits_flush_then)
  show "fst (cbb_buffer_add_u m b v k)"
    if "grants m" "can_resize b" "length (buf b) + length (be_bytes k (unat v)) < 2 ^ 62" for b
    using cbb_buffer_add_u_grants[OF that(1,2) _ assms] that(3) by fastforce
qed (auto dest: cbb_buffer_add_u_ok)

lemma emits_u8: "emits m d (\<lambda>c. CBB_add_u8 m c d v) [v]"
proof -
  have "be_bytes 1 (unat (ucast v :: u64)) = [v]" by simp
  then show ?thesis
    using emits_u[of "ucast v" 1 m d] unfolding CBB_add_u8_def by simp
qed

lemma emits_u16: "emits m d (\<lambda>c. CBB_add_u16 m c d v) (be_bytes 2 (unat v))"
  using emits_u[of "ucast v" 2 m d] unat_u16_less[of v]
  by (simp add: CBB_add_u16_def unat_ucast_le)

lemma emits_u24: "unat v < 2 ^ 24 \<Longrightarrow> emits m d (\<lambda>c. CBB_add_u24 m c d v) (be_bytes 3 (unat v))"
  using emits_u[of "ucast v" 3 m d] by (simp add: CBB_add_u24_def unat_ucast_le)

lemma emits_u32: "emits m d (\<lambda>c. CBB_add_u32 m c d v) (be_bytes 4 (unat v))"
  using emits_u[of "ucast v" 4 m d] unat_u32_less[of v] by (simp add: CBB_add_u32_def unat_ucast_le)

lemma emits_u64: "emits m d (\<lambda>c. CBB_add_u64 m c d v) (be_bytes 8 (unat v))"
  using emits_u[of v 8 m d] unat_u64_less[of v] by (simp add: CBB_add_u64_def)

lemma emits_u8s: "emits m d (\<lambda>c. add_u8s m c d bs) bs"
proof (induction bs)
  case Nil
  then show ?case by (simp add: emits_nothing)
next
  case (Cons b bs)
  have "(\<lambda>c. add_u8s m c d (b # bs)) = (\<lambda>c. cbb_then (CBB_add_u8 m c d b) (\<lambda>c. add_u8s m c d bs))"
    by (rule ext) (auto simp: cbb_then_def split: prod.splits bool.splits)
  then show ?case using emits_then[OF emits_u8 Cons.IH] by simp
qed

section \<open>Pending children\<close>

text \<open>Opening a child, writing its contents and flushing it.\<close>

definition in_child ::
  "(nat \<Rightarrow> bytes option) \<Rightarrow> nat \<Rightarrow> (cbb \<Rightarrow> bool \<times> cbb) \<Rightarrow> (cbb \<Rightarrow> bool \<times> cbb) \<Rightarrow> cbb \<Rightarrow> bool \<times> cbb" where
  "in_child m d open w c = cbb_then (open c) (\<lambda>c. cbb_then (w c) (\<lambda>c. CBB_flush m c d))"

text \<open>\<open>opens m d w pre ch\<close>: the step appends \<open>pre\<close>, the room of a pending prefix, and attaches \<open>ch\<close>.\<close>

definition opens :: "(nat \<Rightarrow> bytes option) \<Rightarrow> nat \<Rightarrow> (cbb \<Rightarrow> bool \<times> cbb) \<Rightarrow> bytes \<Rightarrow> nat \<Rightarrow> bool \<Rightarrow> bool" where
  "opens m d w pre k is_asn1 \<longleftrightarrow>
     (\<forall>c b. leaf c d b \<and> length (buf b) + length pre + k < 2 ^ 62 \<longrightarrow>
        (fst (w c) \<longrightarrow> (\<exists>b'. snd (w c) = \<lparr>base = Some b', chain = chain c @
             [\<lparr>offset = length (buf b @ pre), pending_len_len = k, pending_is_asn1 = is_asn1\<rparr>]\<rparr> \<and>
           buf b' = buf b @ pre @ replicate k 0 \<and> \<not> error b' \<and> can_resize b' = can_resize b)) \<and>
        (grants m \<and> can_resize b \<longrightarrow> fst (w c)))"

lemma appended_buf:
  "appended c b x c' \<Longrightarrow> \<exists>b'. c' = c\<lparr>base := Some b'\<rparr> \<and> buf b' = buf b @ x \<and> \<not> error b' \<and> can_resize b' = can_resize b"
  by (simp add: appended_def)

lemma CBB_flush_one_child:
  assumes c: "c = \<lparr>base = Some b, chain = ch @ [x]\<rparr>" and d: "length ch = d"
    and x: "child_ok x" "offset x < 2 ^ 62" and b: "length (buf b) < SIZE_MOD"
  shows "CBB_flush m c d = (True, c') \<Longrightarrow> \<exists>b'. c' = \<lparr>base = Some b', chain = ch\<rparr> \<and>
      render_prefix (buf b) x = Some (buf b') \<and> \<not> error b' \<and> can_resize b' = can_resize b"
    and "grants m \<Longrightarrow> can_resize b \<Longrightarrow> \<not> error b \<Longrightarrow> render_prefix (buf b) x = Some out \<Longrightarrow> length out < 2 ^ 62
      \<Longrightarrow> fst (CBB_flush m c d)"
proof -
  have ok: "\<forall>c\<in>set [x]. child_ok c \<and> offset c < 2 ^ 62" using x by simp
  obtain k b' cs where f: "flush_chain m b [x] = (k, b', cs)" by (cases "flush_chain m b [x]")
  have e: "CBB_flush m c d = (k, \<lparr>base = Some b', chain = ch @ cs\<rparr>)"
    unfolding CBB_flush_def c using d f by (simp del: flush_chain.simps)
  { assume "CBB_flush m c d = (True, c')"
    then have k: "k" "c' = \<lparr>base = Some b', chain = ch @ cs\<rparr>" using e by simp_all
    then show "\<exists>b'. c' = \<lparr>base = Some b', chain = ch\<rparr> \<and> render_prefix (buf b) x = Some (buf b') \<and>
        \<not> error b' \<and> can_resize b' = can_resize b"
      using flush_chain_render[of m b "[x]" b' cs, OF _ ok b] f by simp }
  { assume "grants m" "can_resize b" "\<not> error b" "render_prefix (buf b) x = Some out" "length out < 2 ^ 62"
    then show "fst (CBB_flush m c d)"
      using flush_chain_grants[of m b "[x]" out, OF _ _ _ _ _ ok] f e by (auto simp del: flush_chain.simps) }
qed

lemma emits_in_child:
  assumes o: "opens m d opn pre k asn1" and w: "emits m (Suc d) w body"
    and k: "1 \<le> k" "k \<le> 8" "asn1 \<Longrightarrow> k = 1"
    and lim: "if asn1 then length body \<le> 0xfffffffe else length body < 256 ^ k"
  shows "emits m d (in_child m d opn w) (pre @ (if asn1 then der_len (length body) else be_bytes k (length body)) @ body)"
    (is "emits m d _ (pre @ ?len @ body)")
proof (rule emitsI)
  fix c b assume l: "leaf c d b" "length (buf b) + length (pre @ ?len @ body) < 2 ^ 62"
  have "k \<le> length ?len" using k(3) by (auto simp: der_len_def)
  with l(2) have l1: "length (buf b) + length pre + k < 2 ^ 62" and l2: "length (buf b) + length pre + k + length body < 2 ^ 62"
    by simp_all
  let ?ch = "\<lparr>offset = length (buf b @ pre), pending_len_len = k, pending_is_asn1 = asn1\<rparr>"
  have ch: "child_ok ?ch" "offset ?ch < 2 ^ 62" using k l1 by (simp_all add: child_ok_def)
  have ob: "\<exists>b1. opn c = (True, \<lparr>base = Some b1, chain = chain c @ [?ch]\<rparr>) \<and>
      buf b1 = buf b @ pre @ replicate k 0 \<and> \<not> error b1 \<and> can_resize b1 = can_resize b" if f: "fst (opn c)"
  proof -
    from o l(1) l1 f obtain b1 where "snd (opn c) = \<lparr>base = Some b1, chain = chain c @ [?ch]\<rparr>"
      "buf b1 = buf b @ pre @ replicate k 0" "\<not> error b1" "can_resize b1 = can_resize b"
      unfolding opens_def by blast
    then show ?thesis using f by (metis prod.collapse)
  qed
  have rp: "render_prefix (buf b @ pre @ replicate k 0 @ body) ?ch = Some (buf b @ pre @ ?len @ body)"
    using render_prefix_split[of ?ch "buf b @ pre" "replicate k 0" body] lim by (auto split: if_splits)
  { fix b1 assume b1: "opn c = (True, \<lparr>base = Some b1, chain = chain c @ [?ch]\<rparr>)"
      "buf b1 = buf b @ pre @ replicate k 0" "\<not> error b1" "can_resize b1 = can_resize b"
    let ?c1 = "\<lparr>base = Some b1, chain = chain c @ [?ch]\<rparr>"
    have "leaf ?c1 (Suc d) b1" "length (buf b1) + length body < 2 ^ 62"
      using l(1) b1 l2 by (simp_all add: leaf_def) }
  note c1 = this
  { assume "fst (in_child m d opn w c)"
    then have f: "fst (opn c)" by (auto simp: in_child_def cbb_then_def split: if_splits)
    then obtain b1 where b1: "opn c = (True, \<lparr>base = Some b1, chain = chain c @ [?ch]\<rparr>)"
      "buf b1 = buf b @ pre @ replicate k 0" "\<not> error b1" "can_resize b1 = can_resize b"
      using ob by blast
    let ?c1 = "\<lparr>base = Some b1, chain = chain c @ [?ch]\<rparr>"
    have f2: "fst (w ?c1)" "fst (CBB_flush m (snd (w ?c1)) d)"
      "snd (in_child m d opn w c) = snd (CBB_flush m (snd (w ?c1)) d)"
      using \<open>fst (in_child m d opn w c)\<close> b1(1) by (auto simp: in_child_def cbb_then_def split: if_splits)
    from appended_buf[OF emitsD(1)[OF w c1[OF b1] f2(1)]] obtain b2 where
      b2: "snd (w ?c1) = \<lparr>base = Some b2, chain = chain c @ [?ch]\<rparr>" "buf b2 = buf b1 @ body" "\<not> error b2"
        "can_resize b2 = can_resize b1" by auto
    have len2: "length (buf b2) < SIZE_MOD" using b2(2) b1(2) l2 by simp
    have bb: "buf b2 = buf b @ pre @ replicate k 0 @ body" using b2(2) b1(2) by simp
    have "CBB_flush m (snd (w ?c1)) d = (True, snd (CBB_flush m (snd (w ?c1)) d))" using f2(2) by (metis prod.collapse)
    from CBB_flush_one_child(1)[OF b2(1) _ ch len2 this] l(1) obtain b3 where
      "snd (CBB_flush m (snd (w ?c1)) d) = \<lparr>base = Some b3, chain = chain c\<rparr>"
      "buf b3 = buf b @ pre @ ?len @ body" "\<not> error b3" "can_resize b3 = can_resize b2"
      unfolding bb rp by (auto simp: leaf_def)
    then show "appended c b (pre @ ?len @ body) (snd (in_child m d opn w c))"
      unfolding f2(3) appended_def using b1(4) b2(4) by (intro exI[of _ b3]) simp }
  { assume g: "grants m" "can_resize b"
    then have f: "fst (opn c)" using o l(1) l1 unfolding opens_def by blast
    then obtain b1 where b1: "opn c = (True, \<lparr>base = Some b1, chain = chain c @ [?ch]\<rparr>)"
      "buf b1 = buf b @ pre @ replicate k 0" "\<not> error b1" "can_resize b1 = can_resize b"
      using ob by blast
    let ?c1 = "\<lparr>base = Some b1, chain = chain c @ [?ch]\<rparr>"
    have f1: "fst (w ?c1)" using emitsD(2)[OF w c1[OF b1] g(1)] g(2) b1(4) by simp
    from appended_buf[OF emitsD(1)[OF w c1[OF b1] f1]] obtain b2 where
      b2: "snd (w ?c1) = \<lparr>base = Some b2, chain = chain c @ [?ch]\<rparr>" "buf b2 = buf b1 @ body" "\<not> error b2"
        "can_resize b2 = can_resize b1" by auto
    have len2: "length (buf b2) < SIZE_MOD" using b2(2) b1(2) l2 by simp
    have bb: "buf b2 = buf b @ pre @ replicate k 0 @ body" using b2(2) b1(2) by simp
    have "fst (CBB_flush m (snd (w ?c1)) d)"
      by (rule CBB_flush_one_child(2)[OF b2(1) _ ch len2 g(1) _ b2(3)])
        (use l rp bb g(2) b1(4) b2(4) in \<open>auto simp: leaf_def\<close>)
    then show "fst (in_child m d opn w c)" using f1 b1(1) by (simp add: in_child_def cbb_then_def) }
qed

lemma opens_length_prefixed:
  assumes "k < 2 ^ 62"
  shows "opens m d (\<lambda>c. cbb_add_length_prefixed m c d k) [] k False"
  unfolding opens_def
proof (intro allI impI)
  fix c b assume l: "leaf c d b \<and> length (buf b) + length ([] :: bytes) + k < 2 ^ 62"
  then have lf: "leaf c d b" and b: "base c = Some b" "\<not> error b" "length (chain c) = d"
    by (simp_all add: leaf_def)
  obtain ok b' where a: "cbb_buffer_add m b (replicate k 0) = (ok, b')" by (cases "cbb_buffer_add m b (replicate k 0)")
  have e: "cbb_add_length_prefixed m c d k =
      (if ok then (True, \<lparr>base = Some b', chain = chain c @
          [\<lparr>offset = length (buf b), pending_len_len = k, pending_is_asn1 = False\<rparr>]\<rparr>)
       else (False, c\<lparr>base := Some b'\<rparr>))"
    using b by (simp add: cbb_add_length_prefixed_def CBB_flush_leaf[OF lf] a)
  show "(fst (cbb_add_length_prefixed m c d k) \<longrightarrow> (\<exists>b'. snd (cbb_add_length_prefixed m c d k) =
       \<lparr>base = Some b', chain = chain c @ [\<lparr>offset = length (buf b @ []), pending_len_len = k, pending_is_asn1 = False\<rparr>]\<rparr> \<and>
       buf b' = buf b @ [] @ replicate k 0 \<and> \<not> error b' \<and> can_resize b' = can_resize b)) \<and>
     (grants m \<and> can_resize b \<longrightarrow> fst (cbb_add_length_prefixed m c d k))"
    using a b cbb_buffer_add_ok[of m b "replicate k 0" b'] cbb_buffer_add_grants[of m b "replicate k 0"] l
    by (auto simp: e)
qed

section \<open>Base-128 integers and identifier octets\<close>

fun base128_digits :: "nat \<Rightarrow> nat" where
  "base128_digits x = (if x = 0 then 0 else Suc (base128_digits (x div 128)))"

declare base128_digits.simps [simp del]

lemma rev_upt_Suc: "rev [0..<Suc n] = map Suc (rev [0..<n]) @ [0]"
proof -
  have "[0..<Suc n] = 0 # map Suc [0..<n]" by (simp add: upt_conv_Cons map_Suc_upt del: upt_Suc)
  then show ?thesis by (simp only: rev.simps rev_map)
qed

lemma base128_prefix_digits:
  "base128_prefix x = map (\<lambda>i. word_of_nat (128 + x div 128 ^ i mod 128)) (rev [0..<base128_digits x])"
proof (induction x rule: base128_prefix.induct)
  case (1 x)
  show ?case
  proof (cases "x = 0")
    case True
    then show ?thesis by (simp add: base128_digits.simps)
  next
    case False
    have q: "x div 128 ^ Suc i = x div 128 div 128 ^ i" for i by (simp add: div_mult2_eq)
    have "base128_digits x = Suc (base128_digits (x div 128))" using False by (subst base128_digits.simps) simp
    then show ?thesis
      using False 1 by (subst base128_prefix.simps) (simp only: rev_upt_Suc map_append map_map comp_def q if_False, simp)
  qed
qed

lemma base128_len_digits: "base128_len v = base128_digits (unat v)"
proof (induction v rule: base128_len.induct)
  case (1 v)
  have "unat (drop_bit 7 v) = unat v div 128" by (simp add: unat_drop_bit)
  then show ?case
    using 1 by (subst base128_len.simps, subst base128_digits.simps) (simp add: word_less_nat_alt)
qed

lemma u8_or_80: "n < 128 \<Longrightarrow> word_of_nat n OR (0x80 :: u8) = word_of_nat (128 + n)"
  using word_shift_or[of 7 n 1, where 'a = 8] by (simp add: or.commute push_bit_eq_mult)

lemma base128_byte:
  "(ucast (drop_bit (7 * i) (v :: u64) AND 0x7f) :: u8) = word_of_nat (unat v div 128 ^ i mod 128)"
proof -
  have "unat (drop_bit (7 * i) v AND 0x7f) = unat v div 2 ^ (7 * i) mod 128"
    using unat_and_mask[of "drop_bit (7 * i) v" 7] by (simp add: mask_eq_exp_minus_1 unat_drop_bit)
  also have "(2 :: nat) ^ (7 * i) = 128 ^ i" by (simp add: power_mult)
  finally show ?thesis by (simp add: ucast_to_u8_of_nat)
qed

lemma base128_bytes_eq:
  "base128_bytes v (if base128_len v = 0 then 1 else base128_len v) = base128 (unat v)"
proof -
  let ?k = "base128_digits (unat v div 128)"
  have z: "base128_digits 0 = 0" by (simp add: base128_digits.simps)
  have n: "(if base128_len v = 0 then 1 else base128_len v) = Suc ?k"
  proof (cases "unat v = 0")
    case True
    then show ?thesis by (simp only: base128_len_digits z div_0) simp
  next
    case False
    then have "base128_digits (unat v) = Suc ?k" by (subst base128_digits.simps) simp
    then show ?thesis by (simp only: base128_len_digits) simp
  qed
  have q: "unat v div 128 ^ Suc i = unat v div 128 div 128 ^ i" for i by (simp add: div_mult2_eq)
  have "(let byte = ucast (drop_bit (7 * Suc i) v AND 0x7f) :: u8 in if Suc i \<noteq> 0 then byte OR 0x80 else byte) =
      word_of_nat (128 + unat v div 128 div 128 ^ i mod 128)" for i
    by (simp only: Let_def base128_byte q u8_or_80 mod_less_divisor zero_less_numeral) simp
  moreover have "(let byte = ucast (drop_bit (7 * 0) v AND 0x7f) :: u8 in if 0 \<noteq> (0::nat) then byte OR 0x80 else byte)
      = word_of_nat (unat v mod 128)"
    unfolding Let_def base128_byte by simp
  ultimately show ?thesis
    unfolding n base128_bytes_def rev_upt_Suc base128_def base128_prefix_digits map_append map_map comp_def list.map
    by simp
qed

lemma emits_base128: "emits m d (\<lambda>c. add_base128_integer m c d v) (base128 (unat v))"
proof -
  have "(\<lambda>c. add_base128_integer m c d v) = (\<lambda>c. add_u8s m c d (base128 (unat v)))"
    by (rule ext) (simp only: add_base128_integer_def Let_def base128_bytes_eq)
  then show ?thesis using emits_u8s[of m d "base128 (unat v)"] by simp
qed

lemma tag_number_value: "unat (tag AND CBS_ASN1_TAG_NUMBER_MASK) = unat tag mod 2 ^ 29"
  using unat_and_mask[of tag 29] by (simp add: mask_eq_exp_minus_1)

lemma tag_bits_eq:
  "(ucast (drop_bit 24 (tag :: u32) AND 0xe0) :: u8) = push_bit 5 (word_of_nat (unat tag div 2 ^ 29))"
proof -
  have m: "(0xe0 :: u32) = push_bit 5 (mask 3)" by (simp add: mask_eq_exp_minus_1)
  have d: "(word_of_nat (unat tag div 2 ^ 29) :: u8) = ucast (drop_bit 29 tag)"
    by (simp only: ucast_to_u8_of_nat unat_drop_bit)
  show ?thesis
    unfolding m d by (rule bit_word_eqI) (auto simp: bit_simps dest: bit_imp_le_length)
qed

lemma tag_byte: "n < 32 \<Longrightarrow> ucast (drop_bit 24 (tag :: u32) AND 0xe0) OR word_of_nat n =
    (word_of_nat (unat tag div 2 ^ 29 * 32 + n) :: u8)"
  unfolding tag_bits_eq using word_shift_or[of 5 n "unat tag div 2 ^ 29", where 'a = 8] by simp

definition add_tag :: "(nat \<Rightarrow> bytes option) \<Rightarrow> cbb \<Rightarrow> nat \<Rightarrow> u32 \<Rightarrow> bool \<times> cbb" where
  "add_tag m c d tag =
     (if tag AND CBS_ASN1_TAG_NUMBER_MASK \<ge> 0x1f
      then cbb_then (CBB_add_u8 m c d (ucast (drop_bit CBS_ASN1_TAG_SHIFT tag AND 0xe0) OR 0x1f))
             (\<lambda>c. add_base128_integer m c d (ucast (tag AND CBS_ASN1_TAG_NUMBER_MASK)))
      else CBB_add_u8 m c d
             (ucast (drop_bit CBS_ASN1_TAG_SHIFT tag AND 0xe0) OR ucast (tag AND CBS_ASN1_TAG_NUMBER_MASK)))"

lemma emits_tag: "emits m d (\<lambda>c. add_tag m c d tag) (der_tag tag)"
proof (cases "unat tag mod 2 ^ 29 < 31")
  case True
  then have "\<not> tag AND CBS_ASN1_TAG_NUMBER_MASK \<ge> 0x1f"
    by (simp add: word_le_nat_alt tag_number_value)
  moreover have "(ucast (tag AND CBS_ASN1_TAG_NUMBER_MASK) :: u8) = word_of_nat (unat tag mod 2 ^ 29)"
    by (simp only: ucast_to_u8_of_nat tag_number_value)
  ultimately show ?thesis
    using emits_u8[of m d "word_of_nat (unat tag div 2 ^ 29 * 32 + unat tag mod 2 ^ 29)"] True
    unfolding add_tag_def der_tag_def Let_def by (simp only: if_False if_True tag_byte less_trans[OF True])
next
  case False
  then have "tag AND CBS_ASN1_TAG_NUMBER_MASK \<ge> 0x1f"
    by (simp add: word_le_nat_alt tag_number_value)
  moreover have "(0x1f :: u8) = word_of_nat 31" by simp
  moreover have "unat (ucast (tag AND CBS_ASN1_TAG_NUMBER_MASK) :: u64) = unat tag mod 2 ^ 29"
    by (subst unat_ucast_le) (simp_all only: tag_number_value, simp)
  ultimately show ?thesis
    using emits_then[OF emits_u8[of m d "word_of_nat (unat tag div 2 ^ 29 * 32 + 31)"]
        emits_base128[of m d "ucast (tag AND CBS_ASN1_TAG_NUMBER_MASK)"]] False tag_byte[of 31 tag]
    unfolding add_tag_def der_tag_def Let_def by simp
qed

lemma opens_asn1: "opens m d (\<lambda>c. CBB_add_asn1 m c d tag) (der_tag tag) 1 True"
  unfolding opens_def
proof (intro allI impI)
  fix c b assume l: "leaf c d b \<and> length (buf b) + length (der_tag tag) + 1 < 2 ^ 62"
  then have lf: "leaf c d b" and l1: "length (buf b) + length (der_tag tag) < 2 ^ 62" by simp_all
  let ?add = "CBB_add_asn1 m c d tag"
  have e: "?add = cbb_then (add_tag m c d tag) (\<lambda>c. let off = (case base c of None \<Rightarrow> 0 | Some b \<Rightarrow> length (buf b))
              in cbb_then (CBB_add_u8 m c d 0) (\<lambda>c.
                   (True, c\<lparr>chain := take d (chain c) @
                                [\<lparr>offset = off, pending_len_len = 1, pending_is_asn1 = True\<rparr>]\<rparr>)))"
    by (simp add: CBB_add_asn1_def CBB_flush_leaf[OF lf] cbb_then_def[of "(True, c)"] Let_def add_tag_def)
  have chain: "take d (chain c) = chain c" using lf by (simp add: leaf_def)
  have mid: "\<exists>b1. snd (add_tag m c d tag) = c\<lparr>base := Some b1\<rparr> \<and> buf b1 = buf b @ der_tag tag \<and>
       leaf (c\<lparr>base := Some b1\<rparr>) d b1 \<and> can_resize b1 = can_resize b \<and> length (buf b1) + length [0 :: u8] < 2 ^ 62"
    if f0: "fst (add_tag m c d tag)"
  proof -
    obtain b1 where "leaf (snd (add_tag m c d tag)) d b1" "buf b1 = buf b @ der_tag tag" "can_resize b1 = can_resize b"
       "snd (add_tag m c d tag) = c\<lparr>base := Some b1\<rparr>"
      by (rule appended_leaf[OF lf emitsD(1)[OF emits_tag lf l1 f0]])
    then show ?thesis using l by (intro exI[of _ b1]) simp
  qed
  show "(fst ?add \<longrightarrow> (\<exists>b'. snd ?add =
       \<lparr>base = Some b', chain = chain c @ [\<lparr>offset = length (buf b @ der_tag tag), pending_len_len = 1, pending_is_asn1 = True\<rparr>]\<rparr> \<and>
       buf b' = buf b @ der_tag tag @ replicate 1 0 \<and> \<not> error b' \<and> can_resize b' = can_resize b)) \<and>
     (grants m \<and> can_resize b \<longrightarrow> fst ?add)"
  proof (intro conjI impI)
    assume f: "fst ?add"
    then have f1: "fst (add_tag m c d tag)" unfolding e by (auto simp: cbb_then_def split: if_splits)
    obtain b1 where b1: "snd (add_tag m c d tag) = c\<lparr>base := Some b1\<rparr>" "buf b1 = buf b @ der_tag tag"
      "leaf (c\<lparr>base := Some b1\<rparr>) d b1" "can_resize b1 = can_resize b" "length (buf b1) + length [0 :: u8] < 2 ^ 62"
      using mid[OF f1] by blast
    have f2: "fst (CBB_add_u8 m (c\<lparr>base := Some b1\<rparr>) d 0)"
      using f f1 unfolding e by (auto simp: cbb_then_def b1(1) Let_def split: if_splits)
    from appended_buf[OF emitsD(1)[OF emits_u8 b1(3,5) f2]] obtain b2 where
      b2: "snd (CBB_add_u8 m (c\<lparr>base := Some b1\<rparr>) d 0) = c\<lparr>base := Some b2\<rparr>" "buf b2 = buf b1 @ [0]"
        "\<not> error b2" "can_resize b2 = can_resize b1" by auto
    show "\<exists>b'. snd ?add =
       \<lparr>base = Some b', chain = chain c @ [\<lparr>offset = length (buf b @ der_tag tag), pending_len_len = 1, pending_is_asn1 = True\<rparr>]\<rparr> \<and>
       buf b' = buf b @ der_tag tag @ replicate 1 0 \<and> \<not> error b' \<and> can_resize b' = can_resize b"
      using f1 f2 b1 b2 chain unfolding e by (intro exI[of _ b2]) (simp add: cbb_then_def Let_def)
  next
    assume g: "grants m \<and> can_resize b"
    then have f1: "fst (add_tag m c d tag)" using emitsD(2)[OF emits_tag lf l1] by blast
    obtain b1 where b1: "snd (add_tag m c d tag) = c\<lparr>base := Some b1\<rparr>" "buf b1 = buf b @ der_tag tag"
      "leaf (c\<lparr>base := Some b1\<rparr>) d b1" "can_resize b1 = can_resize b" "length (buf b1) + length [0 :: u8] < 2 ^ 62"
      using mid[OF f1] by blast
    have f2: "fst (CBB_add_u8 m (c\<lparr>base := Some b1\<rparr>) d 0)"
      using emitsD(2)[OF emits_u8 b1(3,5)] g b1(4) by blast
    show "fst ?add" unfolding e using f1 f2 b1 by (simp add: cbb_then_def Let_def)
  qed
qed

lemma emits_asn1:
  assumes "emits m (Suc d) w body" "length body \<le> 0xfffffffe"
  shows "emits m d (in_child m d (\<lambda>c. CBB_add_asn1 m c d tag) w) (der_tlv tag body)"
  using emits_in_child[OF opens_asn1[of m d tag] assms(1)] assms(2) by (simp add: der_tlv_def)

lemma emits_length_prefixed:
  assumes "emits m (Suc d) w body" "1 \<le> k" "k \<le> 8" "length body < 256 ^ k"
  shows "emits m d (in_child m d (\<lambda>c. cbb_add_length_prefixed m c d k) w) (be_bytes k (length body) @ body)"
  using emits_in_child[OF opens_length_prefixed assms(1), of k] assms(2-4) by simp

lemma emits_octet_string:
  "length data \<le> 0xfffffffe \<Longrightarrow>
   emits m d (\<lambda>c. CBB_add_asn1_octet_string m c d data) (der_tlv CBS_ASN1_OCTETSTRING data)"
  using emits_asn1[OF emits_bytes[of m "Suc d" data], of CBS_ASN1_OCTETSTRING]
  by (simp add: CBB_add_asn1_octet_string_def in_child_def [abs_def])

lemma emits_bool:
  "emits m d (\<lambda>c. CBB_add_asn1_bool m c d v) (der_tlv CBS_ASN1_BOOLEAN [if v \<noteq> 0 then 0xff else 0])"
  using emits_asn1[OF emits_u8[of m "Suc d" "if v \<noteq> 0 then 0xff else 0"], of CBS_ASN1_BOOLEAN]
  unfolding CBB_add_asn1_bool_def in_child_def [abs_def] by simp

section \<open>INTEGER\<close>

definition uint_contents :: "bytes \<Rightarrow> bytes" where
  "uint_contents bs =
     (let r = dropWhile (\<lambda>b. b = 0) bs
      in if r = [] then [0] else if 128 \<le> unat (hd r) then 0 # r else r)"

lemma be_val_dropWhile: "be_val (dropWhile (\<lambda>b. b = 0) bs) = be_val bs"
  by (induction bs) simp_all

lemma length_uint_contents: "length (uint_contents bs) \<le> length bs + 1"
  using length_dropWhile_le[of "\<lambda>b. b = 0" bs] by (auto simp: uint_contents_def Let_def)

lemma uint_contents_int:
  "minimal_int (uint_contents bs) \<and> \<not> negative_int (uint_contents bs) \<and> be_val (uint_contents bs) = be_val bs"
proof (cases "dropWhile (\<lambda>b. b = 0) bs")
  case Nil
  then have "uint_contents bs = [0]" by (simp add: uint_contents_def)
  moreover have "be_val bs = 0" using Nil by (metis be_val.simps(1) be_val_dropWhile)
  ultimately show ?thesis by (simp add: minimal_int_def negative_int_def)
next
  case (Cons a t)
  have a: "a \<noteq> 0" using hd_dropWhile[of "\<lambda>b. b = 0" bs] by (simp add: Cons)
  have v: "be_val bs = be_val (a # t)" using Cons by (metis be_val_dropWhile)
  have u: "uint_contents bs = (if 128 \<le> unat a then 0 # a # t else a # t)"
    by (simp add: uint_contents_def Cons)
  show ?thesis
  proof (cases "128 \<le> unat a")
    case True
    then show ?thesis unfolding u v by (simp add: minimal_int_def negative_int_def)
  next
    case False
    then have "a \<noteq> 0xff" by auto
    then show ?thesis using False a unfolding u v by (simp add: minimal_int_def negative_int_def)
  qed
qed

lemma asn1_uint64_bytes_started: "asn1_uint64_bytes m c d True bs = add_u8s m c d bs"
proof (induction bs arbitrary: c)
  case (Cons b bs)
  then show ?case by (auto simp: cbb_then_def split: prod.splits bool.splits)
qed simp

lemma asn1_uint64_bytes_contents: "asn1_uint64_bytes m c d False bs = add_u8s m c d (uint_contents bs)"
proof (induction bs arbitrary: c)
  case Nil
  then show ?case by (auto simp: uint_contents_def split: prod.splits bool.splits)
next
  case (Cons b bs)
  show ?case
  proof (cases "b = 0")
    case True
    then show ?thesis using Cons.IH[of c] by (simp add: uint_contents_def)
  next
    case False
    then show ?thesis
      by (auto simp: uint_contents_def u8_and_80 cbb_then_def asn1_uint64_bytes_started
          split: prod.splits bool.splits)
  qed
qed

lemma be_bytes_map: "be_bytes n x = map (\<lambda>j. word_of_nat (x div 256 ^ j)) (rev [0..<n])"
  by (induction n) simp_all

lemma uint64_byte_list:
  "map (\<lambda>i. ucast (drop_bit (8 * (7 - i)) v AND 0xff)) [0..<8] = be_bytes 8 (unat (v :: u64))"
proof -
  have b: "(ucast (drop_bit (8 * j) v AND 0xff) :: u8) = word_of_nat (unat v div 256 ^ j)" for j
  proof -
    have "unat (drop_bit (8 * j) v AND 0xff) = unat v div 2 ^ (8 * j) mod 256"
      using unat_and_mask[of "drop_bit (8 * j) v" 8] by (simp add: mask_eq_exp_minus_1 unat_drop_bit)
    also have "(2 :: nat) ^ (8 * j) = 256 ^ j" by (simp add: power_mult)
    finally show ?thesis by (simp only: ucast_to_u8_of_nat word_of_nat_mod_u8)
  qed
  have r: "rev [0..<8] = map (\<lambda>i. 7 - i) [0..<8 :: nat]" by (simp add: upt_rec)
  show ?thesis
    unfolding b be_bytes_map r by simp
qed

lemma emits_asn1_uint64:
  "emits m d (\<lambda>c. CBB_add_asn1_uint64 m c d v)
     (der_tlv CBS_ASN1_INTEGER (uint_contents (be_bytes 8 (unat v))))"
proof -
  have "length (uint_contents (be_bytes 8 (unat v))) \<le> 0xfffffffe"
    using length_uint_contents[of "be_bytes 8 (unat v)"] by simp
  from emits_asn1[OF emits_u8s this, of m d CBS_ASN1_INTEGER] show ?thesis
    unfolding CBB_add_asn1_uint64_def in_child_def [abs_def] uint64_byte_list asn1_uint64_bytes_contents
    by simp
qed

lemma int64_start_spec:
  "n < length u \<Longrightarrow> 128 \<le> unat (u ! n) \<Longrightarrow>
   (let s = int64_start u n in s \<le> n \<and> 128 \<le> unat (u ! s) \<and> (\<forall>i. s < i \<and> i \<le> n \<longrightarrow> u ! i = 0xff) \<and>
      (0 < s \<longrightarrow> \<not> (u ! s = 0xff \<and> 128 \<le> unat (u ! (s - 1)))))"
proof (induction n)
  case (Suc n)
  show ?case
  proof (cases "u ! Suc n = 0xff \<and> u ! n AND 0x80 \<noteq> 0")
    case True
    then have "128 \<le> unat (u ! n)" by (simp add: u8_and_80)
    with Suc True show ?thesis by (auto simp: Let_def less_Suc_eq_le le_Suc_eq)
  next
    case False
    then show ?thesis using Suc.prems by (auto simp: Let_def u8_and_80)
  qed
qed simp

text \<open>The contents of a negative INTEGER.\<close>

definition int64_contents :: "u64 \<Rightarrow> bytes" where
  "int64_contents v = (let u = le_bytes 8 (unat v) in rev (take (int64_start u 7 + 1) u))"

lemma map_nth_rev: "k \<le> length u \<Longrightarrow> map (\<lambda>i. u ! i) (rev [0..<k]) = rev (take k u)"
proof -
  assume k: "k \<le> length u"
  have "map (\<lambda>i. u ! i) [0..<k] = take k u"
    by (rule nth_equalityI) (use k in simp_all)
  then show ?thesis by (simp flip: rev_map)
qed

lemma centered_mod:
  assumes "n < SIZE_MOD"
  shows "(int n + 2 ^ 63) mod 2 ^ 64 - 2 ^ 63 = (if n < 2 ^ 63 then int n else int n - 2 ^ 64)"
proof (cases "n < 2 ^ 63")
  case False
  have e: "int n + 2 ^ 63 = (int n - 2 ^ 63) + 2 ^ 64" by simp
  show ?thesis
    unfolding e mod_add_self2 using False assms by simp
qed simp

lemma sint_u64: "sint (v :: u64) = (if unat v < 2 ^ 63 then int (unat v) else int (unat v) - 2 ^ 64)"
proof -
  have "sint v = (int (unat v) + 2 ^ 63) mod 2 ^ 64 - 2 ^ 63"
    using int_word_sint[of "uint v", where 'a = 64] by simp
  then show ?thesis using centered_mod[OF unat_u64_less[of v]] by simp
qed

lemma high_byte:
  assumes "length u = 8" "2 ^ 63 \<le> le_val u"
  shows "128 \<le> unat (u ! 7)"
proof (rule ccontr)
  assume "\<not> 128 \<le> unat (u ! 7)"
  then have "unat (u ! 7) \<le> 127" by simp
  then have m: "256 ^ 7 * unat (u ! 7) \<le> 256 ^ 7 * 127" by (rule mult_left_mono) simp
  have u: "u = take 7 u @ [u ! 7]"
    using assms(1) take_Suc_conv_app_nth[of 7 u] by simp
  have "le_val u = le_val (take 7 u) + 256 ^ 7 * unat (u ! 7)"
    by (subst u, subst le_val_append) (simp add: assms(1))
  moreover have "le_val (take 7 u) < 256 ^ 7" using le_val_less[of "take 7 u"] assms(1) by simp
  ultimately show False using m assms(2) by simp
qed

lemma int64_contents_int:
  assumes "sint v < 0"
  shows "minimal_int (int64_contents v) \<and> length (int64_contents v) \<le> 8 \<and> asn1_int (int64_contents v) = sint v"
proof -
  define u where "u = le_bytes 8 (unat v)"
  define s where "s = int64_start u 7"
  have len: "length u = 8" by (simp add: u_def)
  have val: "le_val u = unat v" using unat_u64_less[of v] by (simp add: u_def le_val_le_bytes)
  have big: "2 ^ 63 \<le> unat v" and sv: "sint v = int (unat v) - 2 ^ 64"
    using assms by (auto simp: sint_u64 split: if_splits)
  have hi: "128 \<le> unat (u ! 7)" using high_byte[OF len] big val by simp
  from int64_start_spec[of 7 u] hi len have s: "s \<le> 7" "128 \<le> unat (u ! s)" "\<forall>i. s < i \<and> i \<le> 7 \<longrightarrow> u ! i = 0xff"
    "0 < s \<longrightarrow> \<not> (u ! s = 0xff \<and> 128 \<le> unat (u ! (s - 1)))"
    by (simp_all add: Let_def s_def)
  have c: "int64_contents v = rev (take (s + 1) u)" by (simp add: int64_contents_def Let_def u_def s_def)
  have dr: "drop (s + 1) u = replicate (7 - s) 0xff"
    using s(3) len by (intro nth_equalityI) auto
  have "le_val u = le_val (take (s + 1) u @ drop (s + 1) u)" by simp
  also have "\<dots> = le_val (take (s + 1) u) + 256 ^ (s + 1) * (256 ^ (7 - s) - 1)"
    unfolding le_val_append dr le_val_replicate using len s(1) by simp
  finally have "le_val u = le_val (take (s + 1) u) + 256 ^ (s + 1) * (256 ^ (7 - s) - 1)" .
  moreover have "int (256 ^ (s + 1) * (256 ^ (7 - s) - 1)) = 2 ^ 64 - 256 ^ (s + 1)"
  proof -
    have "(256 :: int) ^ (s + 1) * 256 ^ (7 - s) = 2 ^ 64" using s(1) by (simp flip: power_add)
    then show ?thesis by (simp add: of_nat_diff right_diff_distrib)
  qed
  ultimately have v: "int (le_val (take (s + 1) u)) - 256 ^ (s + 1) = sint v"
    unfolding sv using val by (simp only: of_nat_add)
  have l: "length (take (s + 1) u) = s + 1" using len s(1) by simp
  have n0: "rev (take (s + 1) u) ! 0 = u ! s" using l s(1) len by (simp add: rev_nth)
  have n1: "0 < s \<Longrightarrow> rev (take (s + 1) u) ! 1 = u ! (s - 1)" using l s(1) len by (simp add: rev_nth)
  have neg: "negative_int (rev (take (s + 1) u))" using s(2) n0 by (simp add: negative_int_def)
  have "asn1_int (rev (take (s + 1) u)) = sint v"
    using neg v l by (simp add: asn1_int_def be_val_rev)
  moreover have "minimal_int (rev (take (s + 1) u))"
    unfolding minimal_int_def n0 using s(2,4) n1 l by auto
  ultimately show ?thesis using l s(1) by (simp add: c)
qed

lemma emits_asn1_int64:
  "emits m d (\<lambda>c. CBB_add_asn1_int64 m c d v)
     (der_tlv CBS_ASN1_INTEGER
        (if sint v \<ge> 0 then uint_contents (be_bytes 8 (unat v)) else int64_contents v))"
proof (cases "sint v \<ge> 0")
  case True
  then show ?thesis using emits_asn1_uint64[of m d v] by (simp add: CBB_add_asn1_int64_def)
next
  case False
  then have "length (int64_contents v) \<le> 0xfffffffe" using int64_contents_int[of v] by simp
  note e = emits_asn1[OF emits_u8s this, of m d CBS_ASN1_INTEGER]
  let ?u = "le_bytes 8 (unat v)"
  have "int64_start ?u 7 \<le> 7"
  proof -
    have "int64_start u n \<le> n" for u n by (induction n) auto
    then show ?thesis .
  qed
  then have "map (\<lambda>i. ?u ! i) (rev [0..<int64_start ?u 7 + 1]) = int64_contents v"
    by (subst map_nth_rev) (simp_all add: int64_contents_def Let_def)
  then show ?thesis
    using e False unfolding CBB_add_asn1_int64_def in_child_def [abs_def] Let_def by simp
qed

section \<open>Object identifiers as text\<close>

text \<open>The dotted-decimal text of a list of components, and of the contents octets that hold the
  combined first value and the other components.\<close>

fun dotted :: "nat list \<Rightarrow> bytes" where
  "dotted [] = []"
| "dotted (v # vs) = decimal v @ concat (map (\<lambda>v. 46 # decimal v) vs)"

definition oid_components :: "nat \<Rightarrow> nat list \<Rightarrow> nat list" where
  "oid_components v vs = (if v \<ge> 80 then 2 # (v - 80) # vs else v div 40 # v mod 40 # vs)"

definition oid_contents :: "nat \<Rightarrow> nat list \<Rightarrow> bytes" where
  "oid_contents v vs = base128 v @ concat (map base128 vs)"

lemma decimal_ne [simp]: "decimal n \<noteq> []"
  by (subst decimal.simps) simp

lemma digit_value: "k < 10 \<Longrightarrow> unat (word_of_nat (48 + k) :: u8) = 48 + k"
  by (rule nat_u8_digit) simp

lemma digit_diff: "k < 10 \<Longrightarrow> unat (word_of_nat (48 + k) - 48 :: u8) = k"
  by (simp add: unat_sub_if' digit_value word_le_nat_alt)

lemma parse_loop_digit:
  assumes k: "k < 10" and x: "x * 10 + k < 2 ^ 64" "seen \<Longrightarrow> x \<noteq> 0"
  shows "parse_dotted_decimal_loop (word_of_nat x) seen (word_of_nat (48 + k) # r) =
    parse_dotted_decimal_loop (word_of_nat (x * 10 + k)) True r"
proof -
  let ?u = "word_of_nat (48 + k) :: u8" let ?d = "ucast (?u - 48) :: u64"
  have u: "unat ?u = 48 + k" using k by (rule digit_value)
  have d: "unat ?d = k" using digit_diff[OF k] by (simp add: unat_ucast_le)
  have xu: "unat (word_of_nat x :: u64) = x" using x by (simp add: unat_of_nat)
  have c1: "\<not> (?u = 46 \<and> 0 < length r)"
  proof
    assume "?u = 46 \<and> 0 < length r"
    then have "?u = 46" by (rule conjunct1)
    then have "unat ?u = unat (46 :: u8)" by (rule arg_cong)
    then show False unfolding u by simp
  qed
  have c2: "\<not> ?u < 48" "\<not> ?u > 57" using u k by (auto simp: word_less_nat_alt)
  have c3: "\<not> (seen \<and> (word_of_nat x :: u64) = 0)"
    using x(2) xu by (metis unsigned_0)
  have c4: "\<not> (word_of_nat x :: u64) > 1844674407370955161"
    using xu x(1) by (simp add: word_less_nat_alt)
  have x10: "unat (word_of_nat x * 10 :: u64) = x * 10"
    using x(1) by (simp add: unat_word_ariths xu)
  have m: "unat (18446744073709551615 - ?d) = 18446744073709551615 - k"
    using k by (simp add: unat_sub_if' d word_le_nat_alt)
  have c5: "\<not> (word_of_nat x * 10 :: u64) > 18446744073709551615 - ?d"
    unfolding word_less_nat_alt m x10 using x(1) by simp
  have res: "word_of_nat x * 10 + ?d = (word_of_nat (x * 10 + k) :: u64)"
    by (rule word_unat_eq_iff [THEN iffD2]) (use x(1) k in \<open>simp add: unat_word_ariths x10 d xu unat_of_nat\<close>)
  have c: "\<not> (?u < 48 \<or> ?u > 57 \<or> (seen \<and> (word_of_nat x :: u64) = 0) \<or>
      (word_of_nat x :: u64) > 1844674407370955161 \<or> word_of_nat x * 10 > 18446744073709551615 - ?d)"
    using c2 c3 c4 c5 by blast
  show ?thesis
    unfolding parse_dotted_decimal_loop.simps if_not_P[OF c1] if_not_P[OF c] res ..
qed

lemma parse_loop_decimal:
  "n < 2 ^ 64 \<Longrightarrow> parse_dotted_decimal_loop 0 False (decimal n @ r) =
     parse_dotted_decimal_loop (word_of_nat n) True r"
proof (induction n arbitrary: r rule: decimal.induct)
  case (1 n)
  show ?case
  proof (cases "n < 10")
    case True
    then show ?thesis
      using parse_loop_digit[of n 0 False r] by (subst decimal.simps) simp
  next
    case False
    have e: "n div 10 * 10 + n mod 10 = n" by simp
    have "parse_dotted_decimal_loop 0 False (decimal n @ r) =
        parse_dotted_decimal_loop 0 False (decimal (n div 10) @ word_of_nat (48 + n mod 10) # r)"
      using False by (subst decimal.simps) simp
    also have "\<dots> = parse_dotted_decimal_loop (word_of_nat (n div 10)) True (word_of_nat (48 + n mod 10) # r)"
      using False 1(2) by (intro 1(1)) auto
    also have "\<dots> = parse_dotted_decimal_loop (word_of_nat n) True r"
      using parse_loop_digit[of "n mod 10" "n div 10" True r] 1(2) False unfolding e by simp
    finally show ?thesis .
  qed
qed

lemma parse_dotted: "v < 2 ^ 64 \<Longrightarrow> parse_dotted_decimal (dotted (v # vs)) = Some (word_of_nat v, dotted vs)"
  unfolding parse_dotted_decimal_def dotted.simps parse_loop_decimal
  by (cases vs) simp_all

lemma dotted_ne [simp]: "dotted (v # vs) \<noteq> []"
  by simp

lemma emits_cong: "emits m d w data \<Longrightarrow> (\<And>c. w c = w' c) \<Longrightarrow> emits m d w' data"
  by (simp add: emits_def)

lemma emits_oid_components:
  "\<forall>v\<in>set vs. v < 2 ^ 64 \<Longrightarrow>
   emits m d (\<lambda>c. add_oid_components m c d (dotted vs)) (concat (map base128 vs))"
proof (induction vs)
  case Nil
  then show ?case by (simp add: add_oid_components.simps emits_nothing)
next
  case (Cons v vs)
  have "unat (word_of_nat v :: u64) = v" using Cons.prems by (simp add: unat_of_nat)
  then have e: "emits m d (\<lambda>c. cbb_then (add_base128_integer m c d (word_of_nat v))
      (\<lambda>c. add_oid_components m c d (dotted vs))) (base128 v @ concat (map base128 vs))"
    using emits_then[OF emits_base128[of m d "word_of_nat v"] Cons.IH] Cons.prems by simp
  have "add_oid_components m c d (dotted (v # vs)) =
      cbb_then (add_base128_integer m c d (word_of_nat v)) (\<lambda>c. add_oid_components m c d (dotted vs))" for c
    using Cons.prems
    by (subst add_oid_components.simps) (simp only: parse_dotted list.set_intros length_greater_0_conv dotted_ne
        if_True option.simps prod.case simp_thms)
  then show ?case using emits_cong[OF e] by simp
qed

lemma emits_oid_from_text:
  assumes "v < 2 ^ 64" "\<forall>x\<in>set vs. x < 2 ^ 64"
  shows "emits m d (\<lambda>c. CBB_add_asn1_oid_from_text m c d (dotted (oid_components v vs))) (oid_contents v vs)"
proof -
  obtain a b where ab: "oid_components v vs = a # b # vs" "a \<le> 2" "a < 2 \<Longrightarrow> b \<le> 39" "40 * a + b = v"
    "b \<le> 18446744073709551615 - 80"
  proof (cases "v \<ge> 80")
    case True
    then show ?thesis using that[of 2 "v - 80"] assms(1) by (simp add: oid_components_def)
  next
    case False
    then have "v div 40 < 2" by (simp add: div_less_iff_less_mult)
    moreover have "v mod 40 < 40" by simp
    ultimately show ?thesis using that[of "v div 40" "v mod 40"] False by (simp add: oid_components_def)
  qed
  let ?a = "word_of_nat a :: u64" let ?b = "word_of_nat b :: u64"
  have lt: "a < 2 ^ 64" "b < 2 ^ 64" using ab(2,5) by simp_all
  have u: "unat ?a = a" "unat ?b = b" using lt by (simp_all add: unat_of_nat)
  have v: "unat (40 * ?a + ?b) = v"
    using ab(2,4) assms(1) by (simp add: unat_word_ariths u)
  have ok: "\<not> (?a > 2 \<or> (?a < 2 \<and> ?b > 39) \<or> ?b > 18446744073709551615 - 80)"
    using ab(2,3,5) by (auto simp: word_less_nat_alt u)
  have e: "emits m d (\<lambda>c. cbb_then (add_base128_integer m c d (40 * ?a + ?b))
      (\<lambda>c. add_oid_components m c d (dotted vs))) (oid_contents v vs)"
    using emits_then[OF emits_base128[of m d "40 * ?a + ?b"] emits_oid_components[OF assms(2)]]
    unfolding v oid_contents_def .
  show ?thesis
  proof (rule emitsI)
    fix c b' assume l: "leaf c d b'" "length (buf b') + length (oid_contents v vs) < 2 ^ 62"
    have "CBB_add_asn1_oid_from_text m c d (dotted (oid_components v vs)) =
        cbb_then (add_base128_integer m c d (40 * ?a + ?b)) (\<lambda>c. add_oid_components m c d (dotted vs))"
      unfolding CBB_add_asn1_oid_from_text_def CBB_flush_leaf[OF l(1)] ab(1)
      using parse_dotted[OF lt(1), of "b # vs"] parse_dotted[OF lt(2), of vs] ok
      by (simp only: cbb_then_def fst_conv snd_conv if_True option.simps prod.case if_False)
    note eq = this
    show "fst (CBB_add_asn1_oid_from_text m c d (dotted (oid_components v vs))) \<Longrightarrow>
        appended c b' (oid_contents v vs) (snd (CBB_add_asn1_oid_from_text m c d (dotted (oid_components v vs))))"
      using emitsD(1)[OF e l] unfolding eq .
    show "grants m \<Longrightarrow> can_resize b' \<Longrightarrow> fst (CBB_add_asn1_oid_from_text m c d (dotted (oid_components v vs)))"
      using emitsD(2)[OF e l] unfolding eq .
  qed
qed

section \<open>From a fresh CBB to its bytes\<close>

definition cbb_bytes :: "(nat \<Rightarrow> bytes option) \<Rightarrow> nat \<Rightarrow> (cbb \<Rightarrow> bool \<times> cbb) \<Rightarrow> bytes option" where
  "cbb_bytes m initial w =
     (let r = cbb_then (CBB_init m initial) w
      in if fst r then fst (CBB_finish m (snd r) 0 False) else None)"

lemma CBB_finish_leaf: "leaf c 0 b \<Longrightarrow> fst (CBB_finish m c 0 False) = Some (buf b)"
  by (simp add: CBB_finish_def CBB_flush_leaf) (simp add: leaf_def)

lemma cbb_bytes_emits:
  assumes e: "emits m 0 w data" and len: "length data < 2 ^ 62"
  shows "cbb_bytes m n w = Some out \<Longrightarrow> out = data"
    and "grants m \<Longrightarrow> n < 2 ^ 62 \<Longrightarrow> cbb_bytes m n w = Some data"
proof -
  let ?b = "\<lparr>buf = [], cap = n, can_resize = True, error = False\<rparr>"
  let ?c = "\<lparr>base = Some ?b, chain = []\<rparr>"
  have l: "leaf ?c 0 ?b" "length (buf ?b) + length data < 2 ^ 62" using len by (simp_all add: leaf_def)
  have i: "fst (CBB_init m n) \<Longrightarrow> CBB_init m n = (True, ?c)"
    by (auto simp: CBB_init_def cbb_init_def split: if_splits)
  have fin: "fst (CBB_finish m (snd (w ?c)) 0 False) = Some data" if f: "fst (w ?c)"
  proof -
    obtain b' where "leaf (snd (w ?c)) 0 b'" "buf b' = buf ?b @ data"
      by (rule appended_leaf[OF l(1) emitsD(1)[OF e l f]])
    then show ?thesis by (simp add: CBB_finish_leaf)
  qed
  { assume s: "cbb_bytes m n w = Some out"
    then have "fst (CBB_init m n)" by (auto simp: cbb_bytes_def cbb_then_def Let_def split: if_splits)
    note ii = i[OF this]
    have "fst (w ?c)" using s by (auto simp: cbb_bytes_def cbb_then_def Let_def ii split: if_splits)
    then show "out = data" using s fin by (auto simp: cbb_bytes_def cbb_then_def Let_def ii) }
  { assume g: "grants m" "n < 2 ^ 62"
    have mal: "OPENSSL_malloc m k \<noteq> None" if "k < 2 ^ 62" for k
      using g(1) that unfolding grants_def by simp
    have ii: "CBB_init m n = (True, ?c)"
      using mal[of n] mal[of 32] g(2) by (simp add: CBB_init_def cbb_init_def)
    have f: "fst (w ?c)" using emitsD(2)[OF e l g(1)] by simp
    then show "cbb_bytes m n w = Some data" using fin[OF f] by (simp add: cbb_bytes_def cbb_then_def ii) }
qed

lemma emits_decimal: "emits m 0 (\<lambda>c. add_decimal m c v) (decimal (unat v))"
  by (simp add: add_decimal_def emits_bytes)

lemma emits_oid_text_components:
  "\<forall>v\<in>set vs. v < 2 ^ 64 \<Longrightarrow>
   emits m 0 (\<lambda>c. oid_text_components m c (concat (map base128 vs))) (concat (map (\<lambda>v. 46 # decimal v) vs))"
proof (induction vs)
  case Nil
  then show ?case by (simp add: oid_text_components.simps emits_nothing)
next
  case (Cons v vs)
  have u: "unat (word_of_nat v :: u64) = v" using Cons.prems by (simp add: unat_of_nat)
  have e: "emits m 0 (\<lambda>c. cbb_then (CBB_add_u8 m c 0 46) (\<lambda>c. cbb_then (add_decimal m c (word_of_nat v))
      (\<lambda>c. oid_text_components m c (concat (map base128 vs))))) ([46] @ decimal v @ concat (map (\<lambda>v. 46 # decimal v) vs))"
    using emits_then[OF emits_u8[of m 0 46] emits_then[OF emits_decimal[of m "word_of_nat v"] Cons.IH]] Cons.prems u
    by simp
  have p: "parse_base128_integer (base128 v @ concat (map base128 vs)) = Some (word_of_nat v, concat (map base128 vs))"
    by (simp add: parse_base128_integer_Some u)
  have ne: "length (base128 v @ concat (map base128 vs)) \<noteq> 0" by (simp add: base128_def)
  have "oid_text_components m c (concat (map base128 (v # vs))) =
      cbb_then (CBB_add_u8 m c 0 46) (\<lambda>c. cbb_then (add_decimal m c (word_of_nat v))
      (\<lambda>c. oid_text_components m c (concat (map base128 vs))))" for c
    by (subst oid_text_components.simps) (simp only: list.map concat.simps p if_P[OF ne] option.simps prod.case)
  then show ?case using emits_cong[OF e] by simp
qed

lemma emits_oid_first:
  assumes "v < 2 ^ 64"
  shows "emits m 0 (\<lambda>c. if word_of_nat v \<ge> (80 :: u64)
      then cbb_then (CBB_add_bytes m c 0 [50, 46]) (\<lambda>c. add_decimal m c (word_of_nat v - 80))
      else cbb_then (add_decimal m c (word_of_nat v div 40)) (\<lambda>c.
             cbb_then (CBB_add_u8 m c 0 46) (\<lambda>c. add_decimal m c (word_of_nat v mod 40))))
    (dotted (oid_components v []))"
proof -
  have u: "unat (word_of_nat v :: u64) = v" using assms by (simp add: unat_of_nat)
  have c: "word_of_nat v \<ge> (80 :: u64) \<longleftrightarrow> v \<ge> 80" by (simp add: word_le_nat_alt u)
  show ?thesis
  proof (cases "v \<ge> 80")
    case True
    have "unat (word_of_nat v - 80 :: u64) = v - 80" using True by (simp add: unat_sub_if' word_le_nat_alt u)
    then show ?thesis
      using emits_then[OF emits_bytes[of m 0 "[50, 46]"] emits_decimal[of m "word_of_nat v - 80"]] True
      by (simp add: c oid_components_def decimal.simps[of 2])
  next
    case False
    have "unat (word_of_nat v div 40 :: u64) = v div 40" "unat (word_of_nat v mod 40 :: u64) = v mod 40"
      by (simp_all add: unat_div unat_mod u)
    then show ?thesis
      using emits_then[OF emits_decimal[of m "word_of_nat v div 40"]
          emits_then[OF emits_u8[of m 0 46] emits_decimal[of m "word_of_nat v mod 40"]]] False
      by (simp add: c oid_components_def)
  qed
qed

lemma dotted_split: "dotted (oid_components v vs) = dotted (oid_components v []) @ concat (map (\<lambda>v. 46 # decimal v) vs)"
  by (simp add: oid_components_def)

lemma oid_to_text_emits:
  assumes "v < 2 ^ 64" "\<forall>x\<in>set vs. x < 2 ^ 64"
  shows "\<exists>w. emits m 0 w (dotted (oid_components v vs) @ [0]) \<and>
     CBS_asn1_oid_to_text m (oid_contents v vs) = cbb_bytes m 32 w"
proof -
  have u: "unat (word_of_nat v :: u64) = v" using assms(1) by (simp add: unat_of_nat)
  have p: "parse_base128_integer (oid_contents v vs) = Some (word_of_nat v, concat (map base128 vs))"
    by (simp add: parse_base128_integer_Some oid_contents_def u)
  note e = emits_then[OF emits_oid_first[OF assms(1)] emits_then[OF emits_oid_text_components[OF assms(2)] emits_u8[of m 0 0]]]
  show ?thesis
    unfolding CBS_asn1_oid_to_text_def p option.simps prod.case cbb_bytes_def [symmetric] dotted_split[of v vs]
    using e by (intro exI conjI) (simp_all only: append_assoc)
qed

lemma oid_text_components_sound:
  "fst (oid_text_components m c der) \<Longrightarrow> \<exists>vs. der = concat (map base128 vs) \<and> (\<forall>v\<in>set vs. v < 2 ^ 64)"
proof (induction m c der rule: oid_text_components.induct)
  case (1 m c der)
  show ?case
  proof (cases "length der = 0")
    case True
    then show ?thesis by (intro exI[of _ "[]"]) simp
  next
    case False
    then obtain v r where p: "parse_base128_integer der = Some (v, r)"
      using "1.prems" by (subst (asm) oid_text_components.simps) (auto split: option.splits)
    have f: "fst (cbb_then (CBB_add_u8 m c 0 46) (\<lambda>c. cbb_then (add_decimal m c v) (\<lambda>c. oid_text_components m c r)))"
      using "1.prems" False by (subst (asm) oid_text_components.simps) (simp add: p)
    then have "fst (oid_text_components m (snd (add_decimal m (snd (CBB_add_u8 m c 0 46)) v)) r)"
      by (auto simp: cbb_then_def split: if_splits)
    then obtain vs where "r = concat (map base128 vs)" "\<forall>v\<in>set vs. v < 2 ^ 64"
      using "1.IH"[OF False p refl] by blast
    then show ?thesis
      using p unat_u64_less[of v] by (intro exI[of _ "unat v # vs"]) (simp add: parse_base128_integer_Some)
  qed
qed

lemma oid_to_text_sound:
  assumes "CBS_asn1_oid_to_text m der = Some t"
  obtains v vs where "der = oid_contents v vs" "v < 2 ^ 64" "\<forall>x\<in>set vs. x < 2 ^ 64"
proof -
  obtain v r where p: "parse_base128_integer der = Some (v, r)"
    using assms by (auto simp: CBS_asn1_oid_to_text_def cbb_then_def Let_def split: if_splits option.splits)
  from assms obtain c where "fst (oid_text_components m c r)"
    by (auto simp: CBS_asn1_oid_to_text_def cbb_then_def Let_def p split: if_splits)
  then obtain vs where "r = concat (map base128 vs)" "\<forall>v\<in>set vs. v < 2 ^ 64"
    using oid_text_components_sound by blast
  then show ?thesis
    using that[of "unat v" vs] p unat_u64_less[of v] by (simp add: parse_base128_integer_Some oid_contents_def)
qed

section \<open>SET OF\<close>

lemma memcmp_prefix:
  "n = min (length a) (length b) \<Longrightarrow>
   (memcmp a b n < 0 \<longrightarrow> a < b) \<and> (memcmp a b n > 0 \<longrightarrow> b < a) \<and>
   (memcmp a b n = 0 \<longrightarrow> take n a = take n b)"
proof (induction a b n rule: memcmp.induct)
  case (1 a as b bs n)
  then show ?case by (auto split: if_splits)
qed (auto simp: min_def split: if_splits)

lemma list_less_prefix: "take (length a) b = a \<Longrightarrow> length a < length b \<Longrightarrow> (a :: bytes) < b"
proof (induction a arbitrary: b)
  case (Cons x a)
  then show ?case by (cases b) auto
qed (auto simp: gr0_conv_Suc length_Suc_conv)

lemma compare_set_of_element_le: "compare_set_of_element a b \<le> 0 \<longleftrightarrow> a \<le> b"
proof -
  let ?n = "min (length a) (length b)"
  have m: "(if length a < length b then length a else length b) = ?n" by (simp add: min_def)
  note p = memcmp_prefix[OF refl, of a b]
  consider "memcmp a b ?n < 0" | "memcmp a b ?n > 0" | "memcmp a b ?n = 0" by linarith
  then show ?thesis
  proof cases
    case 3
    then have t: "take ?n a = take ?n b" using p by simp
    consider "length a = length b" | "length a < length b" | "length b < length a" by linarith
    then show ?thesis
    proof cases
      case 1
      then show ?thesis using 3 t by (simp add: compare_set_of_element_def m)
    next
      case 2
      then have "a < b" using t list_less_prefix[of a b] by simp
      then show ?thesis using 2 3 by (simp add: compare_set_of_element_def Let_def)
    next
      case 3
      then have "b < a" using t list_less_prefix[of b a] by simp
      then show ?thesis using 3 \<open>memcmp a b ?n = 0\<close> by (simp add: compare_set_of_element_def Let_def)
    qed
  qed (use p in \<open>auto simp: compare_set_of_element_def m Let_def\<close>)
qed

lemma compare_set_of_element_0: "compare_set_of_element a b = 0 \<longleftrightarrow> a = b"
proof
  let ?n = "min (length a) (length b)"
  assume "compare_set_of_element a b = 0"
  then have "memcmp a b ?n = 0" "length a = length b"
    by (auto simp: compare_set_of_element_def Let_def min_def split: if_splits)
  then show "a = b" using memcmp_prefix[OF refl, of a b] by simp
next
  have "memcmp a a n = 0" for n
  proof (induction a arbitrary: n)
    case (Cons x a)
    then show ?case by (cases n) simp_all
  qed simp
  then show "a = b \<Longrightarrow> compare_set_of_element a b = 0" by (simp add: compare_set_of_element_def)
qed

lemma insert_by_insort: "insert_by compare_set_of_element x xs = insort x xs"
  by (induction xs) (simp_all add: compare_set_of_element_le)

interpretation set_of: comparison compare_set_of_element
proof
  fix a b c :: cbs
  show "compare_set_of_element a b < 0 \<longleftrightarrow> compare_set_of_element b a > 0"
    using compare_set_of_element_le[of b a] compare_set_of_element_le[of a b] compare_set_of_element_0[of a b]
    by (metis linorder_le_less_linear not_less order_less_le)
  show "compare_set_of_element a b \<le> 0 \<Longrightarrow> compare_set_of_element b c \<le> 0 \<Longrightarrow> compare_set_of_element a c \<le> 0"
    by (simp add: compare_set_of_element_le)
qed

lemma qsort_by_sort: "qsort_by compare_set_of_element xs = sort xs"
  by (simp add: qsort_by_def insert_by_insort [abs_def] sort_key_def)

definition der_element :: "bytes \<Rightarrow> bool" where
  "der_element e \<longleftrightarrow> (\<exists>tag body. e = der_tlv tag body \<and> length body < 2 ^ 32)"

definition der_elements :: "bytes list \<Rightarrow> bool" where
  "der_elements es \<longleftrightarrow> (\<forall>e\<in>set es. der_element e)"

lemma der_elements_simps [simp]:
  "der_elements []" "der_elements (e # es) \<longleftrightarrow> der_element e \<and> der_elements es"
  by (simp_all add: der_elements_def)

lemma der_elements_Cons:
  assumes "der_element e"
  shows "\<exists>el. CBS_get_any_asn1_element (e @ r) = Some (el, r) \<and> el_out el = e"
proof -
  obtain tag body where "e = der_tlv tag body" "length body < 2 ^ 32" using assms by (auto simp: der_element_def)
  then show ?thesis
    using DER_element_complete[of body tag r False]
    by (intro exI[of _ "tlv_element tag body"]) (simp add: CBS_get_any_asn1_element_def)
qed

lemma der_tlv_ne [simp]: "der_tlv tag body \<noteq> []"
  using length_der_tag(2)[of tag] by (simp add: der_tlv_def)

lemma set_of_count_elements: "der_elements es \<Longrightarrow> set_of_count (concat es) = Some (length es)"
proof (induction es)
  case (Cons e es)
  obtain el where el: "CBS_get_any_asn1_element (e @ concat es) = Some (el, concat es)"
    using der_elements_Cons[of e "concat es"] Cons.prems by auto
  have "e @ concat es \<noteq> []" using Cons.prems by (auto simp: der_element_def)
  then show ?case
    using Cons by (subst set_of_count.simps) (simp add: el)
qed (simp add: set_of_count.simps)

lemma set_of_count_sound:
  "set_of_count c = Some n \<Longrightarrow> \<exists>es. c = concat es \<and> der_elements es \<and> length es = n"
proof (induction c arbitrary: n rule: set_of_count.induct)
  case (1 c)
  show ?case
  proof (cases "length c = 0")
    case True
    then show ?thesis using "1.prems" by (intro exI[of _ "[]"]) (simp add: set_of_count.simps)
  next
    case False
    then obtain el r k where p: "CBS_get_any_asn1_element c = Some (el, r)" "set_of_count r = Some k" "n = Suc k"
      using "1.prems" by (subst (asm) set_of_count.simps) (auto split: option.splits)
    obtain tag body where e: "c = der_tlv tag body @ r" "length body < 2 ^ 32"
      using p(1) by (auto simp: CBS_get_any_asn1_element_Some)
    obtain es where "r = concat es" "der_elements es" "length es = k"
      using "1.IH"[OF False p(1) refl p(2)] by blast
    then show ?thesis
      using e p(3) by (intro exI[of _ "der_tlv tag body # es"]) (auto simp: der_element_def)
  qed
qed

lemma set_of_children_elements: "der_elements es \<Longrightarrow> set_of_children (length es) (concat es) = Some es"
proof (induction es)
  case (Cons e es)
  then obtain el where "CBS_get_any_asn1_element (e @ concat es) = Some (el, concat es)" "el_out el = e"
    using der_elements_Cons[of e "concat es"] by auto
  then show ?case using Cons by simp
qed simp

lemma emits_all_bytes: "emits m d (\<lambda>c. add_all_bytes m c d cs) (concat cs)"
  by (induction cs) (auto simp: emits_nothing intro: emits_then[OF emits_bytes])

lemma length_elements: "der_elements es \<Longrightarrow> length es \<le> length (concat es)"
proof (induction es)
  case (Cons e es)
  then have "e \<noteq> []" by (auto simp: der_element_def)
  then have "1 \<le> length e" by (cases e) simp_all
  then show ?case using Cons by simp
qed simp

lemma length_concat_sort: "length (concat (sort (xs :: bytes list))) = length (concat xs)"
proof -
  have "length (concat (insort x ys)) = length x + length (concat ys)" for x :: bytes and ys
    by (induction ys) simp_all
  then show ?thesis by (induction xs) simp_all
qed

lemma set_of_sorted:
  assumes l: "leaf c d b" "CBB_offset c d \<le> length (buf b)" "length (buf b) < 2 ^ 58"
    and m: "grants m" "can_resize b"
    and es: "drop (CBB_offset c d) (buf b) = concat es" "der_elements es"
  shows "\<exists>b'. CBB_flush_asn1_set_of m c d = (True, c\<lparr>base := Some b'\<rparr>) \<and>
     buf b' = take (CBB_offset c d) (buf b) @ concat (sort es) \<and> leaf (c\<lparr>base := Some b'\<rparr>) d b'"
proof -
  have data: "CBB_data c d = concat es" using l(1) es(1) by (simp add: CBB_data_def leaf_def)
  have cnt: "set_of_count (concat es) = Some (length es)" using es(2) by (simp add: set_of_count_elements)
  have clen: "length (concat es) \<le> length (buf b)" by (metis es(1) length_drop diff_le_self)
  then have nlen: "length es < 2 ^ 58" using length_elements[OF es(2)] l(3) by linarith
  show ?thesis
  proof (cases "length es < 2")
    case True
    then have "sort es = es" by (cases es) (auto simp: length_Suc_conv less_Suc_eq)
    then have "buf b = take (CBB_offset c d) (buf b) @ concat (sort es)"
      using es(1) by (metis append_take_drop_id)
    moreover have "CBB_flush_asn1_set_of m c d = (True, c)"
      using True by (simp add: CBB_flush_asn1_set_of_def CBB_flush_leaf[OF l(1)] cbb_then_def cnt data)
    moreover have "c = c\<lparr>base := Some b\<rparr>" using l(1) by (simp add: leaf_def)
    ultimately show ?thesis using l(1) by (intro exI[of _ b]) metis
  next
    case False
    have cl: "CBB_len c d = length (concat es)"
      using l(1) es(1) by (simp add: CBB_len_def leaf_def flip: length_drop)
    have ne: "CBB_len c d \<noteq> 0" using False length_elements[OF es(2)] unfolding cl by linarith
    have mal: "OPENSSL_malloc m k \<noteq> None" if "k < 2 ^ 62" for k
      using m(1) that unfolding grants_def by simp
    have dup: "OPENSSL_memdup m (concat es) (CBB_len c d) \<noteq> None"
      using mal[of "CBB_len c d"] ne clen l(3) unfolding OPENSSL_memdup_def cl by (auto split: option.splits)
    have m16: "length es * 16 mod SIZE_MOD = length es * 16" using nlen by simp
    have arr: "OPENSSL_malloc m (length es * 16 mod SIZE_MOD) \<noteq> None"
      unfolding m16 using nlen by (intro mal) simp
    have big: "\<not> length es > (SIZE_MOD - 1) div 16" using nlen by simp
    let ?b = "b\<lparr>buf := take (CBB_offset c d) (buf b)\<rparr>"
    let ?c = "c\<lparr>base := Some ?b\<rparr>"
    have eq: "CBB_flush_asn1_set_of m c d = add_all_bytes m ?c d (sort es)"
      using False dup arr big l(1)
      by (auto simp: CBB_flush_asn1_set_of_def CBB_flush_leaf[OF l(1)] cbb_then_def cnt Let_def
          qsort_by_sort leaf_def data set_of_children_elements[OF es(2)] simp del: mod_less)
    have lf: "leaf ?c d ?b" using l(1) by (simp add: leaf_def)
    have "length (concat (sort es)) = length (concat es)"
      by (rule length_concat_sort)
    then have "length (buf ?b) + length (concat (sort es)) < 2 ^ 62" using clen l(2,3) by simp
    note ad = emitsD[OF emits_all_bytes lf this]
    from ad(2)[OF m(1)] m(2) have f: "fst (add_all_bytes m ?c d (sort es))" by simp
    obtain b' where "leaf (snd (add_all_bytes m ?c d (sort es))) d b'" "buf b' = buf ?b @ concat (sort es)"
      "snd (add_all_bytes m ?c d (sort es)) = ?c\<lparr>base := Some b'\<rparr>"
      by (rule appended_leaf[OF lf ad(1)[OF f]])
    then show ?thesis
      using f unfolding eq by (intro exI[of _ b']) (simp add: prod_eq_iff)
  qed
qed

lemma uint_contents_short:
  assumes "length bs = 8" "be_val bs < 2 ^ 63"
  shows "length (uint_contents bs) \<le> 8"
proof (cases bs)
  case (Cons a t)
  have t: "length t = 7" using assms(1) Cons by simp
  show ?thesis
  proof (cases "a = 0")
    case True
    then have "dropWhile (\<lambda>b. b = 0) bs = dropWhile (\<lambda>b. b = 0) t" by (simp add: Cons)
    then have "length (dropWhile (\<lambda>b. b = 0) bs) \<le> 7"
      using length_dropWhile_le[of "\<lambda>b. b = 0" t] t by simp
    then show ?thesis by (auto simp: uint_contents_def Let_def)
  next
    case False
    have "\<not> 128 \<le> unat a"
    proof
      assume "128 \<le> unat a"
      then have "128 * 256 ^ 7 \<le> unat a * 256 ^ 7" by (rule mult_right_mono) simp
      then show False using assms(2) t by (simp add: Cons)
    qed
    then show ?thesis using False assms(1) by (simp add: uint_contents_def Cons)
  qed
qed (simp add: uint_contents_def)

lemma length_decimal: "n < 10 ^ Suc k \<Longrightarrow> length (decimal n) \<le> Suc k"
proof (induction k arbitrary: n)
  case 0
  then show ?case by (subst decimal.simps) simp
next
  case (Suc k)
  then have "n div 10 < 10 ^ Suc k" by (simp add: div_less_iff_less_mult)
  then have "length (decimal (n div 10)) \<le> Suc k" by (rule Suc.IH)
  then show ?case by (subst decimal.simps) simp
qed

lemma length_decimal_u64: "n < 2 ^ 64 \<Longrightarrow> length (decimal n) \<le> 20"
  using length_decimal[of n 19] by simp

lemma length_dotted_components:
  assumes "v < 2 ^ 64" "\<forall>x\<in>set vs. x < 2 ^ 64"
  shows "length (dotted (oid_components v vs)) \<le> 41 + 21 * length (oid_contents v vs)"
proof -
  have "length (concat (map (\<lambda>v. 46 # decimal v) vs)) \<le> 21 * length (concat (map base128 vs))"
    using assms(2)
  proof (induction vs)
    case (Cons x vs)
    then have "length (decimal x) \<le> 20" by (intro length_decimal_u64) simp
    moreover have "1 \<le> length (base128 x)" by (simp add: base128_def)
    ultimately show ?case using Cons by simp
  qed simp
  moreover have "length (dotted (oid_components v [])) \<le> 41"
  proof (cases "v \<ge> 80")
    case True
    have "v - 80 < 2 ^ 64" using assms(1) by (rule less_imp_diff_less)
    then show ?thesis using length_decimal_u64[of 2] length_decimal_u64[of "v - 80"] True
      by (simp add: oid_components_def)
  next
    case False
    then have "v div 40 < 2 ^ 64" "v mod 40 < 2 ^ 64" using assms(1) by (simp_all add: less_trans[of _ 40])
    then show ?thesis using length_decimal_u64[of "v div 40"] length_decimal_u64[of "v mod 40"] False
      by (simp add: oid_components_def)
  qed
  ultimately show ?thesis
    unfolding dotted_split[of v vs] oid_contents_def by simp
qed

lemma grants_replicate: "grants (\<lambda>n. Some (replicate n 0))"
proof -
  have "OPENSSL_malloc (\<lambda>n. Some (replicate n 0)) n \<noteq> None" if "n + 8 < SIZE_MOD" for n
    using that by (subst OPENSSL_malloc_small) simp_all
  then show ?thesis by (simp add: grants_def)
qed

end
