(* ===== verification/Der.thy ===== *)
theory Der
  imports Cbs Cbb
begin

text \<open>
  Properties that span the reader of \<open>cbs.c\<close> and the writer of \<open>cbb.c\<close>: what the DER reader
  accepts, that the writer's output is read back, and that the dotted text of an object
  identifier and a SET OF have one encoding.  \<open>cbb_bytes m n w\<close> runs the writer \<open>w\<close> on a CBB
  created with capacity hint \<open>n\<close> and finishes it.
\<close>

text \<open>C1: The element reader accepts exactly the DER encodings: \<open>CBS_get_any_asn1\<close> returns the
  contents \<open>body\<close> and the tag and leaves \<open>r\<close> exactly when the input is the one minimal-length DER
  encoding of that tag and contents, followed by \<open>r\<close>, with a length below 2^32; all other
  inputs are refused.\<close>

theorem CBS_get_any_asn1_exact:
  "CBS_get_any_asn1 c = Some (body, tag, r) \<longleftrightarrow> c = der_tlv tag body @ r \<and> length body < 2 ^ 32"
  by (rule CBS_get_any_asn1_Some)

text \<open>DER is unambiguous for the reader: a concatenation of encoded elements determines the
  elements.\<close>

lemma der_elements_unique:
  assumes "\<forall>(t, b)\<in>set xs. length b < 2 ^ 32" "\<forall>(t, b)\<in>set ys. length b < 2 ^ 32"
    and "concat (map (\<lambda>(t, b). der_tlv t b) xs) = concat (map (\<lambda>(t, b). der_tlv t b) ys)"
  shows "xs = ys"
  using assms by (intro tlv.concat_inj) auto

lemma der_elements_unique_witness: "[(2, [1 :: u8])] = [(2 :: u32, [1 :: u8])]"
  by (rule der_elements_unique) auto

text \<open>C6: The BER reader agrees with the DER reader on every input the DER reader accepts, and then
  reports no BER-only feature.\<close>

theorem ber_reader_extends_der:
  assumes "CBS_get_any_asn1_element c = Some (el, r)"
  shows "CBS_get_any_ber_asn1_element c = Some (el, r) \<and> \<not> el_ber_found el \<and>
    el_header_len el \<le> length (el_out el) \<and> c = el_out el @ r"
proof -
  obtain tag body where "c = der_tlv tag body @ r" "length body < 2 ^ 32" "el = tlv_element tag body"
    using assms by (auto simp: CBS_get_any_asn1_element_Some)
  then show ?thesis
    using DER_element_complete[of body tag r True]
    by (simp add: CBS_get_any_ber_asn1_element_def tlv_element_def der_tlv_def)
qed

theorem ber_reader_extends_der_witness:
  "CBS_get_any_ber_asn1_element (der_tlv 4 [7] @ [1]) = Some (tlv_element 4 [7], [1]) \<and>
   \<not> el_ber_found (tlv_element 4 [7]) \<and>
   el_header_len (tlv_element 4 [7]) \<le> length (el_out (tlv_element 4 [7])) \<and>
   der_tlv 4 [7] @ [1] = el_out (tlv_element 4 [7]) @ [1]"
proof (rule ber_reader_extends_der)
  show "CBS_get_any_asn1_element (der_tlv 4 [7] @ [1]) = Some (tlv_element 4 [7], [1])"
    by (simp add: CBS_get_any_asn1_element_Some) (rule exI[of _ 4], rule exI[of _ "[7]"], simp)
qed

text \<open>C7: \<open>CBS_get_asn1_int64\<close> reads exactly the minimal two's complement INTEGER contents of at
  most eight octets, and its result, read as a signed 64-bit integer, is their value.\<close>

theorem CBS_get_asn1_int64_exact:
  "CBS_get_asn1_int64 c = Some (v, r) \<longleftrightarrow>
     (\<exists>bs. c = der_tlv CBS_ASN1_INTEGER bs @ r \<and> minimal_int bs \<and> length bs \<le> 8 \<and> asn1_int bs = sint v)"
  by (rule CBS_get_asn1_int64_Some)

text \<open>Every 64-bit unsigned value that \<open>CBB_add_asn1_uint64\<close> writes is read back by
  \<open>CBS_get_asn1_uint64\<close>, whatever follows; with an allocator that grants the memory the write
  succeeds.\<close>

lemma asn1_uint64_roundtrip:
  assumes "grants m" "n < 2 ^ 62"
  shows "\<exists>out. cbb_bytes m n (\<lambda>c. CBB_add_asn1_uint64 m c 0 v) = Some out \<and>
    CBS_get_asn1_uint64 (out @ r) = Some (v, r)"
proof (intro exI conjI)
  let ?bs = "uint_contents (be_bytes 8 (unat v))"
  have len: "length ?bs \<le> 9" using length_uint_contents[of "be_bytes 8 (unat v)"] by simp
  then have "length (der_tlv CBS_ASN1_INTEGER ?bs) < 2 ^ 62"
    using length_der_tag(1)[of CBS_ASN1_INTEGER] by (simp add: der_tlv_def der_len_def)
  then show "cbb_bytes m n (\<lambda>c. CBB_add_asn1_uint64 m c 0 v) = Some (der_tlv CBS_ASN1_INTEGER ?bs)"
    by (rule cbb_bytes_emits(2) [OF emits_asn1_uint64 _ assms])
  have "be_val (be_bytes 8 (unat v)) = unat v"
    using unat_u64_less[of v] by (simp add: be_val_be_bytes)
  then show "CBS_get_asn1_uint64 (der_tlv CBS_ASN1_INTEGER ?bs @ r) = Some (v, r)"
    unfolding CBS_get_asn1_uint64_Some
    using uint_contents_int[of "be_bytes 8 (unat v)"] len by (intro exI[of _ ?bs]) simp
qed

lemma asn1_uint64_roundtrip_witness:
  "\<exists>out. cbb_bytes (\<lambda>n. Some (replicate n 0)) 0 (\<lambda>c. CBB_add_asn1_uint64 (\<lambda>n. Some (replicate n 0)) c 0 300) = Some out \<and>
    CBS_get_asn1_uint64 (out @ [9]) = Some (300, [9])"
  by (rule asn1_uint64_roundtrip) (simp_all add: grants_replicate)

text \<open>The same for signed values: \<open>CBB_add_asn1_int64\<close> and \<open>CBS_get_asn1_int64\<close>.\<close>

lemma asn1_int64_roundtrip:
  assumes "grants m" "n < 2 ^ 62"
  shows "\<exists>out. cbb_bytes m n (\<lambda>c. CBB_add_asn1_int64 m c 0 v) = Some out \<and>
    CBS_get_asn1_int64 (out @ r) = Some (v, r)"
proof (intro exI conjI)
  let ?bs = "if sint v \<ge> 0 then uint_contents (be_bytes 8 (unat v)) else int64_contents v"
  have c: "minimal_int ?bs \<and> length ?bs \<le> 8 \<and> asn1_int ?bs = sint v"
  proof (cases "sint v \<ge> 0")
    case True
    have "uint v < 2 ^ 64" using unsigned_less[of v, where 'a = int] by simp
    then have s: "unat v < 2 ^ 63" "sint v = int (unat v)" using True by (auto simp: sint_u64 split: if_splits)
    have bv: "be_val (be_bytes 8 (unat v)) = unat v" using unat_u64_less[of v] by (simp add: be_val_be_bytes)
    have "length (uint_contents (be_bytes 8 (unat v))) \<le> 8"
      by (rule uint_contents_short) (use s bv in simp_all)
    then show ?thesis
      using True s bv uint_contents_int[of "be_bytes 8 (unat v)"] by (simp add: asn1_int_def)
  next
    case False
    then show ?thesis using int64_contents_int[of v] by simp
  qed
  then have "length (der_tlv CBS_ASN1_INTEGER ?bs) < 2 ^ 62"
    using length_der_tag(1)[of CBS_ASN1_INTEGER] by (simp add: der_tlv_def der_len_def del: if_split)
  then show "cbb_bytes m n (\<lambda>c. CBB_add_asn1_int64 m c 0 v) = Some (der_tlv CBS_ASN1_INTEGER ?bs)"
    by (rule cbb_bytes_emits(2) [OF emits_asn1_int64 _ assms])
  show "CBS_get_asn1_int64 (der_tlv CBS_ASN1_INTEGER ?bs @ r) = Some (v, r)"
    unfolding CBS_get_asn1_int64_Some using c by (intro exI[of _ ?bs]) blast
qed

lemma asn1_int64_roundtrip_witness:
  "\<exists>out. cbb_bytes (\<lambda>n. Some (replicate n 0)) 0 (\<lambda>c. CBB_add_asn1_int64 (\<lambda>n. Some (replicate n 0)) c 0 (- 129)) = Some out \<and>
    CBS_get_asn1_int64 (out @ [9]) = Some (- 129, [9])"
  by (rule asn1_int64_roundtrip) (simp_all add: grants_replicate)

text \<open>C2: Flushing a CBB refines the specification \<open>render\<close>, which wraps the pending children from the
  innermost out: when \<open>CBB_flush\<close> succeeds on a chain of children, the buffer holds exactly the
  rendered bytes and no child stays pending; and when the rendering exists and the allocator
  grants the memory, the flush succeeds.\<close>

theorem CBB_flush_refines_render:
  assumes "\<forall>c\<in>set cs. child_ok c \<and> offset c < 2 ^ 62" "length (buf b) < SIZE_MOD"
  shows "(case flush_chain m b cs of
       (True, b', cs') \<Rightarrow> render (buf b) cs = Some (buf b') \<and> cs' = [] \<and> \<not> error b'
     | (False, b', cs') \<Rightarrow>
         \<not> (grants m \<and> can_resize b \<and> \<not> error b \<and>
            (\<exists>out. render (buf b) cs = Some out \<and> length out < 2 ^ 62)))"
proof (cases "flush_chain m b cs")
  case (fields ok b' cs')
  show ?thesis
  proof (cases ok)
    case True
    then show ?thesis using flush_chain_render[of m b cs b' cs'] fields assms by simp
  next
    case False
    have "\<not> (grants m \<and> can_resize b \<and> \<not> error b \<and>
            (\<exists>out. render (buf b) cs = Some out \<and> length out < 2 ^ 62))"
      using flush_chain_grants[of m b cs _, OF _ _ _ _ _ assms(1)] fields False by fastforce
    then show ?thesis using fields False by simp
  qed
qed

theorem CBB_flush_refines_render_witness:
  "case flush_chain (\<lambda>n. Some (replicate n 0)) \<lparr>buf = [0, 5, 6], cap = 3, can_resize = True, error = False\<rparr>
       [\<lparr>offset = 0, pending_len_len = 1, pending_is_asn1 = False\<rparr>] of
     (True, b', cs') \<Rightarrow>
       render (buf \<lparr>buf = [0, 5, 6], cap = 3, can_resize = True, error = False\<rparr>)
         [\<lparr>offset = 0, pending_len_len = 1, pending_is_asn1 = False\<rparr>] = Some (buf b') \<and> cs' = [] \<and> \<not> error b'
   | (False, b', cs') \<Rightarrow>
       \<not> (grants (\<lambda>n. Some (replicate n 0)) \<and>
          can_resize \<lparr>buf = [0, 5, 6], cap = 3, can_resize = True, error = False\<rparr> \<and>
          \<not> error \<lparr>buf = [0, 5, 6], cap = 3, can_resize = True, error = False\<rparr> \<and>
          (\<exists>out. render (buf \<lparr>buf = [0, 5, 6], cap = 3, can_resize = True, error = False\<rparr>)
             [\<lparr>offset = 0, pending_len_len = 1, pending_is_asn1 = False\<rparr>] = Some out \<and> length out < 2 ^ 62))"
  by (rule CBB_flush_refines_render) (simp_all add: child_ok_def)

text \<open>C5: A length-prefixed child: when the body fits the prefix, opening the child, writing the body
  and flushing gives bytes from which \<open>cbs_get_length_prefixed\<close> reads the body back.\<close>

theorem length_prefixed_roundtrip:
  assumes "grants m" "n < 2 ^ 62" "1 \<le> k" "k \<le> 3" "length body < 256 ^ k"
  shows "\<exists>out. cbb_bytes m n (in_child m 0 (\<lambda>c. cbb_add_length_prefixed m c 0 k) (\<lambda>c. CBB_add_bytes m c 1 body)) = Some out \<and>
    cbs_get_length_prefixed (out @ r) k = Some (body, r)"
proof (intro exI conjI)
  let ?out = "be_bytes k (length body) @ body"
  have e: "emits m 0 (in_child m 0 (\<lambda>c. cbb_add_length_prefixed m c 0 k) (\<lambda>c. CBB_add_bytes m c 1 body)) ?out"
    using assms emits_length_prefixed[OF emits_bytes[of m "Suc 0" body], of k] by simp
  have "(256 :: nat) ^ k \<le> 256 ^ 3" using assms(4) by (intro power_increasing) simp_all
  then have "length body < 256 ^ 3" using assms(5) by linarith
  then have "length ?out < 2 ^ 62" using assms(4) by simp
  then show "cbb_bytes m n (in_child m 0 (\<lambda>c. cbb_add_length_prefixed m c 0 k) (\<lambda>c. CBB_add_bytes m c 1 body)) = Some ?out"
    by (rule cbb_bytes_emits(2) [OF e _ assms(1,2)])
  show "cbs_get_length_prefixed (?out @ r) k = Some (body, r)"
    using assms by (simp add: be_val_be_bytes exI[of _ "be_bytes k (length body)"])
qed

theorem length_prefixed_roundtrip_witness:
  "\<exists>out. cbb_bytes (\<lambda>n. Some (replicate n 0)) 0 (in_child (\<lambda>n. Some (replicate n 0)) 0
        (\<lambda>c. cbb_add_length_prefixed (\<lambda>n. Some (replicate n 0)) c 0 2) (\<lambda>c. CBB_add_bytes (\<lambda>n. Some (replicate n 0)) c 1 [1, 2])) = Some out \<and>
    cbs_get_length_prefixed (out @ [3]) 2 = Some ([1, 2], [3])"
  by (rule length_prefixed_roundtrip) (simp_all add: grants_replicate)

text \<open>C3: Object identifiers: the text that \<open>CBS_asn1_oid_to_text\<close> gives for some contents octets is,
  without its terminating NUL, parsed by \<open>CBB_add_asn1_oid_from_text\<close> into the same octets.\<close>

theorem oid_text_roundtrip:
  assumes "CBS_asn1_oid_to_text m der = Some t" "length der < 2 ^ 50"
    and "grants m'" "n < 2 ^ 62"
  shows "\<exists>s. t = s @ [0] \<and> cbb_bytes m' n (\<lambda>c. CBB_add_asn1_oid_from_text m' c 0 s) = Some der"
proof -
  obtain v vs where der: "der = oid_contents v vs" "v < 2 ^ 64" "\<forall>x\<in>set vs. x < 2 ^ 64"
    using assms(1) by (rule oid_to_text_sound)
  let ?s = "dotted (oid_components v vs)"
  obtain w where w: "emits m 0 w (?s @ [0])" "CBS_asn1_oid_to_text m der = cbb_bytes m 32 w"
    using oid_to_text_emits[OF der(2,3), of m] der(1) by blast
  have "length (?s @ [0]) < 2 ^ 62"
    using length_dotted_components[OF der(2,3)] assms(2) unfolding der(1) by simp
  then have "t = ?s @ [0]"
    using cbb_bytes_emits(1)[OF w(1)] assms(1) w(2) by simp
  moreover have "cbb_bytes m' n (\<lambda>c. CBB_add_asn1_oid_from_text m' c 0 ?s) = Some der"
    unfolding der(1) by (rule cbb_bytes_emits(2)[OF emits_oid_from_text[OF der(2,3)] _ assms(3,4)])
      (use assms(2) der(1) in simp)
  ultimately show ?thesis by blast
qed

text \<open>C4: \<open>CBB_flush_asn1_set_of\<close> rewrites the contents of a SET OF as its elements in ascending
  lexicographic order and keeps everything before them.\<close>

theorem CBB_flush_asn1_set_of_sorts:
  assumes "leaf c d b" "CBB_offset c d \<le> length (buf b)" "length (buf b) < 2 ^ 58" "grants m" "can_resize b"
    and "drop (CBB_offset c d) (buf b) = concat es" "der_elements es"
  shows "\<exists>b'. CBB_flush_asn1_set_of m c d = (True, c\<lparr>base := Some b'\<rparr>) \<and>
     buf b' = take (CBB_offset c d) (buf b) @ concat (sort es)"
  using set_of_sorted[OF assms] by blast

theorem CBB_flush_asn1_set_of_sorts_witness:
  "\<exists>b'. CBB_flush_asn1_set_of (\<lambda>n. Some (replicate n 0))
       \<lparr>base = Some \<lparr>buf = der_tlv 2 [7] @ der_tlv 1 [0], cap = 6, can_resize = True, error = False\<rparr>, chain = []\<rparr> 0 =
     (True, \<lparr>base = Some \<lparr>buf = der_tlv 2 [7] @ der_tlv 1 [0], cap = 6, can_resize = True, error = False\<rparr>,
             chain = []\<rparr>\<lparr>base := Some b'\<rparr>) \<and>
     buf b' = take (CBB_offset \<lparr>base = Some \<lparr>buf = der_tlv 2 [7] @ der_tlv 1 [0], cap = 6, can_resize = True, error = False\<rparr>,
                                chain = []\<rparr> 0)
                (buf \<lparr>buf = der_tlv 2 [7] @ der_tlv 1 [0], cap = 6, can_resize = True, error = False\<rparr>) @
              concat (sort [der_tlv 2 [7], der_tlv 1 [0]])"
proof (rule CBB_flush_asn1_set_of_sorts)
  have "length (der_tlv 2 [7]) \<le> 8" "length (der_tlv 1 [0]) \<le> 8"
    using length_der_tag(1)[of 2] length_der_tag(1)[of 1] by (simp_all add: der_tlv_def der_len_def)
  then show "length (buf \<lparr>buf = der_tlv 2 [7] @ der_tlv 1 [0], cap = 6, can_resize = True, error = False\<rparr>) < 2 ^ 58"
    by simp
  show "der_elements [der_tlv 2 [7], der_tlv 1 [0]]"
    by (simp add: der_element_def) (metis length_Cons list.size(3) one_less_numeral_iff One_nat_def semiring_norm(76))
qed (simp_all add: leaf_def CBB_offset_def grants_replicate)

theorem oid_text_roundtrip_witness:
  "\<exists>s. dotted [1, 2] @ [0] = s @ [0] \<and>
     cbb_bytes (\<lambda>n. Some (replicate n 0)) 0 (\<lambda>c. CBB_add_asn1_oid_from_text (\<lambda>n. Some (replicate n 0)) c 0 s) = Some (oid_contents 42 [])"
proof (rule oid_text_roundtrip)
  obtain w where w: "emits (\<lambda>n. Some (replicate n 0)) 0 w (dotted (oid_components 42 []) @ [0])"
    "CBS_asn1_oid_to_text (\<lambda>n. Some (replicate n 0)) (oid_contents 42 []) = cbb_bytes (\<lambda>n. Some (replicate n 0)) 32 w"
    using oid_to_text_emits[of 42 "[]"] by auto
  have "length (dotted (oid_components 42 []) @ [0]) < 2 ^ 62"
    using length_dotted_components[of 42 "[]"] by (simp add: oid_contents_def base128_def)
  then show "CBS_asn1_oid_to_text (\<lambda>n. Some (replicate n 0)) (oid_contents 42 []) = Some (dotted [1, 2] @ [0])"
    using cbb_bytes_emits(2)[OF w(1)] w(2) by (simp add: grants_replicate oid_components_def)
qed (simp_all add: grants_replicate oid_contents_def base128_def)

end
