(* ===== verification/Unicode.thy ===== *)
theory Unicode
  imports Cbs Cbb
begin

text \<open>
  \<open>crypto/bytestring/unicode.c\<close>: reading and writing code points in UTF-8, Latin-1, UCS-2 and
  UTF-32.
\<close>

definition is_valid_code_point :: "u32 \<Rightarrow> bool" where
  "is_valid_code_point v \<longleftrightarrow>
     \<not> (v > 0x10ffff \<or> v AND 0xfffe = 0xfffe \<or> (v \<ge> 0xfdd0 \<and> v \<le> 0xfdef) \<or> (v \<ge> 0xd800 \<and> v \<le> 0xdfff))"

definition BOTTOM_BITS :: "nat \<Rightarrow> u8" where
  "BOTTOM_BITS n = ucast (push_bit n 1 - 1 :: u32)"

definition TOP_BITS :: "nat \<Rightarrow> u8" where
  "TOP_BITS n = NOT (BOTTOM_BITS (8 - n))"

fun utf8_continuation :: "nat \<Rightarrow> u32 \<Rightarrow> cbs \<Rightarrow> (u32 \<times> cbs) option" where
  "utf8_continuation 0 v cbs = Some (v, cbs)"
| "utf8_continuation (Suc n) v cbs =
     (case CBS_get_u8 cbs of
        None \<Rightarrow> None
      | Some (c, cbs) \<Rightarrow>
          if c AND TOP_BITS 2 \<noteq> TOP_BITS 1 then None
          else utf8_continuation n (push_bit 6 v OR ucast (c AND BOTTOM_BITS 6)) cbs)"

definition cbs_get_utf8 :: "cbs \<Rightarrow> (u32 \<times> cbs) option" where
  "cbs_get_utf8 cbs =
     do {
       (c, cbs) \<leftarrow> CBS_get_u8 cbs;
       if c \<le> 0x7f then Some (ucast c, cbs)
       else do {
         (v, len, lower_bound) \<leftarrow>
           (if c AND TOP_BITS 3 = TOP_BITS 2 then Some (c AND BOTTOM_BITS 5, 1, 0x80)
            else if c AND TOP_BITS 4 = TOP_BITS 3 then Some (c AND BOTTOM_BITS 4, 2, 0x800)
            else if c AND TOP_BITS 5 = TOP_BITS 4 then Some (c AND BOTTOM_BITS 3, 3, 0x10000)
            else None);
         (v, cbs) \<leftarrow> utf8_continuation len (ucast v) cbs;
         if \<not> is_valid_code_point v \<or> v < lower_bound then None else Some (v, cbs)
       }
     }"

definition cbs_get_latin1 :: "cbs \<Rightarrow> (u32 \<times> cbs) option" where
  "cbs_get_latin1 cbs = do { (c, cbs) \<leftarrow> CBS_get_u8 cbs; Some (ucast c, cbs) }"

definition cbs_get_ucs2_be :: "cbs \<Rightarrow> (u32 \<times> cbs) option" where
  "cbs_get_ucs2_be cbs =
     do { (c, cbs) \<leftarrow> CBS_get_u16 cbs;
          if \<not> is_valid_code_point (ucast c) then None else Some (ucast c, cbs) }"

definition cbs_get_utf32_be :: "cbs \<Rightarrow> (u32 \<times> cbs) option" where
  "cbs_get_utf32_be cbs =
     do { (v, cbs) \<leftarrow> CBS_get_u32 cbs; if is_valid_code_point v then Some (v, cbs) else None }"

definition cbb_get_utf8_len :: "u32 \<Rightarrow> nat" where
  "cbb_get_utf8_len u = (if u \<le> 0x7f then 1 else if u \<le> 0x7ff then 2 else if u \<le> 0xffff then 3 else 4)"

definition cbb_add_utf8 :: "(nat \<Rightarrow> bytes option) \<Rightarrow> cbb \<Rightarrow> nat \<Rightarrow> u32 \<Rightarrow> bool \<times> cbb" where
  "cbb_add_utf8 m cbb d u =
     (if \<not> is_valid_code_point u then (False, cbb)
      else if u \<le> 0x7f then CBB_add_u8 m cbb d (ucast u)
      else if u \<le> 0x7ff then
        add_u8s m cbb d [TOP_BITS 2 OR ucast (drop_bit 6 u), TOP_BITS 1 OR (ucast u AND BOTTOM_BITS 6)]
      else if u \<le> 0xffff then
        add_u8s m cbb d [TOP_BITS 3 OR ucast (drop_bit 12 u),
                         TOP_BITS 1 OR (ucast (drop_bit 6 u) AND BOTTOM_BITS 6),
                         TOP_BITS 1 OR (ucast u AND BOTTOM_BITS 6)]
      else if u \<le> 0x10ffff then
        add_u8s m cbb d [TOP_BITS 4 OR ucast (drop_bit 18 u),
                         TOP_BITS 1 OR (ucast (drop_bit 12 u) AND BOTTOM_BITS 6),
                         TOP_BITS 1 OR (ucast (drop_bit 6 u) AND BOTTOM_BITS 6),
                         TOP_BITS 1 OR (ucast u AND BOTTOM_BITS 6)]
      else (False, cbb))"

definition cbb_add_latin1 :: "(nat \<Rightarrow> bytes option) \<Rightarrow> cbb \<Rightarrow> nat \<Rightarrow> u32 \<Rightarrow> bool \<times> cbb" where
  "cbb_add_latin1 m cbb d u = (if u \<le> 0xff then CBB_add_u8 m cbb d (ucast u) else (False, cbb))"

definition cbb_add_ucs2_be :: "(nat \<Rightarrow> bytes option) \<Rightarrow> cbb \<Rightarrow> nat \<Rightarrow> u32 \<Rightarrow> bool \<times> cbb" where
  "cbb_add_ucs2_be m cbb d u =
     (if u \<le> 0xffff \<and> is_valid_code_point u then CBB_add_u16 m cbb d (ucast u) else (False, cbb))"

definition cbb_add_utf32_be :: "(nat \<Rightarrow> bytes option) \<Rightarrow> cbb \<Rightarrow> nat \<Rightarrow> u32 \<Rightarrow> bool \<times> cbb" where
  "cbb_add_utf32_be m cbb d u = (if is_valid_code_point u then CBB_add_u32 m cbb d u else (False, cbb))"

section \<open>UTF-8 as numbers\<close>

definition cont_byte :: "nat \<Rightarrow> u8" where
  "cont_byte k = word_of_nat (128 + k mod 64)"

definition utf8 :: "u32 \<Rightarrow> bytes" where
  "utf8 u =
     (let n = unat u
      in if n < 0x80 then [word_of_nat n]
         else if n < 0x800 then [word_of_nat (192 + n div 64), cont_byte n]
         else if n < 0x10000 then [word_of_nat (224 + n div 4096), cont_byte (n div 64), cont_byte n]
         else [word_of_nat (240 + n div 262144), cont_byte (n div 4096), cont_byte (n div 64), cont_byte n])"

lemma masks:
  "BOTTOM_BITS 6 = mask 6" "BOTTOM_BITS 5 = mask 5" "BOTTOM_BITS 4 = mask 4" "BOTTOM_BITS 3 = mask 3"
  "TOP_BITS 1 = 128" "TOP_BITS 2 = 192" "TOP_BITS 3 = 224" "TOP_BITS 4 = 240" "TOP_BITS 5 = 248"
  by (simp_all add: BOTTOM_BITS_def TOP_BITS_def mask_eq_exp_minus_1 push_bit_eq_mult)

lemma and_top:
  assumes "k \<le> 8"
  shows "unat ((c :: u8) AND push_bit k (mask (8 - k))) = unat c div 2 ^ k * 2 ^ k"
proof -
  have "c AND push_bit k (mask (8 - k)) = push_bit k (drop_bit k c)"
    by (rule bit_word_eqI) (auto simp: bit_simps dest: bit_imp_le_length)
  moreover have "unat c div 2 ^ k * 2 ^ k < 2 ^ LENGTH(8)"
    using unat_u8_less[of c] by (rule_tac le_less_trans [of _ "unat c"]) simp_all
  ultimately show ?thesis by (simp only: unat_push_bit_small unat_drop_bit)
qed

lemma and_top_iff:
  "(c :: u8) AND 192 = 128 \<longleftrightarrow> unat c div 64 = 2" "c AND 224 = 192 \<longleftrightarrow> unat c div 32 = 6"
  "c AND 240 = 224 \<longleftrightarrow> unat c div 16 = 14" "c AND 248 = 240 \<longleftrightarrow> unat c div 8 = 30"
proof -
  have "(192 :: u8) = push_bit 6 (mask (8 - 6))" "(224 :: u8) = push_bit 5 (mask (8 - 5))"
    "(240 :: u8) = push_bit 4 (mask (8 - 4))" "(248 :: u8) = push_bit 3 (mask (8 - 3))"
    by (simp_all add: mask_eq_exp_minus_1 push_bit_eq_mult)
  then have "unat (c AND 192) = unat c div 64 * 64" "unat (c AND 224) = unat c div 32 * 32"
    "unat (c AND 240) = unat c div 16 * 16" "unat (c AND 248) = unat c div 8 * 8"
    using and_top[of 6 c] and_top[of 5 c] and_top[of 4 c] and_top[of 3 c] by simp_all
  then show "c AND 192 = 128 \<longleftrightarrow> unat c div 64 = 2" "c AND 224 = 192 \<longleftrightarrow> unat c div 32 = 6"
    "c AND 240 = 224 \<longleftrightarrow> unat c div 16 = 14" "c AND 248 = 240 \<longleftrightarrow> unat c div 8 = 30"
    unfolding word_unat_eq_iff by simp_all
qed

lemma cont_byte_iff: "unat c div 64 = 2 \<longleftrightarrow> (\<exists>k < 64. c = cont_byte k)"
proof
  assume "unat c div 64 = 2"
  then have "128 + (unat c mod 64) mod 64 = unat c" using div_mult_mod_eq[of "unat c" 64] by simp
  then have "c = cont_byte (unat c mod 64)" unfolding cont_byte_def by (simp only:) simp
  then show "\<exists>k < 64. c = cont_byte k" by (metis mod_less_divisor zero_less_numeral)
next
  assume "\<exists>k < 64. c = cont_byte k"
  then obtain k where "k < 64" "c = cont_byte k" by blast
  then have "unat c = 128 + k" using nat_u8_digit[of "128 + k mod 64"] by (simp only: cont_byte_def mod_less)
  then show "unat c div 64 = 2" using \<open>k < 64\<close> by simp
qed

lemma unat_cont_byte: "unat (cont_byte k) = 128 + k mod 64"
  unfolding cont_byte_def by (rule nat_u8_digit) (use mod_less_divisor[of 64 k] in linarith)

lemma cont_byte_mod: "k < 64 \<Longrightarrow> unat (cont_byte k) mod 64 = k"
  unfolding unat_cont_byte by (subst mod_add_left_eq [symmetric]) simp

lemma continuation_step:
  assumes "unat v < 2 ^ 26"
  shows "utf8_continuation (Suc n) v c =
    (case c of
       [] \<Rightarrow> None
     | b # c \<Rightarrow>
         if unat b div 64 = 2 then utf8_continuation n (word_of_nat (unat v * 64 + unat b mod 64)) c else None)"
proof (cases c)
  case (Cons b c')
  have b: "unat (b AND mask 6) = unat b mod 64" using unat_and_mask[of b 6] by simp
  have "unat (ucast (b AND mask 6) :: u32) < 2 ^ 6" by (simp add: b)
  then have "unat (push_bit 6 v OR ucast (b AND mask 6)) = unat v * 64 + unat b mod 64"
    using unat_shift_or[of "ucast (b AND mask 6) :: u32" 6 v] assms by (simp add: b)
  then have "push_bit 6 v OR ucast (b AND mask 6) = (word_of_nat (unat v * 64 + unat b mod 64) :: u32)"
    by (metis of_nat_unat ucast_id)
  then show ?thesis
    by (cases "unat b div 64 = 2") (simp_all only: Cons utf8_continuation.simps masks and_top_iff
        CBS_get_u8_simps option.simps prod.case list.simps if_True if_False simp_thms)
qed simp

lemma continuation_iff:
  assumes "(unat v + 1) * 64 ^ n \<le> 2 ^ 32"
  shows "utf8_continuation n v c = Some (w, r) \<longleftrightarrow>
    (\<exists>ks. length ks = n \<and> (\<forall>k\<in>set ks. k < 64) \<and> c = map cont_byte ks @ r \<and>
          w = word_of_nat (foldl (\<lambda>v k. v * 64 + k) (unat v) ks))"
  using assms
proof (induction n arbitrary: v c)
  case 0
  then show ?case by auto
next
  case (Suc n)
  have "(unat v + 1) * 64 \<le> (unat v + 1) * 64 ^ Suc n" by (intro mult_left_mono) simp_all
  then have "(unat v + 1) * 64 \<le> 2 ^ 32" using Suc.prems by (rule le_trans)
  then have v: "unat v < 2 ^ 26" by simp
  have u: "unat (word_of_nat (unat v * 64 + k) :: u32) = unat v * 64 + k"
    and lim: "(unat (word_of_nat (unat v * 64 + k) :: u32) + 1) * 64 ^ n \<le> 2 ^ 32" if k: "k < 64" for k
  proof -
    show u: "unat (word_of_nat (unat v * 64 + k) :: u32) = unat v * 64 + k"
      unfolding unsigned_of_nat using v k by (simp add: take_bit_nat_eq_self)
    have "(unat v * 64 + k + 1) * 64 ^ n \<le> ((unat v + 1) * 64) * 64 ^ n" using k by (intro mult_right_mono) simp_all
    also have "\<dots> = (unat v + 1) * 64 ^ Suc n" by (simp only: power_Suc mult.assoc)
    also have "\<dots> \<le> 2 ^ 32" by (rule Suc.prems)
    finally show "(unat (word_of_nat (unat v * 64 + k) :: u32) + 1) * 64 ^ n \<le> 2 ^ 32"
      unfolding u .
  qed
  show ?case (is "?L \<longleftrightarrow> ?R")
  proof
    assume ?L
    then obtain b c' where c: "c = b # c'" "unat b div 64 = 2"
        "utf8_continuation n (word_of_nat (unat v * 64 + unat b mod 64)) c' = Some (w, r)"
      unfolding continuation_step[OF v] by (auto split: list.splits if_splits)
    obtain k where k: "k < 64" "b = cont_byte k" using c(2) cont_byte_iff by blast
    then have bm: "unat b mod 64 = k" by (simp add: cont_byte_mod)
    obtain ks where "length ks = n" "\<forall>k\<in>set ks. k < 64" "c' = map cont_byte ks @ r"
      "w = word_of_nat (foldl (\<lambda>v k. v * 64 + k) (unat v * 64 + k) ks)"
      using c(3) unfolding bm Suc.IH[OF lim[OF k(1)]] u[OF k(1)] by blast
    then show ?R using c(1) k by (intro exI[of _ "k # ks"]) simp
  next
    assume ?R
    then obtain k ks where ks: "length ks = n" "k < 64" "\<forall>k\<in>set ks. k < 64" "c = cont_byte k # map cont_byte ks @ r"
      "w = word_of_nat (foldl (\<lambda>v k. v * 64 + k) (unat v * 64 + k) ks)"
      by (auto simp: length_Suc_conv)
    have "unat (cont_byte k) div 64 = 2" "unat (cont_byte k) mod 64 = k"
      using ks(2) cont_byte_iff[of "cont_byte k"] by (auto simp: cont_byte_mod)
    then have e: "utf8_continuation (Suc n) v c = utf8_continuation n (word_of_nat (unat v * 64 + k)) (map cont_byte ks @ r)"
      unfolding continuation_step[OF v] ks(4) by simp
    show ?L
      unfolding e Suc.IH[OF lim[OF ks(2)]] u[OF ks(2)] using ks by blast
  qed
qed

lemma valid_range: "is_valid_code_point u \<Longrightarrow> unat u < 0x110000"
  by (simp add: is_valid_code_point_def word_less_nat_alt)

text \<open>The lead byte, in numbers.\<close>

lemma cbs_get_utf8_eval:
  "cbs_get_utf8 (b # c) =
    (let n = unat b;
         multi = (\<lambda>v0 k lower. case utf8_continuation k (word_of_nat v0) c of
            None \<Rightarrow> None
          | Some (v, r) \<Rightarrow> if is_valid_code_point v \<and> lower \<le> unat v then Some (v, r) else None)
     in if n < 128 then Some (word_of_nat n, c)
        else if n div 32 = 6 then multi (n mod 32) 1 0x80
        else if n div 16 = 14 then multi (n mod 16) 2 0x800
        else if n div 8 = 30 then multi (n mod 8) 3 0x10000
        else None)"
proof -
  have a: "b \<le> 0x7f \<longleftrightarrow> unat b < 128" by (auto simp: word_le_nat_alt)
  have w: "(ucast b :: u32) = word_of_nat (unat b)" by simp
  have m: "(ucast (b AND mask k) :: u32) = word_of_nat (unat b mod 2 ^ k)" for k
    by (simp flip: unat_and_mask)
  have l: "v < 0x80 \<longleftrightarrow> \<not> 0x80 \<le> unat v" "v < 0x800 \<longleftrightarrow> \<not> 0x800 \<le> unat v" "v < 0x10000 \<longleftrightarrow> \<not> 0x10000 \<le> unat v" for v :: u32
    by (auto simp: word_less_nat_alt)
  have fin: "(x \<bind> (\<lambda>(v, r). if \<not> is_valid_code_point v \<or> v < lb then None else Some (v, r))) =
      (case x of None \<Rightarrow> None | Some (v, r) \<Rightarrow> if is_valid_code_point v \<and> lower \<le> unat v then Some (v, r) else None)"
    if "\<And>v. v < lb \<longleftrightarrow> \<not> lower \<le> unat v" for x :: "(u32 \<times> cbs) option" and lb lower
    by (cases x) (auto simp: that)
  note f = fin[OF l(1)] fin[OF l(2)] fin[OF l(3)]
  note e = cbs_get_utf8_def CBS_get_u8_simps bind.bind_lunit prod.case a masks and_top_iff Let_def
  consider "unat b < 128" | "\<not> unat b < 128" "unat b div 32 = 6"
    | "\<not> unat b < 128" "unat b div 32 \<noteq> 6" "unat b div 16 = 14"
    | "\<not> unat b < 128" "unat b div 32 \<noteq> 6" "unat b div 16 \<noteq> 14" "unat b div 8 = 30"
    | "\<not> unat b < 128" "unat b div 32 \<noteq> 6" "unat b div 16 \<noteq> 14" "unat b div 8 \<noteq> 30"
    by blast
  then show ?thesis
  proof cases
    case 1
    then show ?thesis unfolding e by (simp only: if_True w)
  next
    case 2
    then show ?thesis unfolding e by (simp only: if_True if_False bind.bind_lunit prod.case m f simp_thms) simp
  next
    case 3
    then show ?thesis unfolding e by (simp only: if_True if_False bind.bind_lunit prod.case m f simp_thms) simp
  next
    case 4
    then show ?thesis unfolding e by (simp only: if_True if_False bind.bind_lunit prod.case m f simp_thms) simp
  next
    case 5
    then show ?thesis unfolding e by (simp only: if_True if_False bind.bind_lzero simp_thms)
  qed
qed

lemma utf8_multi:
  assumes "(v0 + 1) * 64 ^ k \<le> 2 ^ 32"
  shows "(case utf8_continuation k (word_of_nat v0) c of
            None \<Rightarrow> None
          | Some (v, r) \<Rightarrow> if is_valid_code_point v \<and> lower \<le> unat v then Some (v, r) else None) = Some (u, r) \<longleftrightarrow>
    is_valid_code_point u \<and> lower \<le> unat u \<and>
    (\<exists>ks. length ks = k \<and> (\<forall>x\<in>set ks. x < 64) \<and> c = map cont_byte ks @ r \<and>
       u = word_of_nat (foldl (\<lambda>v k. v * 64 + k) v0 ks))"
proof -
  have "(v0 + 1) * 1 \<le> (v0 + 1) * 64 ^ k" by (intro mult_left_mono) simp_all
  then have "v0 < 2 ^ 32" using assms by simp
  then have v0: "unat (word_of_nat v0 :: u32) = v0" unfolding unsigned_of_nat by (simp add: take_bit_nat_eq_self)
  show ?thesis
    using continuation_iff[of "word_of_nat v0" k c u r] assms unfolding v0
    by (auto split: option.splits if_splits)
qed

lemma unat_u32_of_nat: "n < 2 ^ 32 \<Longrightarrow> unat (word_of_nat n :: u32) = n"
  unfolding unsigned_of_nat by (simp add: take_bit_nat_eq_self)

lemma cont_of_nat: "k < 64 \<Longrightarrow> cont_byte (a * 64 + k) = cont_byte k"
  by (simp add: cont_byte_def del: of_nat_add)

lemma valid_small: "unat u < 128 \<Longrightarrow> is_valid_code_point u"
proof -
  assume u: "unat u < 128"
  have "u AND 0xfffe \<le> u" by (metis word_and_le2)
  then have "u AND 0xfffe \<noteq> 0xfffe" using u by (auto simp: word_le_nat_alt)
  then show ?thesis using u by (auto simp: is_valid_code_point_def word_le_nat_alt word_less_nat_alt)
qed

lemma utf8_1: "unat u < 128 \<Longrightarrow> utf8 u = [word_of_nat (unat u)]"
  by (simp add: utf8_def Let_def)

lemma utf8_2:
  assumes "unat u = a * 64 + k" "2 \<le> a" "a < 32" "k < 64"
  shows "utf8 u = [word_of_nat (192 + a), cont_byte k]"
  unfolding utf8_def assms(1) Let_def using assms by (simp add: cont_of_nat)

lemma div64: "k < 64 \<Longrightarrow> (x * 64 + k) div 64 = (x :: nat)"
  by simp

lemma div4096: "(n :: nat) div 4096 = n div 64 div 64" "n div 262144 = n div 64 div 64 div 64"
  by (simp_all flip: div_mult2_eq)

lemma utf8_3:
  assumes "unat u = (a * 64 + k) * 64 + l" "32 \<le> a * 64 + k" "a < 16" "k < 64" "l < 64"
  shows "utf8 u = [word_of_nat (224 + a), cont_byte k, cont_byte l]"
proof -
  have "\<not> (a * 64 + k) * 64 + l < 128" "\<not> (a * 64 + k) * 64 + l < 2048" "(a * 64 + k) * 64 + l < 65536"
    using assms by simp_all
  then show ?thesis
    unfolding utf8_def assms(1) Let_def div4096 div64[OF assms(4)] div64[OF assms(5)]
      cont_of_nat[OF assms(4)] cont_of_nat[OF assms(5)] by (simp only: if_True if_False)
qed

lemma utf8_4:
  assumes "unat u = ((a * 64 + k) * 64 + l) * 64 + m" "1024 \<le> (a * 64 + k) * 64 + l"
    "k < 64" "l < 64" "m < 64"
  shows "utf8 u = [word_of_nat (240 + a), cont_byte k, cont_byte l, cont_byte m]"
proof -
  let ?n = "((a * 64 + k) * 64 + l) * 64 + m"
  have "\<not> ?n < 128" "\<not> ?n < 2048" "\<not> ?n < 65536" using assms by simp_all
  then show ?thesis
    unfolding utf8_def assms(1) Let_def div4096 div64[OF assms(3)] div64[OF assms(4)] div64[OF assms(5)]
      cont_of_nat[OF assms(3)] cont_of_nat[OF assms(4)] cont_of_nat[OF assms(5)] by (simp only: if_False)
qed

lemma cbs_get_utf8_multi:
  assumes v0: "(v0 + 1) * 64 ^ k \<le> 2 ^ 32"
    and ev: "cbs_get_utf8 (b # c) =
      (case utf8_continuation k (word_of_nat v0) c of
         None \<Rightarrow> None
       | Some (v, r) \<Rightarrow> if is_valid_code_point v \<and> lower \<le> unat v then Some (v, r) else None)"
  shows "cbs_get_utf8 (b # c) = Some (u, r) \<longleftrightarrow>
    is_valid_code_point u \<and> lower \<le> unat u \<and>
    (\<exists>ks. length ks = k \<and> (\<forall>x\<in>set ks. x < 64) \<and> c = map cont_byte ks @ r \<and>
       unat u = foldl (\<lambda>v k. v * 64 + k) v0 ks)"
proof -
  have fold_less: "foldl (\<lambda>v k. v * 64 + k) v ks < (v + 1) * 64 ^ length ks" if "\<forall>x\<in>set ks. x < 64" for v and ks :: "nat list"
    using that
  proof (induction ks arbitrary: v)
    case (Cons x ks)
    then have "foldl (\<lambda>v k. v * 64 + k) (v * 64 + x) ks < (v * 64 + x + 1) * 64 ^ length ks" by simp
    also have "\<dots> \<le> ((v + 1) * 64) * 64 ^ length ks" using Cons.prems by (intro mult_right_mono) simp_all
    finally show ?case by (simp only: foldl_Cons list.size power_Suc mult.assoc add_Suc_right add_0_right)
  qed simp
  have "u = word_of_nat (foldl (\<lambda>v k. v * 64 + k) v0 ks) \<longleftrightarrow> unat u = foldl (\<lambda>v k. v * 64 + k) v0 ks"
    if "length ks = k" "\<forall>x\<in>set ks. x < 64" for ks
  proof -
    have "foldl (\<lambda>v k. v * 64 + k) v0 ks < 2 ^ 32"
      using fold_less[OF that(2), of v0] v0 that(1) by simp
    from unat_u32_of_nat[OF this] show ?thesis by (simp only: word_unat_eq_iff)
  qed
  then show ?thesis unfolding ev utf8_multi[OF v0] by blast
qed

lemma utf8_lead:
  assumes "192 \<le> n" "n < 256"
  shows "cbs_get_utf8 (word_of_nat n # c) =
    (let multi = (\<lambda>v0 k lower. case utf8_continuation k (word_of_nat v0) c of
            None \<Rightarrow> None
          | Some (v, r) \<Rightarrow> if is_valid_code_point v \<and> lower \<le> unat v then Some (v, r) else None)
     in if n div 32 = 6 then multi (n mod 32) 1 0x80
        else if n div 16 = 14 then multi (n mod 16) 2 0x800
        else if n div 8 = 30 then multi (n mod 8) 3 0x10000
        else None)"
proof -
  have u: "unat (word_of_nat n :: u8) = n" using assms by (intro nat_u8_digit)
  have "\<not> n < 128" using assms by simp
  then show ?thesis unfolding cbs_get_utf8_eval Let_def u by (simp only: if_False)
qed

lemma ex_lists:
  "(\<exists>ks. length ks = 1 \<and> P ks) \<longleftrightarrow> (\<exists>k. P [k])"
  "(\<exists>ks. length ks = 2 \<and> P ks) \<longleftrightarrow> (\<exists>k l. P [k, l])"
  "(\<exists>ks. length ks = 3 \<and> P ks) \<longleftrightarrow> (\<exists>k l m. P [k, l, m])"
  unfolding One_nat_def numeral_2_eq_2 numeral_3_eq_3 length_Suc_conv length_0_conv by blast+

lemma div_mod_parts:
  assumes "a < k"
  shows "(q * k + a) div k = q" "(q * k + a) mod k = (a :: nat)"
  using assms by simp_all

lemma utf8_2_iff: "a < 32 \<Longrightarrow>
  cbs_get_utf8 (word_of_nat (192 + a) # c) = Some (u, r) \<longleftrightarrow>
    is_valid_code_point u \<and> 0x80 \<le> unat u \<and> (\<exists>k < 64. c = cont_byte k # r \<and> unat u = a * 64 + k)"
proof -
  assume a: "a < 32"
  have d: "(192 + a) div 32 = 6" "(192 + a) mod 32 = a" using div_mod_parts[OF a, of 6] by simp_all
  have "(a + 1) * 64 ^ 1 \<le> (2 :: nat) ^ 32" using a by simp
  then have "cbs_get_utf8 (word_of_nat (192 + a) # c) = Some (u, r) \<longleftrightarrow>
    is_valid_code_point u \<and> 0x80 \<le> unat u \<and>
    (\<exists>ks. length ks = 1 \<and> (\<forall>x\<in>set ks. x < 64) \<and> c = map cont_byte ks @ r \<and> unat u = foldl (\<lambda>v k. v * 64 + k) a ks)"
    by (rule cbs_get_utf8_multi) (use a in \<open>subst utf8_lead, simp, simp, simp only: d Let_def if_True simp_thms\<close>)
  then show ?thesis unfolding ex_lists by (simp add: conj_ac) 
qed

lemma utf8_3_iff: "a < 16 \<Longrightarrow>
  cbs_get_utf8 (word_of_nat (224 + a) # c) = Some (u, r) \<longleftrightarrow>
    is_valid_code_point u \<and> 0x800 \<le> unat u \<and>
    (\<exists>k l. k < 64 \<and> l < 64 \<and> c = cont_byte k # cont_byte l # r \<and> unat u = (a * 64 + k) * 64 + l)"
proof -
  assume a: "a < 16"
  have d: "(224 + a) div 32 \<noteq> 6" "(224 + a) div 16 = 14" "(224 + a) mod 16 = a"
    using div_mod_parts[OF a, of 14] div_mod_parts[of a 32 7] a by simp_all
  have "(a + 1) * 64 ^ 2 \<le> (2 :: nat) ^ 32" using a by simp
  then have "cbs_get_utf8 (word_of_nat (224 + a) # c) = Some (u, r) \<longleftrightarrow>
    is_valid_code_point u \<and> 0x800 \<le> unat u \<and>
    (\<exists>ks. length ks = 2 \<and> (\<forall>x\<in>set ks. x < 64) \<and> c = map cont_byte ks @ r \<and> unat u = foldl (\<lambda>v k. v * 64 + k) a ks)"
    by (rule cbs_get_utf8_multi) (use a d in \<open>subst utf8_lead, simp, simp, simp only: d Let_def if_True if_False simp_thms\<close>)
  then show ?thesis unfolding ex_lists by (simp add: conj_ac) 
qed

lemma utf8_4_iff: "a < 8 \<Longrightarrow>
  cbs_get_utf8 (word_of_nat (240 + a) # c) = Some (u, r) \<longleftrightarrow>
    is_valid_code_point u \<and> 0x10000 \<le> unat u \<and>
    (\<exists>k l m. k < 64 \<and> l < 64 \<and> m < 64 \<and> c = cont_byte k # cont_byte l # cont_byte m # r \<and>
       unat u = ((a * 64 + k) * 64 + l) * 64 + m)"
proof -
  assume a: "a < 8"
  have d: "(240 + a) div 32 \<noteq> 6" "(240 + a) div 16 \<noteq> 14" "(240 + a) div 8 = 30" "(240 + a) mod 8 = a"
    using div_mod_parts[OF a, of 30] div_mod_parts[of "16 + a" 32 7] div_mod_parts[of a 16 15] a
    by simp_all
  have "(a + 1) * 64 ^ 3 \<le> (2 :: nat) ^ 32" using a by simp
  then have "cbs_get_utf8 (word_of_nat (240 + a) # c) = Some (u, r) \<longleftrightarrow>
    is_valid_code_point u \<and> 0x10000 \<le> unat u \<and>
    (\<exists>ks. length ks = 3 \<and> (\<forall>x\<in>set ks. x < 64) \<and> c = map cont_byte ks @ r \<and> unat u = foldl (\<lambda>v k. v * 64 + k) a ks)"
    by (rule cbs_get_utf8_multi) (use a d in \<open>subst utf8_lead, simp, simp, simp only: d Let_def if_True if_False simp_thms\<close>)
  then show ?thesis unfolding ex_lists by (simp add: conj_ac) 
qed

lemma cbs_get_utf8_Some:
  "cbs_get_utf8 c = Some (u, r) \<longleftrightarrow> is_valid_code_point u \<and> c = utf8 u @ r"
proof
  assume L: "cbs_get_utf8 c = Some (u, r)"
  then obtain b c' where c: "c = b # c'" by (cases c) (simp_all add: cbs_get_utf8_def)
  define n where "n = unat b"
  have b: "b = word_of_nat n" by (simp add: n_def)
  have n: "n < 256" by (simp add: n_def)
  note ev = L[unfolded c cbs_get_utf8_eval Let_def, folded n_def]
  consider "n < 128" | "n div 32 = 6" | "n div 16 = 14" | "n div 8 = 30"
    using ev by (auto split: if_splits)
  then show "is_valid_code_point u \<and> c = utf8 u @ r"
  proof cases
    case 1
    then have u: "u = word_of_nat n" "r = c'" using ev by simp_all
    then have un: "unat u = n" using 1 by (simp add: unat_u32_of_nat)
    then show ?thesis using u 1 valid_small[of u] by (simp add: utf8_def c b)
  next
    case 2
    let ?a = "n mod 32"
    have "192 + ?a = n" using 2 div_mult_mod_eq[of n 32] by simp
    then have "cbs_get_utf8 (word_of_nat (192 + ?a) # c') = Some (u, r)" using L c b by simp
    then obtain k where k: "is_valid_code_point u" "0x80 \<le> unat u" "k < 64" "c' = cont_byte k # r" "unat u = ?a * 64 + k"
      by (subst (asm) utf8_2_iff) auto
    then have "2 \<le> ?a" by simp
    then show ?thesis using k utf8_2[OF k(5)] \<open>192 + ?a = n\<close> by (simp add: c b)
  next
    case 3
    let ?a = "n mod 16"
    have "224 + ?a = n" using 3 div_mult_mod_eq[of n 16] by simp
    then have "cbs_get_utf8 (word_of_nat (224 + ?a) # c') = Some (u, r)" using L c b by simp
    then obtain k l where k: "is_valid_code_point u" "0x800 \<le> unat u" "k < 64" "l < 64" "c' = cont_byte k # cont_byte l # r"
      "unat u = (?a * 64 + k) * 64 + l"
      by (subst (asm) utf8_3_iff) auto
    then have "32 \<le> ?a * 64 + k" by simp
    then show ?thesis using k utf8_3[OF k(6)] \<open>224 + ?a = n\<close> by (simp add: c b)
  next
    case 4
    let ?a = "n mod 8"
    have "240 + ?a = n" using 4 div_mult_mod_eq[of n 8] by simp
    then have "cbs_get_utf8 (word_of_nat (240 + ?a) # c') = Some (u, r)" using L c b by simp
    then obtain k l m where k: "is_valid_code_point u" "0x10000 \<le> unat u" "k < 64" "l < 64" "m < 64"
      "c' = cont_byte k # cont_byte l # cont_byte m # r" "unat u = ((?a * 64 + k) * 64 + l) * 64 + m"
      by (subst (asm) utf8_4_iff) auto
    then have "1024 \<le> (?a * 64 + k) * 64 + l" by simp
    then show ?thesis using k utf8_4[OF k(7)] \<open>240 + ?a = n\<close> by (simp add: c b)
  qed
next
  assume R: "is_valid_code_point u \<and> c = utf8 u @ r"
  then have lim: "unat u < 0x110000" using valid_range by blast
  define n where "n = unat u"
  define l where "l = n mod 64" define k where "k = n div 64 mod 64" define j where "j = n div 64 div 64 mod 64"
  have dig: "l < 64" "k < 64" "j < 64" by (simp_all add: l_def k_def j_def)
  have n64: "n = n div 64 * 64 + l" "n div 64 = n div 64 div 64 * 64 + k" "n div 64 div 64 = n div 64 div 64 div 64 * 64 + j"
    by (simp_all add: l_def k_def j_def)
  consider "n < 0x80" | "0x80 \<le> n" "n < 0x800" | "0x800 \<le> n" "n < 0x10000" | "0x10000 \<le> n" by linarith
  then show "cbs_get_utf8 c = Some (u, r)"
  proof cases
    case 1
    have "unat (word_of_nat n :: u8) = n" using 1 by (intro nat_u8_digit) simp
    moreover have "c = word_of_nat n # r" using R 1 by (simp add: utf8_1 n_def)
    ultimately show ?thesis
      using 1 by (simp only: cbs_get_utf8_eval Let_def if_True) (simp add: n_def)
  next
    case 2
    let ?a = "n div 64"
    have e: "unat u = ?a * 64 + l" using n64 by (simp only: n_def)
    have a: "2 \<le> ?a" "?a < 32" using 2 by (simp_all add: div_less_iff_less_mult less_eq_div_iff_mult_less_eq)
    have c: "c = word_of_nat (192 + ?a) # cont_byte l # r" using R utf8_2[OF e a dig(1)] by simp
    show ?thesis unfolding c utf8_2_iff[OF a(2)] using R e dig 2 by (simp add: n_def exI[of _ l])
  next
    case 3
    let ?a = "n div 64 div 64"
    have e: "unat u = (?a * 64 + k) * 64 + l" using n64 by (simp only: n_def)
    have a: "?a < 16" "32 \<le> ?a * 64 + k"
      using 3 unfolding n64(2)[symmetric] by (simp_all add: div_less_iff_less_mult less_eq_div_iff_mult_less_eq)
    have c: "c = word_of_nat (224 + ?a) # cont_byte k # cont_byte l # r" using R utf8_3[OF e a(2,1) dig(2,1)] by simp
    show ?thesis unfolding c utf8_3_iff[OF a(1)] using R e dig 3 n_def by blast
  next
    case 4
    let ?a = "n div 64 div 64 div 64"
    have e: "unat u = ((?a * 64 + j) * 64 + k) * 64 + l" using n64 by (simp only: n_def)
    have a: "?a < 8" "1024 \<le> (?a * 64 + j) * 64 + k"
      using 4 lim unfolding n64(3)[symmetric] n64(2)[symmetric]
      by (simp_all add: div_less_iff_less_mult less_eq_div_iff_mult_less_eq n_def)
    have c: "c = word_of_nat (240 + ?a) # cont_byte j # cont_byte k # cont_byte l # r"
      using R utf8_4[OF e a(2) dig(3,2,1)] by simp
    show ?thesis unfolding c utf8_4_iff[OF a(1)] using R e dig 4 n_def by blast
  qed
qed

section \<open>Writing UTF-8\<close>

lemma cont_byte_bits: "(128 :: u8) OR (ucast (w :: u32) AND mask 6) = cont_byte (unat w)"
proof -
  have u: "unat (ucast w AND mask 6 :: u8) = unat w mod 64"
    unfolding unat_and_mask unat_ucast_to_u8 using mod_mod_cancel[of 64 256 "unat w"] by simp
  then have "ucast w AND mask 6 = (word_of_nat (unat w mod 64) :: u8)" by (metis of_nat_unat ucast_id)
  then show ?thesis
    using word_shift_or[of 6 "unat w mod 64" 2, where 'a = 8] by (simp add: cont_byte_def push_bit_eq_mult)
qed

lemma lead_bits:
  "unat (w :: u32) < 32 \<Longrightarrow> (192 :: u8) OR ucast w = word_of_nat (192 + unat w)"
  "unat w < 16 \<Longrightarrow> (224 :: u8) OR ucast w = word_of_nat (224 + unat w)"
  "unat w < 8 \<Longrightarrow> (240 :: u8) OR ucast w = word_of_nat (240 + unat w)"
proof -
  have lit: "(192 :: u8) = push_bit 5 (word_of_nat 6)" "(224 :: u8) = push_bit 4 (word_of_nat 14)"
    "(240 :: u8) = push_bit 3 (word_of_nat 30)"
    by (simp_all add: push_bit_eq_mult)
  have pow: "6 * 2 ^ 5 = (192::nat)" "14 * 2 ^ 4 = (224::nat)" "30 * 2 ^ 3 = (240::nat)" by simp_all
  have lim: "(32::nat) = 2 ^ 5" "(16::nat) = 2 ^ 4" "(8::nat) = 2 ^ 3" by simp_all
  show "unat w < 32 \<Longrightarrow> (192 :: u8) OR ucast w = word_of_nat (192 + unat w)"
    unfolding ucast_to_u8_of_nat lit lim(1) pow(1)[symmetric]
    by (subst word_shift_or) simp_all
  show "unat w < 16 \<Longrightarrow> (224 :: u8) OR ucast w = word_of_nat (224 + unat w)"
    unfolding ucast_to_u8_of_nat lit lim(2) pow(2)[symmetric]
    by (subst word_shift_or) simp_all
  show "unat w < 8 \<Longrightarrow> (240 :: u8) OR ucast w = word_of_nat (240 + unat w)"
    unfolding ucast_to_u8_of_nat lit lim(3) pow(3)[symmetric]
    by (subst word_shift_or) simp_all
qed

lemma utf8_bytes:
  assumes "is_valid_code_point u"
  shows "utf8 u =
    (if u \<le> 0x7f then [ucast u]
     else if u \<le> 0x7ff then [192 OR ucast (drop_bit 6 u), 128 OR (ucast u AND mask 6)]
     else if u \<le> 0xffff then
       [224 OR ucast (drop_bit 12 u), 128 OR (ucast (drop_bit 6 u) AND mask 6), 128 OR (ucast u AND mask 6)]
     else [240 OR ucast (drop_bit 18 u), 128 OR (ucast (drop_bit 12 u) AND mask 6),
           128 OR (ucast (drop_bit 6 u) AND mask 6), 128 OR (ucast u AND mask 6)])"
proof -
  have le: "u \<le> 0x7f \<longleftrightarrow> unat u < 0x80" "u \<le> 0x7ff \<longleftrightarrow> unat u < 0x800" "u \<le> 0xffff \<longleftrightarrow> unat u < 0x10000"
    by (auto simp: word_le_nat_alt)
  have sh: "unat (drop_bit 6 u) = unat u div 64" "unat (drop_bit 12 u) = unat u div 4096"
    "unat (drop_bit 18 u) = unat u div 262144"
    by (simp_all add: unat_drop_bit)
  note lb = lead_bits(1)[of "drop_bit 6 u", unfolded sh] lead_bits(2)[of "drop_bit 12 u", unfolded sh]
    lead_bits(3)[of "drop_bit 18 u", unfolded sh]
  note cb = cont_byte_bits[of u] cont_byte_bits[of "drop_bit 6 u", unfolded sh]
    cont_byte_bits[of "drop_bit 12 u", unfolded sh]
  have lead: "unat u < 0x800 \<Longrightarrow> unat u div 64 < 32" "unat u < 0x10000 \<Longrightarrow> unat u div 4096 < 16"
    "unat u div 262144 < 8"
    using valid_range[OF assms] by (simp_all add: div_less_iff_less_mult)
  show ?thesis
    unfolding le cb utf8_def Let_def unfolding ucast_to_u8_of_nat[of u]
    by (intro if_cong refl) (simp_all only: lb lead)
qed

lemma cbb_add_utf8_valid:
  assumes "is_valid_code_point u"
  shows "cbb_add_utf8 m c d u = (if u \<le> 0x7f then CBB_add_u8 m c d (ucast u) else add_u8s m c d (utf8 u))"
proof -
  have le: "u \<le> 0x10ffff" using valid_range[OF assms] by (simp add: word_le_nat_alt)
  show ?thesis
    unfolding cbb_add_utf8_def utf8_bytes[OF assms] masks using assms le
    by (simp only: if_True if_False simp_thms split: if_split) blast
qed

lemma emits_utf8:
  assumes "is_valid_code_point u"
  shows "emits m d (\<lambda>c. cbb_add_utf8 m c d u) (utf8 u)"
proof (cases "u \<le> 0x7f")
  case True
  then show ?thesis
    unfolding cbb_add_utf8_valid[OF assms] utf8_bytes[OF assms] by (simp only: if_True emits_u8)
next
  case False
  then show ?thesis
    unfolding cbb_add_utf8_valid[OF assms] by (simp only: if_False emits_u8s)
qed

interpretation utf8: prefix_codec utf8 cbs_get_utf8 is_valid_code_point
  by unfold_locales (auto simp: cbs_get_utf8_Some utf8_def Let_def)

section \<open>Properties\<close>


text \<open>A string of valid code points written with \<open>cbb_add_utf8\<close> is the concatenation of their
  encodings, whose length is the sum of \<open>cbb_get_utf8_len\<close>, and no other string of code points
  has the same bytes.\<close>

lemma utf8_string_unique:
  assumes "\<forall>u\<in>set us. is_valid_code_point u" "\<forall>u\<in>set vs. is_valid_code_point u"
    and "concat (map utf8 us) = concat (map utf8 vs)"
  shows "us = vs \<and> length (concat (map utf8 us)) = sum_list (map cbb_get_utf8_len us)"
proof
  show "us = vs" using assms by (rule utf8.concat_inj)
  have "length (utf8 u) = cbb_get_utf8_len u" for u
    by (auto simp: utf8_def cbb_get_utf8_len_def Let_def word_le_nat_alt)
  then show "length (concat (map utf8 us)) = sum_list (map cbb_get_utf8_len us)"
    by (simp add: length_concat comp_def)
qed

lemma utf8_string_unique_witness:
  "[0x20ac, 0x41] = [0x20ac, 0x41 :: u32] \<and>
   length (concat (map utf8 [0x20ac, 0x41])) = sum_list (map cbb_get_utf8_len [0x20ac, 0x41])"
  by (rule utf8_string_unique) (simp_all add: is_valid_code_point_def)

text \<open>Whatever \<open>cbb_add_utf8\<close> writes for a valid code point is read back by \<open>cbs_get_utf8\<close>; an
  invalid code point is refused and nothing is written.\<close>

lemma utf8_roundtrip:
  assumes "grants m" "n < 2 ^ 62"
  shows "(if is_valid_code_point u
     then \<exists>out. cbb_bytes m n (\<lambda>c. cbb_add_utf8 m c 0 u) = Some out \<and> cbs_get_utf8 (out @ r) = Some (u, r)
     else cbb_add_utf8 m c 0 u = (False, c))"
proof (cases "is_valid_code_point u")
  case True
  have "length (utf8 u) \<le> 4" by (simp add: utf8_def Let_def)
  then have "cbb_bytes m n (\<lambda>c. cbb_add_utf8 m c 0 u) = Some (utf8 u)"
    by (intro cbb_bytes_emits(2)[OF emits_utf8[OF True] _ assms]) simp
  then show ?thesis using True by (simp add: cbs_get_utf8_Some)
qed (simp add: cbb_add_utf8_def)

lemma utf8_roundtrip_witness:
  "if is_valid_code_point 0x20ac
     then \<exists>out. cbb_bytes (\<lambda>n. Some (replicate n 0)) 8 (\<lambda>c. cbb_add_utf8 (\<lambda>n. Some (replicate n 0)) c 0 0x20ac) = Some out \<and>
       cbs_get_utf8 (out @ [1]) = Some (0x20ac, [1])
     else cbb_add_utf8 (\<lambda>n. Some (replicate n 0)) CBB_zero 0 0x20ac = (False, CBB_zero)"
  by (rule utf8_roundtrip) (simp_all add: grants_replicate)

end
