(* ===== verification/Ber.thy ===== *)
theory Ber
  imports Cbs Cbb
begin

text \<open>
  \<open>crypto/bytestring/ber.c\<close>: conversion of BER to DER.

  \<open>cbs_find_ber\<close> looks for something that DER forbids, \<open>cbs_convert_ber\<close> rewrites the input
  through a CBB.  Both recurse into the contents of an element and loop over its siblings; each is
  a pair of functions here, the call with its depth check and the loop.  A result \<open>None\<close> is the
  return value 0.
\<close>

section \<open>Model\<close>

definition kMaxDepth :: nat where
  "kMaxDepth = 2048"

definition is_string_type :: "u32 \<Rightarrow> bool" where
  "is_string_type tag \<longleftrightarrow>
     tag AND NOT CBS_ASN1_CONSTRUCTED \<in>
       {CBS_ASN1_OCTETSTRING, 0xc, 0x12, 0x13, 0x14, 0x15, 0x16, 0x19, 0x1a, 0x1b, 0x1c, 0x1e}"

text \<open>Every element the BER reader returns has a header of at least two octets inside it.\<close>

lemma ber_element_parts:
  assumes "CBS_get_any_ber_asn1_element c = Some (el, r)"
  shows "2 \<le> el_header_len el" "el_header_len el \<le> length (el_out el)" "c = el_out el @ r"
proof -
  obtain tag h where t: "parse_asn1_tag c = Some (tag, h)"
    using assms by (auto simp: CBS_get_any_ber_asn1_element_def cbs_get_any_asn1_element_def bind_eq_Some_conv)
  then obtain lb h' where h: "h = lb # h'"
    using assms by (cases h) (auto simp: CBS_get_any_ber_asn1_element_def cbs_get_any_asn1_element_def)
  have c: "c = der_tag tag @ lb # h'" using t by (simp add: parse_asn1_tag_Some h)
  have hl: "2 \<le> length (der_tag tag) + 1" using length_der_tag(2)[of tag] by (simp add: Suc_le_eq)
  have "2 \<le> el_header_len el \<and> el_header_len el \<le> length (el_out el) \<and> c = el_out el @ r"
    using assms unfolding CBS_get_any_ber_asn1_element_def asn1_element_eval[OF c refl] Let_def
    using hl by (auto split: if_splits)
  then show "2 \<le> el_header_len el" "el_header_len el \<le> length (el_out el)" "c = el_out el @ r" by simp_all
qed

lemma ber_element_shorter:
  assumes "CBS_get_any_ber_asn1_element c = Some (el, r)"
  shows "length r < length c" "CBS_skip (el_out el) (el_header_len el) = Some x \<Longrightarrow> length x < length c"
  using ber_element_parts[OF assms] by (auto)

function cbs_find_ber :: "cbs \<Rightarrow> nat \<Rightarrow> bool option"
  and find_ber_loop :: "cbs \<Rightarrow> bool \<Rightarrow> nat \<Rightarrow> bool option"
where
  "cbs_find_ber orig_in depth =
     (if depth > kMaxDepth then None else find_ber_loop orig_in False depth)"
| "find_ber_loop inp ber_found depth =
     (if length inp > 0 then
        (case CBS_get_any_ber_asn1_element inp of
           None \<Rightarrow> None
         | Some (el, inp) \<Rightarrow>
             if el_ber_found el then Some True
             else if el_tag el AND CBS_ASN1_CONSTRUCTED \<noteq> 0 then
               (if is_string_type (el_tag el) then Some True
                else
                  (case CBS_skip (el_out el) (el_header_len el) of
                     None \<Rightarrow> None
                   | Some contents \<Rightarrow>
                       (case cbs_find_ber contents (depth + 1) of
                          None \<Rightarrow> None
                        | Some found \<Rightarrow> find_ber_loop inp found depth)))
             else find_ber_loop inp (el_ber_found el) depth)
      else Some ber_found)"
  by pat_completeness auto
termination
  by (relation "inv_image (less_than <*lex*> less_than)
        (\<lambda>x. case x of Inl (c, _) \<Rightarrow> (length c, 1 :: nat) | Inr (c, _, _) \<Rightarrow> (length c, 0))")
    (auto dest: ber_element_shorter simp del: CBS_skip_Some)

declare cbs_find_ber.simps [simp del] find_ber_loop.simps [simp del]

definition is_eoc :: "nat \<Rightarrow> cbs \<Rightarrow> bool" where
  "is_eoc header_len contents \<longleftrightarrow> header_len = 2 \<and> length contents = 2 \<and> memcmp contents [0, 0] 2 = 0"

text \<open>The part of the loop body that chooses where the contents go: the result, the depth of the
  handle \<open>out_contents\<close> and \<open>child_string_tag\<close>.\<close>

definition convert_open ::
  "(nat \<Rightarrow> bytes option) \<Rightarrow> cbb \<Rightarrow> nat \<Rightarrow> u32 \<Rightarrow> u32 \<Rightarrow> bool \<times> cbb \<times> nat \<times> u32" where
  "convert_open m cbb d string_tag tag =
     (if string_tag \<noteq> 0 then
        (if tag AND NOT CBS_ASN1_CONSTRUCTED \<noteq> string_tag then (False, cbb, d, string_tag)
         else (True, cbb, d, string_tag))
      else
        (let (out_tag, child_string_tag) =
               (if tag AND CBS_ASN1_CONSTRUCTED \<noteq> 0 \<and> is_string_type tag
                then (tag AND NOT CBS_ASN1_CONSTRUCTED, tag AND NOT CBS_ASN1_CONSTRUCTED)
                else (tag, string_tag));
             (ok, cbb) = CBB_add_asn1 m cbb d out_tag
         in (ok, cbb, d + 1, child_string_tag)))"

function convert_ber_loop ::
  "(nat \<Rightarrow> bytes option) \<Rightarrow> cbs \<Rightarrow> cbb \<Rightarrow> nat \<Rightarrow> u32 \<Rightarrow> bool \<Rightarrow> nat \<Rightarrow> cbs option \<times> cbb" where
  "convert_ber_loop m inp cbb d string_tag looking_for_eoc depth =
     (if length inp > 0 then
        (case CBS_get_any_ber_asn1_element inp of
           None \<Rightarrow> (None, cbb)
         | Some (el, inp) \<Rightarrow>
             if is_eoc (el_header_len el) (el_out el) then (if looking_for_eoc then Some inp else None, cbb)
             else
               (case convert_open m cbb d string_tag (el_tag el) of
                  (ok, cbb, d', child_string_tag) \<Rightarrow>
                    if \<not> ok then (None, cbb)
                    else if length (el_out el) = (el_header_len el) \<and> (el_header_len el) > 0 \<and> (el_out el) ! ((el_header_len el) - 1) = 0x80 then
                      (case (if depth + 1 > kMaxDepth then (None, cbb)
                             else convert_ber_loop m inp cbb d' child_string_tag True (depth + 1)) of
                         (res, cbb) \<Rightarrow>
                           (case res of
                              None \<Rightarrow> (None, cbb)
                            | Some inp \<Rightarrow>
                                (case CBB_flush m cbb d of
                                   (ok, cbb) \<Rightarrow>
                                     if \<not> ok then (None, cbb)
                                     else convert_ber_loop m inp cbb d string_tag looking_for_eoc depth)))
                    else
                      (case CBS_skip (el_out el) (el_header_len el) of
                         None \<Rightarrow> (None, cbb)
                       | Some contents \<Rightarrow>
                           (case (if (el_tag el) AND CBS_ASN1_CONSTRUCTED \<noteq> 0
                                  then (case (if depth + 1 > kMaxDepth then (None, cbb)
                                              else convert_ber_loop m contents cbb d' child_string_tag False (depth + 1)) of
                                          (res, cbb) \<Rightarrow> (res \<noteq> None, cbb))
                                  else CBB_add_bytes m cbb d' contents) of
                              (ok, cbb) \<Rightarrow>
                                if \<not> ok then (None, cbb)
                                else
                                  (case CBB_flush m cbb d of
                                     (ok, cbb) \<Rightarrow>
                                       if \<not> ok then (None, cbb)
                                       else convert_ber_loop m inp cbb d string_tag looking_for_eoc depth)))))
      else (if looking_for_eoc then None else Some inp, cbb))"
  by pat_completeness auto

lemma convert_ber_shrinks:
  "convert_ber_loop_dom (m, inp, cbb, d, st, eoc, depth) \<Longrightarrow>
     convert_ber_loop m inp cbb d st eoc depth = (Some r, cbb') \<Longrightarrow> length r \<le> length inp"
proof (induction m inp cbb d st eoc depth arbitrary: r cbb' rule: convert_ber_loop.pinduct)
  case (1 m inp cbb d st eoc depth)
  show ?case
  proof (cases "length inp > 0")
    case False
    then show ?thesis using "1.prems" "1.hyps" by (auto simp: convert_ber_loop.psimps split: if_splits)
  next
    case True
    then obtain el inp' where e: "CBS_get_any_ber_asn1_element inp = Some (el, inp')"
      using "1.prems" "1.hyps" by (auto simp: convert_ber_loop.psimps split: option.splits)
    define BODY where "BODY = convert_ber_loop m inp cbb d st eoc depth"
    have ps: "BODY = (Some r, cbb')" using "1.prems" by (simp add: BODY_def)
    note unf = BODY_def[unfolded convert_ber_loop.psimps[OF "1.hyps"] e if_P[OF True] option.case prod.case]
    note IH = "1.IH"[OF True e refl]
    have le: "length inp' \<le> length inp" using ber_element_shorter(1)[OF e] by simp
    show ?thesis
    proof (cases "is_eoc (el_header_len el) (el_out el)")
      case True
      then show ?thesis using ps le unfolding unf by (simp split: if_splits)
    next
      case ne: False
      obtain ok c1 d1 t1 where o: "convert_open m cbb d st (el_tag el) = (ok, c1, d1, t1)" by (cases rule: prod_cases4)
      note unf = unf[unfolded if_not_P[OF ne] o prod.case]
      have ok: "\<not> \<not> ok" using ps unfolding unf by (cases ok) simp_all
      note unf = unf[unfolded if_not_P[OF ok]]
      note IH = IH[OF ne o[symmetric] refl refl ok]
      let ?sub = "\<lambda>x b. if depth + 1 > kMaxDepth then (None, c1) else convert_ber_loop m x c1 d1 t1 b (depth + 1)"
      show ?thesis
      proof (cases "length (el_out el) = el_header_len el \<and> 0 < el_header_len el \<and> el_out el ! (el_header_len el - 1) = 0x80")
        case True
        obtain r1' c2 where r1: "?sub inp' True = (r1', c2)" by fastforce
        obtain k c3 where f: "CBB_flush m c2 d = (k, c3)" by fastforce
        from ps[unfolded unf if_P[OF True] r1 prod.case f] obtain r1 where r: "r1' = Some r1" "k"
          "convert_ber_loop m r1 c3 d st eoc depth = (Some r, cbb')"
          by (cases r1'; cases k) simp_all
        then have "\<not> kMaxDepth < depth + 1" using r1 by (auto split: if_splits)
        then show ?thesis
          using IH(1)[OF True, of r1 c2] IH(2)[OF True r1[symmetric], of r1 k c3 r cbb'] r le r1 f by simp
      next
        case False
        let ?step = "\<lambda>x. if el_tag el AND CBS_ASN1_CONSTRUCTED \<noteq> 0
           then case ?sub x False of (r, cbb) \<Rightarrow> (r \<noteq> None, cbb)
           else CBB_add_bytes m c1 d1 x"
        obtain x where x: "CBS_skip (el_out el) (el_header_len el) = Some x"
          using ps[unfolded unf if_not_P[OF False]] by (cases "CBS_skip (el_out el) (el_header_len el)") simp_all
        obtain k c2 where k: "?step x = (k, c2)" by fastforce
        obtain k' c3 where f: "CBB_flush m c2 d = (k', c3)" by fastforce
        from ps[unfolded unf if_not_P[OF False] x option.case k prod.case f] have "k" "k'"
          "convert_ber_loop m inp' c3 d st eoc depth = (Some r, cbb')"
          by (cases k; cases k'; simp)+
        then show ?thesis
          using IH(4)[OF False x k[symmetric] _ f[symmetric], of r cbb'] le by simp
      qed
    qed
  qed
qed

lemma convert_ber_shorter:
  assumes "CBS_get_any_ber_asn1_element inp = Some (el, b)"
    and "convert_ber_loop_dom (m, b, cbb, d, st, eoc, depth)"
    and "(Some r, cbb') = convert_ber_loop m b cbb d st eoc depth"
  shows "length r < length inp"
  using ber_element_shorter(1)[OF assms(1)] convert_ber_shrinks[OF assms(2) assms(3)[symmetric]] by simp

termination convert_ber_loop
  by (relation "measure (\<lambda>(m, c, _). length c)")
    (auto dest: ber_element_shorter convert_ber_shorter simp del: CBS_skip_Some split: if_splits)

declare convert_ber_loop.simps [simp del]

definition cbs_convert_ber ::
  "(nat \<Rightarrow> bytes option) \<Rightarrow> cbs \<Rightarrow> cbb \<Rightarrow> nat \<Rightarrow> u32 \<Rightarrow> bool \<Rightarrow> nat \<Rightarrow> cbs option \<times> cbb" where
  "cbs_convert_ber m inp cbb d string_tag looking_for_eoc depth =
     (if depth > kMaxDepth then (None, cbb)
      else convert_ber_loop m inp cbb d string_tag looking_for_eoc depth)"

text \<open>The result is \<open>out\<close>, \<open>out_storage\<close> and what is left of \<open>in\<close>.\<close>

definition CBS_asn1_ber_to_der :: "(nat \<Rightarrow> bytes option) \<Rightarrow> cbs \<Rightarrow> (cbs \<times> bytes option \<times> cbs) option" where
  "CBS_asn1_ber_to_der m inp =
     (case cbs_find_ber inp 0 of
        None \<Rightarrow> None
      | Some conversion_needed \<Rightarrow>
          if \<not> conversion_needed then
            (case CBS_get_any_asn1_element inp of
               None \<Rightarrow> None
             | Some (el, inp) \<Rightarrow> Some (el_out el, None, inp))
          else
            (case CBB_init m (length inp) of
               (False, cbb) \<Rightarrow> None
             | (True, cbb) \<Rightarrow>
                 (case cbs_convert_ber m inp cbb 0 0 False 0 of
                    (None, cbb) \<Rightarrow> None
                  | (Some inp, cbb) \<Rightarrow>
                      (case CBB_finish m cbb 0 False of
                         (None, cbb) \<Rightarrow> None
                       | (Some storage, cbb) \<Rightarrow> Some (storage, Some storage, inp)))))"

function implicit_string_chunks :: "(nat \<Rightarrow> bytes option) \<Rightarrow> cbs \<Rightarrow> cbb \<Rightarrow> u32 \<Rightarrow> bool \<times> cbb" where
  "implicit_string_chunks m child result inner_tag =
     (if length child > 0 then
        (case CBS_get_asn1 child inner_tag of
           None \<Rightarrow> (False, result)
         | Some (chunk, child) \<Rightarrow>
             cbb_then (CBB_add_bytes m result 0 chunk)
               (\<lambda>result. implicit_string_chunks m child result inner_tag))
      else (True, result))"
  by auto
termination
  by (relation "measure (\<lambda>(m, child, result, inner_tag). length child)")
    (auto simp: CBS_get_asn1_def cbs_get_asn1_def bind_eq_Some_conv CBS_get_any_asn1_element_def[symmetric]
      dest!: CBS_get_any_asn1_element_shorter split: if_splits)

declare implicit_string_chunks.simps [simp del]

definition CBS_get_asn1_implicit_string ::
  "(nat \<Rightarrow> bytes option) \<Rightarrow> cbs \<Rightarrow> u32 \<Rightarrow> u32 \<Rightarrow> (cbs \<times> bytes option \<times> cbs) option" where
  "CBS_get_asn1_implicit_string m inp outer_tag inner_tag =
     (if CBS_peek_asn1_tag inp outer_tag then
        (case CBS_get_asn1 inp outer_tag of
           None \<Rightarrow> None
         | Some (out, inp) \<Rightarrow> Some (out, None, inp))
      else
        (case CBB_init m (length inp) of
           (False, result) \<Rightarrow> None
         | (True, result) \<Rightarrow>
             (case CBS_get_asn1 inp (outer_tag OR CBS_ASN1_CONSTRUCTED) of
                None \<Rightarrow> None
              | Some (child, inp) \<Rightarrow>
                  (case implicit_string_chunks m child result inner_tag of
                     (False, result) \<Rightarrow> None
                   | (True, result) \<Rightarrow>
                       (case CBB_finish m result 0 False of
                          (None, result) \<Rightarrow> None
                        | (Some data, result) \<Rightarrow> Some (data, Some data, inp))))))"

section \<open>BER values as trees\<close>

text \<open>A BER element: primitive, constructed with a definite length, constructed with an indefinite
  length.  The number in a definite element is the count of length octets after the first, 0 for
  the short form; it need not be minimal.\<close>

datatype ber =
    Prim u32 nat bytes
  | Constr u32 nat "ber list"
  | Indef u32 "ber list"

definition ber_len :: "nat \<Rightarrow> nat \<Rightarrow> bytes" where
  "ber_len k n = (if k = 0 then [word_of_nat n] else word_of_nat (128 + k) # be_bytes k n)"

definition len_ok :: "nat \<Rightarrow> nat \<Rightarrow> bool" where
  "len_ok k n \<longleftrightarrow> (if k = 0 then n < 128 else k \<le> 4 \<and> n < 256 ^ k)"

fun ber_enc :: "ber \<Rightarrow> bytes" where
  "ber_enc (Prim t k b) = der_tag t @ ber_len k (length b) @ b"
| "ber_enc (Constr t k ts) =
     (let b = concat (map ber_enc ts) in der_tag t @ ber_len k (length b) @ b)"
| "ber_enc (Indef t ts) = der_tag t @ [0x80] @ concat (map ber_enc ts) @ [0, 0]"

text \<open>The string tag that applies inside an element, and the DER encoding of its conversion.\<close>

definition inner_tag :: "u32 \<Rightarrow> u32 \<Rightarrow> u32" where
  "inner_tag st t = (if st \<noteq> 0 then st else if is_string_type t then t AND NOT CBS_ASN1_CONSTRUCTED else 0)"

definition outer_tag :: "u32 \<Rightarrow> u32" where
  "outer_tag t = (if is_string_type t then t AND NOT CBS_ASN1_CONSTRUCTED else t)"

definition wrap :: "u32 \<Rightarrow> u32 \<Rightarrow> bytes \<Rightarrow> bytes" where
  "wrap st t body = (if st \<noteq> 0 then body else der_tlv (outer_tag t) body)"

fun to_der :: "u32 \<Rightarrow> ber \<Rightarrow> bytes" where
  "to_der st (Prim t k b) = (if st \<noteq> 0 then b else der_tlv t b)"
| "to_der st (Constr t k ts) = wrap st t (concat (map (to_der (inner_tag st t)) ts))"
| "to_der st (Indef t ts) = wrap st t (concat (map (to_der (inner_tag st t)) ts))"

definition tag_ok :: "u32 \<Rightarrow> u32 \<Rightarrow> bool" where
  "tag_ok st t \<longleftrightarrow> st = 0 \<or> t AND NOT CBS_ASN1_CONSTRUCTED = st"

fun ber_wf :: "u32 \<Rightarrow> ber \<Rightarrow> bool" where
  "ber_wf st (Prim t k b) \<longleftrightarrow>
     t AND CBS_ASN1_CONSTRUCTED = 0 \<and> tag_ok st t \<and> len_ok k (length b) \<and> \<not> (t = 0 \<and> k = 0 \<and> b = [])"
| "ber_wf st (Constr t k ts) \<longleftrightarrow>
     t AND CBS_ASN1_CONSTRUCTED \<noteq> 0 \<and> tag_ok st t \<and> len_ok k (length (concat (map ber_enc ts))) \<and>
     list_all (ber_wf (inner_tag st t)) ts"
| "ber_wf st (Indef t ts) \<longleftrightarrow>
     t AND CBS_ASN1_CONSTRUCTED \<noteq> 0 \<and> tag_ok st t \<and> list_all (ber_wf (inner_tag st t)) ts"

fun height :: "ber \<Rightarrow> nat" where
  "height (Prim t k b) = 0"
| "height (Constr t k ts) = Suc (foldr max (map height ts) 0)"
| "height (Indef t ts) = Suc (foldr max (map height ts) 0)"

section \<open>Reading one element of a tree\<close>

lemma le_foldr_max: "x \<in> set xs \<Longrightarrow> x \<le> foldr max xs (0 :: nat)"
proof (induction xs)
  case (Cons y xs)
  then show ?case by (cases "x = y") (simp_all add: max.coboundedI2)
qed simp

lemma ber_definite:
  assumes "len_ok k (length b)"
  shows "CBS_get_any_ber_asn1_element (der_tag t @ ber_len k (length b) @ b @ r) =
    Some (\<lparr>el_out = der_tag t @ ber_len k (length b) @ b, el_tag = t,
           el_header_len = length (der_tag t @ ber_len k (length b)),
           el_ber_found = (k \<noteq> 0 \<and> \<not> minimal_len k (length b))\<rparr>, r)"
proof (cases "k = 0")
  case True
  then have n: "length b < 128" using assms(1) by (simp add: len_ok_def)
  define lb :: u8 where "lb = word_of_nat (length b)"
  have u: "unat lb = length b" unfolding lb_def using n by (intro nat_u8_digit) simp
  have l: "ber_len k (length b) = [lb]" by (simp add: ber_len_def True lb_def)
  have c: "der_tag t @ ber_len k (length b) @ b @ r = der_tag t @ lb # b @ r" by (simp add: l)
  show ?thesis
    unfolding CBS_get_any_ber_asn1_element_def asn1_element_eval[OF c refl] unfolding l using u n by (simp add: True)
next
  case False
  then have n: "k \<le> 4" "length b < 256 ^ k" using assms(1) by (auto simp: len_ok_def)
  define lb :: u8 where "lb = word_of_nat (128 + k)"
  have u: "unat lb = 128 + k" unfolding lb_def using n by (intro nat_u8_digit) simp
  define p where "p = be_bytes k (length b)"
  have v: "be_val p = length b" "length p = k" using n by (simp_all add: p_def be_val_be_bytes)
  have l: "ber_len k (length b) = lb # p" using False by (simp add: ber_len_def lb_def p_def)
  have c: "der_tag t @ ber_len k (length b) @ b @ r = der_tag t @ lb # p @ b @ r" by (simp add: l)
  show ?thesis
    unfolding CBS_get_any_ber_asn1_element_def asn1_element_eval[OF c refl] Let_def unfolding l using u n False v by simp
qed

lemma ber_indefinite:
  assumes "t AND CBS_ASN1_CONSTRUCTED \<noteq> 0"
  shows "CBS_get_any_ber_asn1_element (der_tag t @ 0x80 # r) =
    Some (\<lparr>el_out = der_tag t @ [0x80], el_tag = t, el_header_len = length (der_tag t) + 1,
           el_ber_found = True\<rparr>, r)"
  unfolding CBS_get_any_ber_asn1_element_def
  by (subst asn1_element_eval[OF refl refl]) (use assms in simp)


lemma der_tag_0: "der_tag 0 = [0]"
  by (simp add: der_tag_def)

lemma der_tag_append_eq_zero: "der_tag t @ x = [0, 0] \<Longrightarrow> t = 0 \<and> x = [0]"
  using parse_asn1_tag_Some[of "[0, 0]" t x] parse_asn1_tag_Some[of "[0, 0]" 0 "[0]"] der_tag_0
  by (metis append_Cons append_Nil option.inject prod.inject)

lemma is_eoc_iff: "is_eoc h c \<longleftrightarrow> h = 2 \<and> c = [0, 0]"
proof
  assume "is_eoc h c"
  then have e: "h = 2" "length c = 2" "memcmp c [0, 0] 2 = 0" by (simp_all add: is_eoc_def)
  then obtain a b where "c = [a, b]" by (auto simp: length_Suc_conv numeral_2_eq_2)
  then show "h = 2 \<and> c = [0, 0]" using e(1,3) by (auto simp: numeral_2_eq_2 simp flip: word_neq_0_conv split: if_splits)
qed (simp add: is_eoc_def numeral_2_eq_2)

lemma ber_eoc: "CBS_get_any_ber_asn1_element (0 # 0 # r) =
  Some (\<lparr>el_out = [0, 0], el_tag = 0, el_header_len = 2, el_ber_found = False\<rparr>, r)"
  using ber_definite[of 0 "[]" 0 r] by (simp add: len_ok_def ber_len_def der_tag_0 numeral_2_eq_2)

text \<open>The last header octet of a definite element is 0x80 only when contents follow.\<close>

lemma not_indefinite:
  assumes "len_ok k n" "h = der_tag t @ ber_len k n" "length (h @ b) = length h" "length b = n"
  shows "(h @ b) ! (length h - 1) \<noteq> 0x80"
proof -
  have "b = []" "n = 0" using assms(3,4) by auto
  have "last (ber_len k 0) = 0 \<and> ber_len k 0 \<noteq> []"
  proof (cases k)
    case (Suc j)
    then show ?thesis by (simp add: ber_len_def be_bytes_snoc del: be_bytes.simps)
  qed (simp add: ber_len_def)
  then have "last h = 0" "h \<noteq> []" using assms(2) \<open>n = 0\<close> by simp_all
  then show ?thesis using \<open>b = []\<close> by (simp add: last_conv_nth)
qed

lemma convert_ber_loop_eoc: "convert_ber_loop m (0 # 0 # r) c d st True depth = (Some r, c)"
  by (subst convert_ber_loop.simps) (simp add: ber_eoc is_eoc_iff)

lemma convert_ber_loop_Nil: "convert_ber_loop m [] c d st eoc depth = (if eoc then None else Some [], c)"
  by (subst convert_ber_loop.simps) simp


section \<open>Converting a tree\<close>

text \<open>\<open>converts\<close>: on the encoding \<open>e\<close> the loop writes \<open>out\<close> and goes on with what follows.\<close>

definition converts :: "(nat \<Rightarrow> bytes option) \<Rightarrow> nat \<Rightarrow> u32 \<Rightarrow> nat \<Rightarrow> bytes \<Rightarrow> bytes \<Rightarrow> bool" where
  "converts m d st depth e out \<longleftrightarrow>
     (\<exists>w. emits m d w out \<and>
        (\<forall>c tail eoc. convert_ber_loop m (e @ tail) c d st eoc depth =
           (if fst (w c) then convert_ber_loop m tail (snd (w c)) d st eoc depth else (None, snd (w c)))))"

lemma emits_skip: "emits m d (\<lambda>c. (True, c)) []"
proof (rule emitsI)
  fix c b assume "leaf c d b"
  then show "appended c b [] (snd (True, c))"
    unfolding appended_def leaf_def by (intro exI[of _ b]) simp
qed simp

lemma emits_flush: "emits m d (\<lambda>c. CBB_flush m c d) []"
  using emits_skip[of m d] unfolding emits_def by (auto simp: CBB_flush_leaf)

lemma converts_Nil: "converts m d st depth [] []"
  unfolding converts_def by (intro exI[of _ "\<lambda>c. (True, c)"]) (simp add: emits_skip)

lemma converts_append:
  assumes "converts m d st depth e1 o1" "converts m d st depth e2 o2"
  shows "converts m d st depth (e1 @ e2) (o1 @ o2)"
proof -
  obtain w1 w2 where w: "emits m d w1 o1" "emits m d w2 o2"
    "\<And>c tail eoc. convert_ber_loop m (e1 @ tail) c d st eoc depth =
       (if fst (w1 c) then convert_ber_loop m tail (snd (w1 c)) d st eoc depth else (None, snd (w1 c)))"
    "\<And>c tail eoc. convert_ber_loop m (e2 @ tail) c d st eoc depth =
       (if fst (w2 c) then convert_ber_loop m tail (snd (w2 c)) d st eoc depth else (None, snd (w2 c)))"
    using assms unfolding converts_def by blast
  show ?thesis
    unfolding converts_def using emits_then[OF w(1,2)] w(3,4)
    by (intro exI[of _ "\<lambda>c. cbb_then (w1 c) w2"]) (auto simp: cbb_then_def split: prod.splits)
qed

lemma converts_concat:
  "(\<And>t. t \<in> set ts \<Longrightarrow> converts m d st depth (f t) (g t)) \<Longrightarrow>
   converts m d st depth (concat (map f ts)) (concat (map g ts))"
  by (induction ts) (simp_all add: converts_Nil converts_append)

text \<open>The frame around the contents: nothing inside a constructed string, else a child element.\<close>

definition framed ::
  "(nat \<Rightarrow> bytes option) \<Rightarrow> nat \<Rightarrow> u32 \<Rightarrow> u32 \<Rightarrow> (cbb \<Rightarrow> bool \<times> cbb) \<Rightarrow> cbb \<Rightarrow> bool \<times> cbb" where
  "framed m d st t w =
     (if st \<noteq> 0 then (\<lambda>c. cbb_then (w c) (\<lambda>c. CBB_flush m c d))
      else in_child m d (\<lambda>c. CBB_add_asn1 m c d (outer_tag t)) w)"

abbreviation inner_depth :: "u32 \<Rightarrow> nat \<Rightarrow> nat" where
  "inner_depth st d \<equiv> (if st \<noteq> 0 then d else Suc d)"

lemma emits_framed:
  assumes "emits m (inner_depth st d) w body" "length (wrap st t body) \<le> 0xfffffffe"
  shows "emits m d (framed m d st t w) (wrap st t body)"
proof (cases "st = 0")
  case True
  have "length body \<le> 0xfffffffe" using assms(2) True by (simp add: wrap_def der_tlv_def)
  then show ?thesis
    using emits_in_child[OF opens_asn1, of m d w body "outer_tag t"] assms(1) True
    by (simp add: framed_def wrap_def der_tlv_def)
next
  case False
  then show ?thesis
    using emits_then[OF _ emits_flush, of m d w body] assms(1) by (simp add: framed_def wrap_def)
qed

lemma and_not_bit:
  assumes "t AND c = 0"
  shows "t AND NOT c = (t :: 'a :: len word)"
proof (rule bit_word_eqI)
  fix n
  have "\<not> bit (t AND c) n" using assms by simp
  then show "bit (t AND NOT c) n = bit t n" if "n < LENGTH('a)" using that by (auto simp: bit_simps)
qed

lemma outer_tag_primitive: "t AND CBS_ASN1_CONSTRUCTED = 0 \<Longrightarrow> outer_tag t = t"
  unfolding outer_tag_def by (simp only: and_not_bit if_cancel)

abbreviation child_tag :: "u32 \<Rightarrow> u32 \<Rightarrow> u32" where
  "child_tag st t \<equiv> (if st \<noteq> 0 then st else if t AND CBS_ASN1_CONSTRUCTED \<noteq> 0 then inner_tag st t else 0)"

lemma convert_open_eq:
  assumes "tag_ok st t"
  shows "convert_open m c d st t =
    (if st \<noteq> 0 then (True, c, d, st)
     else (case CBB_add_asn1 m c d (outer_tag t) of (ok, c) \<Rightarrow> (ok, c, Suc d, child_tag st t)))"
  using assms outer_tag_primitive[of t]
  by (auto simp: convert_open_def tag_ok_def inner_tag_def outer_tag_def split: prod.splits)

lemma framed_eval:
  "framed m d st t w c =
    (case (if st \<noteq> 0 then (True, c) else CBB_add_asn1 m c d (outer_tag t)) of (ok, c) \<Rightarrow>
       if \<not> ok then (False, c)
       else (case w c of (ok, c) \<Rightarrow> if \<not> ok then (False, c) else CBB_flush m c d))"
  by (auto simp: framed_def in_child_def cbb_then_def split: prod.splits)

lemma convert_open_framed:
  assumes "tag_ok st t"
  shows "convert_open m c d st t =
    (case (if st \<noteq> 0 then (True, c) else CBB_add_asn1 m c d (outer_tag t)) of (ok, c) \<Rightarrow>
       (ok, c, inner_depth st d, child_tag st t))"
  unfolding convert_open_eq[OF assms] by simp

lemma loop_element:
  assumes e: "CBS_get_any_ber_asn1_element e = Some (el, r)" and n: "\<not> is_eoc (el_header_len el) (el_out el)"
  shows "convert_ber_loop m e c d st eoc depth =
    (case convert_open m c d st (el_tag el) of (ok, c, d', ct) \<Rightarrow>
      if \<not> ok then (None, c)
      else if length (el_out el) = el_header_len el \<and> el_header_len el > 0 \<and> el_out el ! (el_header_len el - 1) = 0x80 then
        (case (if depth + 1 > kMaxDepth then (None, c) else convert_ber_loop m r c d' ct True (depth + 1)) of
           (res, c) \<Rightarrow> (case res of None \<Rightarrow> (None, c) | Some r \<Rightarrow>
             (case CBB_flush m c d of (ok, c) \<Rightarrow> if \<not> ok then (None, c) else convert_ber_loop m r c d st eoc depth)))
      else (case CBS_skip (el_out el) (el_header_len el) of None \<Rightarrow> (None, c) | Some contents \<Rightarrow>
        (case (if el_tag el AND CBS_ASN1_CONSTRUCTED \<noteq> 0
               then (case (if depth + 1 > kMaxDepth then (None, c)
                           else convert_ber_loop m contents c d' ct False (depth + 1)) of (res, c) \<Rightarrow> (res \<noteq> None, c))
               else CBB_add_bytes m c d' contents) of
           (ok, c) \<Rightarrow> if \<not> ok then (None, c)
             else (case CBB_flush m c d of (ok, c) \<Rightarrow> if \<not> ok then (None, c) else convert_ber_loop m r c d st eoc depth))))"
proof -
  have "length e > 0" using ber_element_shorter(1)[OF e] by (cases e) simp_all
  then show ?thesis
    by (subst convert_ber_loop.simps) (simp only: if_True e option.case prod.case n if_False)
qed

lemma skip_append: "CBS_skip (h @ b) (length h) = Some b"
  by (simp add: CBS_skip_Some)

lemma loop_definite:
  assumes k: "len_ok k (length b)" and t: "tag_ok st t"
    and n: "\<not> (t = 0 \<and> k = 0 \<and> b = [])"
    and w: "\<And>c. (if t AND CBS_ASN1_CONSTRUCTED \<noteq> 0
         then (case (if depth + 1 > kMaxDepth then (None, c)
                     else convert_ber_loop m b c (inner_depth st d) (child_tag st t) False (depth + 1)) of
                 (res, c) \<Rightarrow> (res \<noteq> None, c))
         else CBB_add_bytes m c (inner_depth st d) b) = w c"
  shows "convert_ber_loop m ((der_tag t @ ber_len k (length b) @ b) @ tail) c d st eoc depth =
    (if fst (framed m d st t w c) then convert_ber_loop m tail (snd (framed m d st t w c)) d st eoc depth
     else (None, snd (framed m d st t w c)))"
proof -
  let ?h = "der_tag t @ ber_len k (length b)"
  have e: "(der_tag t @ ber_len k (length b) @ b) @ tail = der_tag t @ ber_len k (length b) @ b @ tail" by simp
  have ne: "\<not> is_eoc (length ?h) (?h @ b)"
  proof
    assume "is_eoc (length ?h) (?h @ b)"
    then have h: "length ?h = 2" "?h @ b = [0, 0]" by (simp_all only: is_eoc_iff)
    then have "length b = 0" by (metis add_cancel_right_right length_Cons length_append list.size(3) numeral_2_eq_2)
    then have "b = []" "der_tag t @ ber_len k 0 = [0, 0]" using h(2) by simp_all
    then show False using der_tag_append_eq_zero[of t "ber_len k 0"] n by (cases k) (auto simp: ber_len_def)
  qed
  have ni: "\<not> (length (?h @ b) = length ?h \<and> length ?h > 0 \<and> (?h @ b) ! (length ?h - 1) = 0x80)"
    using not_indefinite[OF k refl, of t b] by blast
  note L = loop_element[OF ber_definite[OF k, of t tail], where m = m and c = c and d = d and st = st and eoc = eoc and depth = depth, unfolded asn1_element.simps append_assoc[symmetric],
      OF ne, unfolded if_not_P[OF ni] skip_append option.case]
  obtain k1 c1 where a: "(if st \<noteq> 0 then (True, c) else CBB_add_asn1 m c d (outer_tag t)) = (k1, c1)" by fastforce
  obtain k2 c2 where b: "w c1 = (k2, c2)" by fastforce
  obtain k3 c3 where f: "CBB_flush m c2 d = (k3, c3)" by fastforce
  show ?thesis
    unfolding append_assoc[symmetric] L convert_open_framed[OF t] framed_eval a prod.case w b f
    by (cases k1; cases k2; cases k3) simp_all
qed

lemma loop_indefinite:
  assumes t: "t AND CBS_ASN1_CONSTRUCTED \<noteq> 0" "tag_ok st t"
    and w: "\<And>c. (if depth + 1 > kMaxDepth then (None, c)
          else convert_ber_loop m (b @ 0 # 0 # tail) c (inner_depth st d) (child_tag st t) True (depth + 1)) =
        (if fst (w c) then Some tail else None, snd (w c))"
  shows "convert_ber_loop m ((der_tag t @ [0x80] @ b @ [0, 0]) @ tail) c d st eoc depth =
    (if fst (framed m d st t w c) then convert_ber_loop m tail (snd (framed m d st t w c)) d st eoc depth
     else (None, snd (framed m d st t w c)))"
proof -
  let ?h = "der_tag t @ [0x80]"
  have e: "(der_tag t @ [0x80] @ b @ [0, 0]) @ tail = der_tag t @ 0x80 # b @ 0 # 0 # tail" by simp
  have ne: "\<not> is_eoc (length (der_tag t) + 1) ?h"
    using der_tag_append_eq_zero[of t "[0x80]"] by (auto simp: is_eoc_iff)
  have i: "length ?h = length (der_tag t) + 1 \<and> length (der_tag t) + 1 > 0 \<and> ?h ! (length (der_tag t) + 1 - 1) = 0x80"
    by (simp add: nth_append)
  note L = loop_element[OF ber_indefinite[OF t(1), of "b @ 0 # 0 # tail"], where m = m and c = c and d = d and st = st and eoc = eoc and depth = depth, unfolded asn1_element.simps,
      OF ne, unfolded if_P[OF i]]
  obtain k1 c1 where a: "(if st \<noteq> 0 then (True, c) else CBB_add_asn1 m c d (outer_tag t)) = (k1, c1)" by fastforce
  obtain k2 c2 where b: "w c1 = (k2, c2)" by fastforce
  obtain k3 c3 where f: "CBB_flush m c2 d = (k3, c3)" by fastforce
  show ?thesis
    unfolding e L convert_open_framed[OF t(2)] framed_eval a prod.case w b fst_conv snd_conv
    by (cases k1; cases k2; cases k3) (simp_all add: f)
qed

text \<open>The conversion of a well-formed tree within the depth limit writes its DER encoding.\<close>

lemma length_wrap: "length body \<le> length (wrap st t body)"
  by (simp add: wrap_def der_tlv_def)

lemma length_concat_member: "x \<in> set xs \<Longrightarrow> length (f x) \<le> length (concat (map f xs))"
  by (induction xs) auto

lemma converts_children:
  assumes "\<And>x d depth. x \<in> set ts \<Longrightarrow> ber_wf ct x \<Longrightarrow> depth + height x \<le> kMaxDepth \<Longrightarrow>
      length (to_der ct x) \<le> 0xfffffffe \<Longrightarrow> converts m d ct depth (ber_enc x) (to_der ct x)"
    and "list_all (ber_wf ct) ts" "depth + foldr max (map height ts) 0 \<le> kMaxDepth"
    and "length (concat (map (to_der ct) ts)) \<le> 0xfffffffe"
  shows "converts m d ct depth (concat (map ber_enc ts)) (concat (map (to_der ct) ts))"
proof (rule converts_concat)
  fix x assume x: "x \<in> set ts"
  have "height x \<le> foldr max (map height ts) 0" using x by (intro le_foldr_max) simp
  then show "converts m d ct depth (ber_enc x) (to_der ct x)"
    using assms x length_concat_member[OF x, of "to_der ct"] by (auto simp: list_all_iff)
qed

lemma child_tag_constructed:
  "t AND CBS_ASN1_CONSTRUCTED \<noteq> 0 \<Longrightarrow> child_tag st t = inner_tag st t"
  by (simp add: inner_tag_def)

lemma converts_tree:
  assumes "ber_wf st x" "depth + height x \<le> kMaxDepth" "length (to_der st x) \<le> 0xfffffffe"
  shows "converts m d st depth (ber_enc x) (to_der st x)"
  using assms
proof (induction x arbitrary: st d depth)
  case (Prim t k b)
  let ?w = "\<lambda>c. CBB_add_bytes m c (inner_depth st d) b"
  have o: "to_der st (Prim t k b) = wrap st t b" using Prim.prems by (simp add: wrap_def outer_tag_primitive)
  have "emits m d (framed m d st t ?w) (wrap st t b)"
    using Prim.prems(3) unfolding o by (intro emits_framed emits_bytes)
  moreover have "convert_ber_loop m (ber_enc (Prim t k b) @ tail) c d st eoc depth =
      (if fst (framed m d st t ?w c) then convert_ber_loop m tail (snd (framed m d st t ?w c)) d st eoc depth
       else (None, snd (framed m d st t ?w c)))" for c tail eoc
    unfolding ber_enc.simps using Prim.prems by (intro loop_definite) simp_all
  ultimately show ?case unfolding converts_def o by blast
next
  case (Constr t k ts)
  let ?ct = "inner_tag st t" let ?d = "inner_depth st d"
  let ?b = "concat (map ber_enc ts)" let ?o = "concat (map (to_der ?ct) ts)"
  have p: "t AND CBS_ASN1_CONSTRUCTED \<noteq> 0" "tag_ok st t" "len_ok k (length ?b)" "list_all (ber_wf ?ct) ts"
    "depth + 1 + foldr max (map height ts) 0 \<le> kMaxDepth" "length (wrap st t ?o) \<le> 0xfffffffe"
    using Constr.prems by simp_all
  have "converts m ?d ?ct (depth + 1) ?b ?o"
    using p length_wrap[of ?o st t] by (intro converts_children Constr.IH) auto
  then obtain w where w: "emits m ?d w ?o" "\<And>c tail eoc. convert_ber_loop m (?b @ tail) c ?d ?ct eoc (depth + 1) =
      (if fst (w c) then convert_ber_loop m tail (snd (w c)) ?d ?ct eoc (depth + 1) else (None, snd (w c)))"
    unfolding converts_def by blast
  have "convert_ber_loop m (ber_enc (Constr t k ts) @ tail) c d st eoc depth =
      (if fst (framed m d st t w c) then convert_ber_loop m tail (snd (framed m d st t w c)) d st eoc depth
       else (None, snd (framed m d st t w c)))" for c tail eoc
    unfolding ber_enc.simps Let_def
  proof (intro loop_definite p)
    show "\<not> (t = 0 \<and> k = 0 \<and> ?b = [])" using p(1) by auto
    fix c
    have "(case convert_ber_loop m ?b c ?d ?ct False (depth + 1) of (res, c) \<Rightarrow> (res \<noteq> None, c)) = w c"
      using w(2)[of "[]" c False] by (simp add: convert_ber_loop_Nil split: if_splits) (metis prod.collapse)+
    then show "(if t AND CBS_ASN1_CONSTRUCTED \<noteq> 0
         then (case (if depth + 1 > kMaxDepth then (None, c)
                     else convert_ber_loop m ?b c ?d (child_tag st t) False (depth + 1)) of
                 (res, c) \<Rightarrow> (res \<noteq> None, c))
         else CBB_add_bytes m c ?d ?b) = w c"
      unfolding child_tag_constructed[OF p(1)] using p(1,5) by simp
  qed
  moreover have "emits m d (framed m d st t w) (wrap st t ?o)" by (rule emits_framed[OF w(1) p(6)])
  ultimately show ?case unfolding converts_def to_der.simps by blast
next
  case (Indef t ts)
  let ?ct = "inner_tag st t" let ?d = "inner_depth st d"
  let ?b = "concat (map ber_enc ts)" let ?o = "concat (map (to_der ?ct) ts)"
  have p: "t AND CBS_ASN1_CONSTRUCTED \<noteq> 0" "tag_ok st t" "list_all (ber_wf ?ct) ts"
    "depth + 1 + foldr max (map height ts) 0 \<le> kMaxDepth" "length (wrap st t ?o) \<le> 0xfffffffe"
    using Indef.prems by simp_all
  have "converts m ?d ?ct (depth + 1) ?b ?o"
    using p length_wrap[of ?o st t] by (intro converts_children Indef.IH) auto
  then obtain w where w: "emits m ?d w ?o" "\<And>c tail eoc. convert_ber_loop m (?b @ tail) c ?d ?ct eoc (depth + 1) =
      (if fst (w c) then convert_ber_loop m tail (snd (w c)) ?d ?ct eoc (depth + 1) else (None, snd (w c)))"
    unfolding converts_def by blast
  have "convert_ber_loop m (ber_enc (Indef t ts) @ tail) c d st eoc depth =
      (if fst (framed m d st t w c) then convert_ber_loop m tail (snd (framed m d st t w c)) d st eoc depth
       else (None, snd (framed m d st t w c)))" for c tail eoc
    unfolding ber_enc.simps
  proof (intro loop_indefinite p)
    fix c
    show "(if depth + 1 > kMaxDepth then (None, c)
          else convert_ber_loop m (?b @ 0 # 0 # tail) c ?d (child_tag st t) True (depth + 1)) =
        (if fst (w c) then Some tail else None, snd (w c))"
      unfolding child_tag_constructed[OF p(1)] w(2) using p(4) by (simp add: convert_ber_loop_eoc)
  qed
  moreover have "emits m d (framed m d st t w) (wrap st t ?o)" by (rule emits_framed[OF w(1) p(5)])
  ultimately show ?case unfolding converts_def to_der.simps by blast
qed


lemma cbs_convert_ber_tree:
  assumes "\<forall>x\<in>set xs. ber_wf 0 x \<and> height x \<le> kMaxDepth"
    and "length (concat (map (to_der 0) xs)) \<le> 0xfffffffe"
  obtains w where "emits m 0 w (concat (map (to_der 0) xs))"
    "\<And>c. cbs_convert_ber m (concat (map ber_enc xs)) c 0 0 False 0 = (if fst (w c) then Some [] else None, snd (w c))"
proof -
  have "converts m 0 0 0 (concat (map ber_enc xs)) (concat (map (to_der 0) xs))"
  proof (rule converts_concat)
    fix x assume x: "x \<in> set xs"
    then show "converts m 0 0 0 (ber_enc x) (to_der 0 x)"
      using assms length_concat_member[OF x, of "to_der 0"] by (intro converts_tree) auto
  qed
  then obtain w where w: "emits m 0 w (concat (map (to_der 0) xs))"
    "\<And>c tail eoc. convert_ber_loop m (concat (map ber_enc xs) @ tail) c 0 0 eoc 0 =
      (if fst (w c) then convert_ber_loop m tail (snd (w c)) 0 0 eoc 0 else (None, snd (w c)))"
    unfolding converts_def by blast
  show ?thesis
    by (rule that[OF w(1)]) (use w(2)[of "[]" _ False] in \<open>simp add: cbs_convert_ber_def convert_ber_loop_Nil\<close>)
qed

section \<open>Looking for BER\<close>

text \<open>What the element itself shows, before its contents are read.\<close>

fun shows_ber :: "ber \<Rightarrow> bool" where
  "shows_ber (Prim t k b) \<longleftrightarrow> k \<noteq> 0 \<and> \<not> minimal_len k (length b)"
| "shows_ber (Constr t k ts) \<longleftrightarrow>
     (k \<noteq> 0 \<and> \<not> minimal_len k (length (concat (map ber_enc ts)))) \<or> is_string_type t"
| "shows_ber (Indef t ts) \<longleftrightarrow> True"

fun has_ber :: "ber \<Rightarrow> bool" where
  "has_ber (Prim t k b) \<longleftrightarrow> shows_ber (Prim t k b)"
| "has_ber (Constr t k ts) \<longleftrightarrow> shows_ber (Constr t k ts) \<or> (\<exists>x\<in>set ts. has_ber x)"
| "has_ber (Indef t ts) \<longleftrightarrow> True"

fun scan_ber :: "ber list \<Rightarrow> bool \<Rightarrow> bool" where
  "scan_ber [] f = f"
| "scan_ber (Prim t k b # xs) f = (shows_ber (Prim t k b) \<or> scan_ber xs False)"
| "scan_ber (Constr t k ts # xs) f = (shows_ber (Constr t k ts) \<or> scan_ber xs (scan_ber ts False))"
| "scan_ber (Indef t ts # xs) f = True"

lemma find_element:
  assumes "CBS_get_any_ber_asn1_element e = Some (el, r)"
  shows "find_ber_loop e f depth =
    (if el_ber_found el then Some True
     else if el_tag el AND CBS_ASN1_CONSTRUCTED \<noteq> 0 then
       (if is_string_type (el_tag el) then Some True
        else (case CBS_skip (el_out el) (el_header_len el) of None \<Rightarrow> None | Some contents \<Rightarrow>
          (case cbs_find_ber contents (depth + 1) of None \<Rightarrow> None | Some found \<Rightarrow> find_ber_loop r found depth)))
     else find_ber_loop r (el_ber_found el) depth)"
proof -
  have "length e > 0" using ber_element_shorter(1)[OF assms] by (cases e) simp_all
  then show ?thesis
    by (subst find_ber_loop.simps) (simp only: if_True assms option.case prod.case)
qed

lemma find_ber_loop_scan:
  assumes "\<forall>x\<in>set xs. ber_wf st x \<and> depth + height x \<le> kMaxDepth"
  shows "find_ber_loop (concat (map ber_enc xs)) f depth = Some (scan_ber xs f)"
  using assms
proof (induction xs f arbitrary: depth st rule: scan_ber.induct)
  case (1 f)
  then show ?case by (simp add: find_ber_loop.simps)
next
  case (2 t k b xs f)
  then have k: "len_ok k (length b)" "t AND CBS_ASN1_CONSTRUCTED = 0" by simp_all
  have e: "concat (map ber_enc (Prim t k b # xs)) = der_tag t @ ber_len k (length b) @ b @ concat (map ber_enc xs)" by simp
  show ?case
    unfolding e find_element[OF ber_definite[OF k(1)]] asn1_element.simps
    using k(2) "2.prems" "2.IH"[of st depth] by simp
next
  case (3 t k ts xs f)
  let ?b = "concat (map ber_enc ts)"
  have k: "len_ok k (length ?b)" "t AND CBS_ASN1_CONSTRUCTED \<noteq> 0" using 3 by simp_all
  have e: "concat (map ber_enc (Constr t k ts # xs)) = der_tag t @ ber_len k (length ?b) @ ?b @ concat (map ber_enc xs)"
    by (simp add: Let_def)
  have d: "depth + 1 + foldr max (map height ts) 0 \<le> kMaxDepth" using 3 by simp
  have sub: "cbs_find_ber ?b (depth + 1) = Some (scan_ber ts False)"
  proof -
    have "ber_wf (inner_tag st t) x \<and> depth + 1 + height x \<le> kMaxDepth" if x: "x \<in> set ts" for x
    proof -
      have "height x \<le> foldr max (map height ts) 0" using x by (intro le_foldr_max) simp
      then show ?thesis using d "3.prems" x by (auto simp: list_all_iff)
    qed
    then show ?thesis using "3.IH"(1)[of "inner_tag st t" "depth + 1"] d by (simp add: cbs_find_ber.simps)
  qed
  have sk: "CBS_skip (der_tag t @ ber_len k (length ?b) @ ?b) (length (der_tag t @ ber_len k (length ?b))) = Some ?b"
    using skip_append[of "der_tag t @ ber_len k (length ?b)" ?b] by simp
  show ?case
    unfolding e find_element[OF ber_definite[OF k(1)]] asn1_element.simps sk option.case sub
    using k(2) "3.prems" "3.IH"(2)[of st depth] by simp
next
  case (4 t ts xs f)
  then have t: "t AND CBS_ASN1_CONSTRUCTED \<noteq> 0" by simp
  have e: "concat (map ber_enc (Indef t ts # xs)) = der_tag t @ 0x80 # (concat (map ber_enc ts) @ [0, 0] @ concat (map ber_enc xs))"
    by simp
  show ?case unfolding e find_element[OF ber_indefinite[OF t]] by simp
qed


lemma cbs_find_ber_scan:
  assumes "\<forall>x\<in>set xs. ber_wf st x \<and> height x \<le> kMaxDepth"
  shows "cbs_find_ber (concat (map ber_enc xs)) 0 = Some (scan_ber xs False)"
  using find_ber_loop_scan[of xs st 0 False] assms by (simp add: cbs_find_ber.simps)

lemma scan_ber_none: "\<forall>x\<in>set xs. \<not> has_ber x \<Longrightarrow> scan_ber xs False = False"
  by (induction xs "False" rule: scan_ber.induct) auto

lemma scan_ber_sound: "scan_ber xs f \<Longrightarrow> f \<or> (\<exists>x\<in>set xs. has_ber x)"
  by (induction xs f rule: scan_ber.induct) auto

text \<open>Without BER features an element's encoding is DER.\<close>

lemma der_len_minimal:
  assumes "len_ok k n" "k = 0 \<or> minimal_len k n"
  shows "ber_len k n = der_len n"
proof (cases "k = 0")
  case True
  then show ?thesis using assms(1) by (simp add: len_ok_def ber_len_def der_len_def)
next
  case False
  then have "k = length_octets n" "\<not> n < 128"
    using assms by (auto simp: len_ok_def minimal_len_def intro!: minimal_len_octets)
  then show ?thesis using False by (simp add: ber_len_def der_len_def)
qed

lemma ber_der_element:
  assumes "ber_wf st x" "\<not> has_ber x"
  shows "\<exists>t body. ber_enc x = der_tlv t body \<and> length body < 2 ^ 32"
proof (cases x)
  case (Prim t k b)
  then have "len_ok k (length b)" "ber_len k (length b) = der_len (length b)" using assms by (auto intro!: der_len_minimal)
  then show ?thesis using Prim power_increasing[of k 4 "256 :: nat"]
    by (intro exI[of _ t] exI[of _ b]) (auto simp: der_tlv_def len_ok_def split: if_splits)
next
  case (Constr t k ts)
  let ?b = "concat (map ber_enc ts)"
  have "len_ok k (length ?b)" "ber_len k (length ?b) = der_len (length ?b)"
    using assms Constr by (auto intro!: der_len_minimal)
  then show ?thesis using Constr power_increasing[of k 4 "256 :: nat"]
    by (intro exI[of _ t] exI[of _ ?b]) (auto simp: der_tlv_def len_ok_def Let_def split: if_splits)
qed (use assms in simp)

lemmas ber_eval = kMaxDepth_def len_ok_def tag_ok_def inner_tag_def outer_tag_def wrap_def is_string_type_def
  ber_len_def der_tag_def der_tlv_def der_len_def minimal_len_def

section \<open>Properties\<close>

text \<open>C11: On a sequence of well-formed BER elements within the depth limit, the first walk computes
  \<open>scan_ber\<close>: it stops at the first element that shows a BER feature itself, but the verdict of a
  nested walk is replaced by that of the siblings that follow.  It never reports BER where there is
  none.\<close>

theorem cbs_find_ber_verdict:
  assumes "\<forall>x\<in>set xs. ber_wf 0 x \<and> height x \<le> kMaxDepth"
  shows "cbs_find_ber (concat (map ber_enc xs)) 0 = Some (scan_ber xs False) \<and>
    (scan_ber xs False \<longrightarrow> (\<exists>x\<in>set xs. has_ber x))"
  using cbs_find_ber_scan[OF assms] scan_ber_sound by blast

theorem cbs_find_ber_verdict_witness:
  "cbs_find_ber (concat (map ber_enc [Prim 5 0 [], Indef 0x20000010 [Prim 2 1 [5]]])) 0 = Some True \<and>
   (\<exists>x\<in>set [Prim 5 0 [], Indef 0x20000010 [Prim 2 1 [5]]]. has_ber x)"
proof -
  have w: "\<forall>x\<in>set [Prim 5 0 [], Indef 0x20000010 [Prim 2 1 [5]]]. ber_wf 0 x \<and> height x \<le> kMaxDepth"
    by (simp add: ber_eval)
  have s: "scan_ber [Prim 5 0 [], Indef 0x20000010 [Prim 2 1 [5]]] False" by (simp add: ber_eval)
  show ?thesis using cbs_find_ber_verdict[OF w] s by (simp only: simp_thms)
qed





text \<open>C14: The first walk can miss BER: a constructed OCTET STRING inside a SEQUENCE that a NULL
  follows is not reported, and \<open>CBS_asn1_ber_to_der\<close> returns the BER input as if it were DER.\<close>

theorem ber_to_der_misses_nested:
  "has_ber (Constr 0x20000010 0 [Constr 0x20000010 0 [Constr 0x20000004 0 []], Prim 5 0 []]) \<and>
   CBS_asn1_ber_to_der m (ber_enc (Constr 0x20000010 0 [Constr 0x20000010 0 [Constr 0x20000004 0 []], Prim 5 0 []])) =
     Some ([0x30, 6, 0x30, 2, 0x24, 0, 5, 0], None, [])"
proof -
  let ?x = "Constr 0x20000010 0 [Constr 0x20000010 0 [Constr 0x20000004 0 []], Prim 5 0 []]"
  have e: "ber_enc ?x = [0x30, 6, 0x30, 2, 0x24, 0, 5, 0]" by (simp add: ber_eval)
  have "has_ber ?x" by (simp add: ber_eval)
  moreover have "CBS_asn1_ber_to_der m [0x30, 6, 0x30, 2, 0x24, 0, 5, 0] =
      Some ([0x30, 6, 0x30, 2, 0x24, 0, 5, 0], None, [])" by code_simp
  ultimately show ?thesis unfolding e by simp
qed

lemma CBS_get_asn1_tlv: "length b < 2 ^ 32 \<Longrightarrow> CBS_get_asn1 (der_tlv t b @ r) t = Some (b, r)"
  by (simp add: CBS_get_asn1_Some)

lemma emits_chunks:
  "\<forall>b\<in>set bs. length b < 2 ^ 32 \<Longrightarrow>
   emits m 0 (\<lambda>c. implicit_string_chunks m (concat (map (der_tlv t) bs)) c t) (concat bs)"
proof (induction bs)
  case Nil
  then show ?case by (simp add: implicit_string_chunks.simps emits_skip)
next
  case (Cons b bs)
  have "der_tlv t b \<noteq> []" using length_der_tag(2)[of t] by (simp add: der_tlv_def)
  then have "(\<lambda>c. implicit_string_chunks m (concat (map (der_tlv t) (b # bs))) c t) =
      (\<lambda>c. cbb_then (CBB_add_bytes m c 0 b) (\<lambda>c. implicit_string_chunks m (concat (map (der_tlv t) bs)) c t))"
    using CBS_get_asn1_tlv[of b t] Cons.prems
    by (intro ext, subst implicit_string_chunks.simps) simp
  then show ?case using emits_then[OF emits_bytes Cons.IH] Cons.prems by simp
qed

text \<open>An implicitly tagged string in constructed form, as fragments of the inner type, is read as
  the concatenation of the fragments into new storage; in primitive form it is read in place.\<close>

lemma implicit_string_reads:
  assumes "outer AND CBS_ASN1_CONSTRUCTED = 0" "\<forall>b\<in>set bs. length b < 2 ^ 32"
    and "length (concat (map (der_tlv inner) bs)) < 2 ^ 32" "length s < 2 ^ 32" "length r < 2 ^ 61" "grants m"
  shows "CBS_get_asn1_implicit_string m
      (der_tlv (outer OR CBS_ASN1_CONSTRUCTED) (concat (map (der_tlv inner) bs)) @ r) outer inner =
      Some (concat bs, Some (concat bs), r) \<and>
    CBS_get_asn1_implicit_string m (der_tlv outer s @ r) outer inner = Some (s, None, r)"
proof
  let ?t = "outer OR CBS_ASN1_CONSTRUCTED" let ?f = "concat (map (der_tlv inner) bs)"
  let ?i = "der_tlv ?t ?f @ r"
  have "bit (?t) 29" "\<not> bit outer 29"
    using assms(1) bit_and_iff[of outer CBS_ASN1_CONSTRUCTED 29] by (simp_all add: bit_simps)
  then have ne: "?t \<noteq> outer" by metis
  have "parse_asn1_tag ?i = Some (?t, der_len (length ?f) @ ?f @ r)"
    by (simp add: parse_asn1_tag_Some der_tlv_def)
  then have peek: "\<not> CBS_peek_asn1_tag ?i outer" using ne by (auto simp: CBS_peek_asn1_tag_def)
  have "length (concat bs) \<le> length ?f" by (induction bs) (simp_all add: der_tlv_def)
  then have small: "length (concat bs) < 2 ^ 62" using assms(3) by simp
  have li: "length ?i < 2 ^ 62"
    using assms(3,5) length_der_tag[of ?t] by (simp add: der_tlv_def der_len_def length_octets_def)
  have b: "cbb_bytes m (length ?i) (\<lambda>c. implicit_string_chunks m ?f c inner) = Some (concat bs)"
    by (rule cbb_bytes_emits(2)[OF emits_chunks[OF assms(2)] small assms(6) li])
  obtain k c where i: "CBB_init m (length ?i) = (k, c)" by fastforce
  obtain k' c' where j: "implicit_string_chunks m ?f c inner = (k', c')" by fastforce
  have k: "k" "k'" "fst (CBB_finish m c' 0 False) = Some (concat bs)"
    using b unfolding cbb_bytes_def i cbb_then_def prod.case by (auto simp: j Let_def split: if_splits)
  obtain c'' where f: "CBB_finish m c' 0 False = (Some (concat bs), c'')" using k(3) by (metis prod.collapse)
  show "CBS_get_asn1_implicit_string m ?i outer inner = Some (concat bs, Some (concat bs), r)"
    unfolding CBS_get_asn1_implicit_string_def i CBS_get_asn1_tlv[OF assms(3)] using peek k j f by simp
next
  have "parse_asn1_tag (der_tlv outer s @ r) = Some (outer, der_len (length s) @ s @ r)"
    by (simp add: parse_asn1_tag_Some der_tlv_def)
  then have "CBS_peek_asn1_tag (der_tlv outer s @ r) outer"
    using length_der_tag(2)[of outer] by (simp add: CBS_peek_asn1_tag_def der_tlv_def Suc_le_eq)
  then show "CBS_get_asn1_implicit_string m (der_tlv outer s @ r) outer inner = Some (s, None, r)"
    unfolding CBS_get_asn1_implicit_string_def CBS_get_asn1_tlv[OF assms(4)] by simp
qed

lemma implicit_string_reads_witness:
  "CBS_get_asn1_implicit_string (\<lambda>n. Some (replicate n 0))
      (der_tlv (0x80000000 OR CBS_ASN1_CONSTRUCTED) (concat (map (der_tlv 4) [[1], [2, 3]])) @ [9]) 0x80000000 4 =
      Some (concat [[1], [2, 3]], Some (concat [[1], [2, 3]]), [9]) \<and>
    CBS_get_asn1_implicit_string (\<lambda>n. Some (replicate n 0)) (der_tlv 0x80000000 [7] @ [9]) 0x80000000 4 = Some ([7], None, [9])"
  by (rule implicit_string_reads) (simp_all add: grants_replicate ber_eval)

end
