(* ===== verification/Base64.thy ===== *)
theory Base64
  imports Prelude ConstTime Mem
begin

text \<open>
  \<open>crypto/base64/base64.c\<close>: encoding and decoding of base64, in one call and in a stream.

  The constant-time selections of the code are kept.  A stream keeps an \<open>EVP_ENCODE_CTX\<close>; the
  functions return the new context, the bytes written through \<open>out\<close> and the length stored in
  \<open>*out_len\<close>.  The encoder terminates each run of output with a NUL that the next call
  overwrites; it is shown in \<open>EVP_EncodeBlock\<close> and left out of the stream functions.
\<close>

section \<open>Model\<close>

definition constant_time_lt_args_8 :: "u8 \<Rightarrow> u8 \<Rightarrow> u8" where
  "constant_time_lt_args_8 a b = ucast (constant_time_msb_w (ucast a - ucast b))"

definition constant_time_in_range_8 :: "u8 \<Rightarrow> u8 \<Rightarrow> u8 \<Rightarrow> u8" where
  "constant_time_in_range_8 a mn mx = constant_time_lt_args_8 (a - mn) (mx - mn + 1)"

definition conv_bin2ascii :: "u8 \<Rightarrow> u8" where
  "conv_bin2ascii a0 =
     (let a = a0 AND 0x3f;
          ret = constant_time_select_8 (constant_time_eq_8 (ucast a) 62) 43 47;
          ret = constant_time_select_8 (constant_time_lt_args_8 a 62) (a - 52 + 48) ret;
          ret = constant_time_select_8 (constant_time_lt_args_8 a 52) (a - 26 + 97) ret
      in constant_time_select_8 (constant_time_lt_args_8 a 26) (a + 65) ret)"

definition EVP_EncodedLength :: "u64 \<Rightarrow> u64 option" where
  "EVP_EncodedLength len =
     (if len + 2 < len then None
      else
        (let len = (len + 2) div 3
         in if drop_bit 2 (push_bit 2 len) \<noteq> len then None
            else
              (let len = push_bit 2 len
               in if len + 1 < len then None else Some (len + 1))))"

text \<open>\<open>data\<close> is the array of 48 bytes.\<close>

record EVP_ENCODE_CTX =
  data_used :: nat
  data :: bytes
  eof_seen :: bool
  error_encountered :: bool

definition EVP_EncodeInit :: EVP_ENCODE_CTX where
  "EVP_EncodeInit = \<lparr>data_used = 0, data = replicate 48 0, eof_seen = False, error_encountered = False\<rparr>"

fun encode_loop :: "bytes \<Rightarrow> bytes" where
  "encode_loop [] = []"
| "encode_loop (a # b # c # src) =
     (let l = push_bit 16 (ucast a) OR push_bit 8 (ucast b) OR (ucast c :: u32)
      in conv_bin2ascii (ucast (drop_bit 18 l)) # conv_bin2ascii (ucast (drop_bit 12 l)) #
         conv_bin2ascii (ucast (drop_bit 6 l)) # conv_bin2ascii (ucast l) # encode_loop src)"
| "encode_loop [a, b] =
     (let l = push_bit 16 (ucast a) OR (push_bit 8 (ucast b) :: u32)
      in [conv_bin2ascii (ucast (drop_bit 18 l)), conv_bin2ascii (ucast (drop_bit 12 l)),
          conv_bin2ascii (ucast (drop_bit 6 l)), 61])"
| "encode_loop [a] =
     (let l = push_bit 16 (ucast a :: u32)
      in [conv_bin2ascii (ucast (drop_bit 18 l)), conv_bin2ascii (ucast (drop_bit 12 l)), 61, 61])"

text \<open>The bytes written to \<open>dst\<close>, the final NUL included, and the result.\<close>

definition EVP_EncodeBlock :: "bytes \<Rightarrow> bytes \<times> nat" where
  "EVP_EncodeBlock src = (let dst = encode_loop src in (dst @ [0], length dst))"

text \<open>The loop over whole lines: what is written, what is left of the input, and the total, or
  \<open>None\<close> when the total overflows.\<close>

function encode_lines :: "bytes \<Rightarrow> nat \<Rightarrow> bytes \<times> bytes \<times> nat option" where
  "encode_lines inp tot =
     (if length inp \<ge> 48 then
        (let (dst, encoded) = EVP_EncodeBlock (take 48 inp);
             line = take encoded dst @ [10]
         in if (tot + encoded + 1) mod SIZE_MOD < tot then (line, drop 48 inp, None)
            else (let (out, rest, t) = encode_lines (drop 48 inp) ((tot + encoded + 1) mod SIZE_MOD)
                  in (line @ out, rest, t)))
      else ([], inp, Some tot))"
  by auto
termination by (relation "measure (\<lambda>(inp, _). length inp)") auto

declare encode_lines.simps [simp del]

text \<open>The bytes written to \<open>out\<close> without the NUL that follows the last line, and \<open>*out_len\<close>.\<close>

definition EVP_EncodeUpdate :: "EVP_ENCODE_CTX \<Rightarrow> bytes \<Rightarrow> EVP_ENCODE_CTX \<times> bytes \<times> nat" where
  "EVP_EncodeUpdate ctx inp =
     (if length inp = 0 then (ctx, [], 0)
      else if 48 - data_used ctx > length inp then
        (ctx\<lparr>data := take (data_used ctx) (data ctx) @ inp @ drop (data_used ctx + length inp) (data ctx),
             data_used := data_used ctx + length inp\<rparr>, [], 0)
      else
        (let (ctx, out, inp, tot) =
               (if data_used ctx \<noteq> 0 then
                  (let todo = 48 - data_used ctx;
                       block = take (data_used ctx) (data ctx) @ take todo inp;
                       (dst, encoded) = EVP_EncodeBlock block
                   in (ctx\<lparr>data := block, data_used := 0\<rparr>, take encoded dst @ [10], drop todo inp, encoded + 1))
                else (ctx, [], inp, 0));
             (lines, rest, tot) = encode_lines inp tot
         in case tot of
              None \<Rightarrow> (ctx, out @ lines, 0)
            | Some tot \<Rightarrow>
                (ctx\<lparr>data := rest @ drop (length rest) (data ctx), data_used := length rest\<rparr>, out @ lines,
                 if tot > INT_MAX then 0 else tot)))"

definition EVP_EncodeFinal :: "EVP_ENCODE_CTX \<Rightarrow> EVP_ENCODE_CTX \<times> bytes \<times> nat" where
  "EVP_EncodeFinal ctx =
     (if data_used ctx = 0 then (ctx, [], 0)
      else
        (let (dst, encoded) = EVP_EncodeBlock (take (data_used ctx) (data ctx))
         in (ctx\<lparr>data_used := 0\<rparr>, take encoded dst @ [10], encoded + 1)))"

definition EVP_DecodedLength :: "nat \<Rightarrow> nat option" where
  "EVP_DecodedLength len = (if len mod 4 \<noteq> 0 then None else Some (len div 4 * 3))"

definition EVP_DecodeInit :: EVP_ENCODE_CTX where
  "EVP_DecodeInit = \<lparr>data_used = 0, data = replicate 48 0, eof_seen = False, error_encountered = False\<rparr>"

definition base64_ascii_to_bin :: "u8 \<Rightarrow> u8" where
  "base64_ascii_to_bin a =
     (let is_upper = constant_time_in_range_8 a 65 90;
          is_lower = constant_time_in_range_8 a 97 122;
          is_digit = constant_time_in_range_8 a 48 57;
          is_plus = constant_time_eq_8 (ucast a) 43;
          is_slash = constant_time_eq_8 (ucast a) 47;
          is_equals = constant_time_eq_8 (ucast a) 61;
          ret = 0;
          ret = ret OR (is_upper AND (a - 65));
          ret = ret OR (is_lower AND (a - 97 + 26));
          ret = ret OR (is_digit AND (a - 48 + 52));
          ret = ret OR (is_plus AND 62);
          ret = ret OR (is_slash AND 63);
          is_valid = is_upper OR is_lower OR is_digit OR is_plus OR is_slash OR is_equals
      in ret OR NOT is_valid)"

definition padding_bit :: "u8 \<Rightarrow> nat" where
  "padding_bit c = (if c = 61 then 1 else 0)"

definition base64_decode_quad :: "bytes \<Rightarrow> bytes option" where
  "base64_decode_quad inp =
     (let a = base64_ascii_to_bin (inp ! 0);
          b = base64_ascii_to_bin (inp ! 1);
          c = base64_ascii_to_bin (inp ! 2);
          d = base64_ascii_to_bin (inp ! 3)
      in if a = 0xff \<or> b = 0xff \<or> c = 0xff \<or> d = 0xff then None
         else
           (let v = push_bit 18 (ucast a) OR push_bit 12 (ucast b) OR push_bit 6 (ucast c) OR (ucast d :: u32);
                padding_pattern = padding_bit (inp ! 0) * 8 + padding_bit (inp ! 1) * 4 +
                                  padding_bit (inp ! 2) * 2 + padding_bit (inp ! 3)
            in if padding_pattern = 0 then Some [ucast (drop_bit 16 v), ucast (drop_bit 8 v), ucast v]
               else if padding_pattern = 1 then Some [ucast (drop_bit 16 v), ucast (drop_bit 8 v)]
               else if padding_pattern = 3 then Some [ucast (drop_bit 16 v)]
               else None))"

definition is_space :: "u8 \<Rightarrow> bool" where
  "is_space c \<longleftrightarrow> c = 32 \<or> c = 9 \<or> c = 13 \<or> c = 10"

text \<open>The loop of \<open>EVP_DecodeUpdate\<close>; \<open>False\<close> is the return from inside with -1.\<close>

fun decode_update_loop :: "EVP_ENCODE_CTX \<Rightarrow> bytes \<Rightarrow> bytes \<Rightarrow> EVP_ENCODE_CTX \<times> bytes \<times> bool" where
  "decode_update_loop ctx out [] = (ctx, out, True)"
| "decode_update_loop ctx out (c # inp) =
     (if is_space c then decode_update_loop ctx out inp
      else if eof_seen ctx then (ctx\<lparr>error_encountered := True\<rparr>, out, False)
      else
        (let ctx = ctx\<lparr>data := (data ctx)[data_used ctx := c], data_used := data_used ctx + 1\<rparr>
         in if data_used ctx = 4 then
              (case base64_decode_quad (data ctx) of
                 None \<Rightarrow> (ctx\<lparr>error_encountered := True\<rparr>, out, False)
               | Some bs \<Rightarrow>
                   decode_update_loop
                     (ctx\<lparr>data_used := 0, eof_seen := eof_seen ctx \<or> length bs < 3\<rparr>) (out @ bs) inp)
            else decode_update_loop ctx out inp))"

text \<open>The return value, the bytes written and \<open>*out_len\<close>.\<close>

definition EVP_DecodeUpdate :: "EVP_ENCODE_CTX \<Rightarrow> bytes \<Rightarrow> int \<times> EVP_ENCODE_CTX \<times> bytes \<times> nat" where
  "EVP_DecodeUpdate ctx inp =
     (if error_encountered ctx then (- 1, ctx, [], 0)
      else
        (let (ctx, out, ok) = decode_update_loop ctx [] inp
         in if \<not> ok then (- 1, ctx, out, 0)
            else if length out > INT_MAX then (- 1, ctx\<lparr>error_encountered := True\<rparr>, out, 0)
            else if eof_seen ctx then (0, ctx, out, length out)
            else (1, ctx, out, length out)))"

definition EVP_DecodeFinal :: "EVP_ENCODE_CTX \<Rightarrow> int" where
  "EVP_DecodeFinal ctx = (if error_encountered ctx \<or> data_used ctx \<noteq> 0 then - 1 else 1)"

fun decode_quads :: "bytes \<Rightarrow> bytes option" where
  "decode_quads [] = Some []"
| "decode_quads (a # b # c # d # inp) =
     (case base64_decode_quad [a, b, c, d] of
        None \<Rightarrow> None
      | Some bs \<Rightarrow>
          if length bs \<noteq> 3 \<and> inp \<noteq> [] then None else map_option ((@) bs) (decode_quads inp))"
| "decode_quads _ = None"

text \<open>The bytes written on success; \<open>*out_len\<close> is their number.\<close>

definition EVP_DecodeBase64 :: "nat \<Rightarrow> bytes \<Rightarrow> bytes option" where
  "EVP_DecodeBase64 max_out inp =
     (if length inp mod 4 \<noteq> 0 then None
      else
        (case EVP_DecodedLength (length inp) of
           None \<Rightarrow> None
         | Some max_len \<Rightarrow> if max_out < max_len then None else decode_quads inp))"

function pad_nul :: "bytes \<Rightarrow> bytes" where
  "pad_nul dst = (if length dst mod 3 \<noteq> 0 then pad_nul (dst @ [0]) else dst)"
  by auto
termination
proof (relation "measure (\<lambda>dst. (3 - length dst mod 3) mod 3)", goal_cases)
  case (2 dst)
  then have "length dst mod 3 = 1 \<or> length dst mod 3 = 2" by presburger
  then show ?case by (auto simp: mod_Suc)
qed simp

declare pad_nul.simps [simp del]

definition EVP_DecodeBlock :: "bytes \<Rightarrow> bytes option" where
  "EVP_DecodeBlock src =
     (let src = dropWhile (\<lambda>c. c = 32 \<or> c = 9) src;
          src = rev (dropWhile is_space (rev src))
      in case EVP_DecodedLength (length src) of
           None \<Rightarrow> None
         | Some dst_len \<Rightarrow>
             if dst_len > INT_MAX then None else map_option pad_nul (EVP_DecodeBase64 dst_len src))"

section \<open>The alphabet\<close>

definition b64_alphabet :: bytes where
  "b64_alphabet = map word_of_nat ([65..<91] @ [97..<123] @ [48..<58] @ [43, 47])"

definition b64_char :: "nat \<Rightarrow> u8" where
  "b64_char n = b64_alphabet ! n"

lemma lt_args_8: "constant_time_lt_args_8 a b = (if a < b then CONSTTIME_TRUE_8 else CONSTTIME_FALSE_8)"
proof -
  have "bit (ucast a - ucast b :: u64) 63 \<longleftrightarrow> a < b"
    unfolding bit_sub_63 word_less_nat_alt using unat_u8_less[of a] unat_u8_less[of b]
    by (auto simp del: unat_u8_less)
  then show ?thesis by (simp add: constant_time_lt_args_8_def msb_w)
qed

lemma in_range_8:
  assumes "mn \<le> mx" "mx - mn < 255"
  shows "constant_time_in_range_8 a mn mx = (if mn \<le> a \<and> a \<le> mx then CONSTTIME_TRUE_8 else CONSTTIME_FALSE_8)"
proof -
  have m: "unat (mx - mn) = unat mx - unat mn" using assms(1) by (simp add: unat_sub word_le_nat_alt)
  then have "unat (mx - mn + 1) = unat mx - unat mn + 1"
    using assms(2) by (subst unat_plus_if') (simp add: word_less_nat_alt)
  moreover have "unat (a - mn) = (if unat mn \<le> unat a then unat a - unat mn else unat a + 256 - unat mn)"
    unfolding unat_sub_if' word_le_nat_alt by simp
  ultimately have "a - mn < mx - mn + 1 \<longleftrightarrow> mn \<le> a \<and> a \<le> mx"
    unfolding word_less_nat_alt word_le_nat_alt using assms unat_u8_less[of a] unat_u8_less[of mx]
    by (auto simp: word_le_nat_alt simp del: unat_u8_less)
  then show ?thesis by (simp add: constant_time_in_range_8_def lt_args_8)
qed

lemma conv_bin2ascii_table: "map (\<lambda>n. conv_bin2ascii (word_of_nat n)) [0..<64] = b64_alphabet"
  by code_simp

lemma conv_bin2ascii_char: "conv_bin2ascii w = b64_char (unat w mod 64)"
proof -
  have e: "w AND 0x3f = word_of_nat (unat w mod 64) AND 0x3f"
  proof (rule word_unat_eq_iff[THEN iffD2])
    have m: "(0x3f :: u8) = mask 6" by (simp add: mask_eq_exp_minus_1)
    show "unat (w AND 0x3f) = unat (word_of_nat (unat w mod 64) AND 0x3f :: u8)"
      unfolding m unat_and_mask u8_of_nat_unat_mod using mod_mod_cancel[of 64 256 "unat w mod 64"] by simp
  qed
  have "conv_bin2ascii w = conv_bin2ascii (word_of_nat (unat w mod 64))"
    unfolding conv_bin2ascii_def e ..
  also have "\<dots> = map (\<lambda>n. conv_bin2ascii (word_of_nat n)) [0..<64] ! (unat w mod 64)" by simp
  finally show ?thesis by (simp only: conv_bin2ascii_table b64_char_def)
qed

lemma byte_select: "CONSTTIME_TRUE_8 AND x = x" "CONSTTIME_FALSE_8 AND x = 0" "NOT CONSTTIME_TRUE_8 = 0" "CONSTTIME_TRUE_8 OR x = CONSTTIME_TRUE_8"
proof -
  have "CONSTTIME_TRUE_8 = - 1" by simp
  then show "CONSTTIME_TRUE_8 AND x = x" "CONSTTIME_FALSE_8 AND x = 0" "NOT CONSTTIME_TRUE_8 = 0" "CONSTTIME_TRUE_8 OR x = CONSTTIME_TRUE_8"
    by (simp_all only:) simp_all
qed

definition b64_bin :: "u8 \<Rightarrow> u8" where
  "b64_bin c =
     (if 65 \<le> c \<and> c \<le> 90 then c - 65 else if 97 \<le> c \<and> c \<le> 122 then c - 97 + 26
      else if 48 \<le> c \<and> c \<le> 57 then c - 48 + 52 else if c = 43 then 62 else if c = 47 then 63
      else if c = 61 then 0 else 255)"

lemma ucast_u8_u64_eq: "(ucast (a :: u8) :: u64) = 43 \<longleftrightarrow> a = 43" "(ucast a :: u64) = 47 \<longleftrightarrow> a = 47" "(ucast a :: u64) = 61 \<longleftrightarrow> a = 61"
  by (simp_all add: word_unat_eq_iff)

lemma base64_ascii_to_bin_eq: "base64_ascii_to_bin c = b64_bin c"
proof -
  have r: "constant_time_in_range_8 c 65 90 = (if 65 \<le> c \<and> c \<le> 90 then CONSTTIME_TRUE_8 else CONSTTIME_FALSE_8)"
    "constant_time_in_range_8 c 97 122 = (if 97 \<le> c \<and> c \<le> 122 then CONSTTIME_TRUE_8 else CONSTTIME_FALSE_8)"
    "constant_time_in_range_8 c 48 57 = (if 48 \<le> c \<and> c \<le> 57 then CONSTTIME_TRUE_8 else CONSTTIME_FALSE_8)"
    by (rule in_range_8; simp)+
  have x: "65 \<le> c \<and> c \<le> 90 \<Longrightarrow> \<not> (97 \<le> c \<and> c \<le> 122) \<and> \<not> (48 \<le> c \<and> c \<le> 57) \<and> c \<noteq> 43 \<and> c \<noteq> 47 \<and> c \<noteq> 61"
    "97 \<le> c \<and> c \<le> 122 \<Longrightarrow> \<not> (65 \<le> c \<and> c \<le> 90) \<and> \<not> (48 \<le> c \<and> c \<le> 57) \<and> c \<noteq> 43 \<and> c \<noteq> 47 \<and> c \<noteq> 61"
    "48 \<le> c \<and> c \<le> 57 \<Longrightarrow> \<not> (65 \<le> c \<and> c \<le> 90) \<and> \<not> (97 \<le> c \<and> c \<le> 122) \<and> c \<noteq> 43 \<and> c \<noteq> 47 \<and> c \<noteq> 61"
    by (auto simp: word_le_nat_alt)
  consider "65 \<le> c \<and> c \<le> 90" | "97 \<le> c \<and> c \<le> 122" | "48 \<le> c \<and> c \<le> 57" | "c = 43" | "c = 47" | "c = 61"
    | "\<not> (65 \<le> c \<and> c \<le> 90)" "\<not> (97 \<le> c \<and> c \<le> 122)" "\<not> (48 \<le> c \<and> c \<le> 57)" "c \<noteq> 43" "c \<noteq> 47" "c \<noteq> 61"
    by blast
  then show ?thesis
  proof cases
    case 1
    show ?thesis
      unfolding base64_ascii_to_bin_def r constant_time_eq_8 ucast_u8_u64_eq b64_bin_def Let_def
      by (simp only: 1 x(1)[OF 1] simp_thms if_True if_False byte_select or.left_neutral or.right_neutral)
  next
    case 2
    show ?thesis
      unfolding base64_ascii_to_bin_def r constant_time_eq_8 ucast_u8_u64_eq b64_bin_def Let_def
      by (simp only: 2 x(2)[OF 2] simp_thms if_True if_False byte_select or.left_neutral or.right_neutral)
  next
    case 3
    show ?thesis
      unfolding base64_ascii_to_bin_def r constant_time_eq_8 ucast_u8_u64_eq b64_bin_def Let_def
      by (simp only: 3 x(3)[OF 3] simp_thms if_True if_False byte_select or.left_neutral or.right_neutral)
  next
    case 7
    show ?thesis
      unfolding base64_ascii_to_bin_def r constant_time_eq_8 ucast_u8_u64_eq b64_bin_def Let_def
      using 7 by (simp only: simp_thms if_True if_False byte_select or.left_neutral or.right_neutral) simp
  next
    case 4
    show ?thesis unfolding 4 by code_simp
  next
    case 5
    show ?thesis unfolding 5 by code_simp
  next
    case 6
    show ?thesis unfolding 6 by code_simp
  qed
qed

lemma b64_bin_table:
  "map b64_bin b64_alphabet = map word_of_nat [0..<64]"
  "61 \<notin> set b64_alphabet" "32 \<notin> set b64_alphabet" "9 \<notin> set b64_alphabet" "13 \<notin> set b64_alphabet"
  "10 \<notin> set b64_alphabet"
  by code_simp+

lemma b64_char_props:
  assumes "n < 64"
  shows "b64_bin (b64_char n) = word_of_nat n" "b64_char n \<noteq> 61" "\<not> is_space (b64_char n)"
proof -
  have l: "length b64_alphabet = 64" by (simp add: b64_alphabet_def del: upt_rec_numeral)
  have "map b64_bin b64_alphabet ! n = map word_of_nat [0..<64] ! n" by (simp only: b64_bin_table)
  then show "b64_bin (b64_char n) = word_of_nat n" using assms l by (simp add: b64_char_def del: upt_rec_numeral)
  have "b64_char n \<in> set b64_alphabet" using assms l by (simp add: b64_char_def)
  then show "b64_char n \<noteq> 61" "\<not> is_space (b64_char n)" using b64_bin_table(2-) by (auto simp: is_space_def)
qed

lemma b64_char_ranges:
  "n < 26 \<Longrightarrow> b64_char n = word_of_nat (65 + n)"
  "n < 26 \<Longrightarrow> b64_char (26 + n) = word_of_nat (97 + n)"
  "n < 10 \<Longrightarrow> b64_char (52 + n) = word_of_nat (48 + n)"
  by (simp_all add: b64_char_def b64_alphabet_def nth_append del: upt_rec_numeral)

lemma b64_bin_valid:
  assumes "b64_bin c \<noteq> 255" "c \<noteq> 61"
  shows "\<exists>n<64. c = b64_char n"
proof -
  have w: "word_of_nat (unat c) = c" by simp
  consider "65 \<le> c \<and> c \<le> 90" | "97 \<le> c \<and> c \<le> 122" | "48 \<le> c \<and> c \<le> 57" | "c = 43" | "c = 47"
    using assms unfolding b64_bin_def by (auto split: if_splits)
  then show ?thesis
  proof cases
    case 1
    then have "unat c - 65 < 26" "65 + (unat c - 65) = unat c" by (auto simp: word_le_nat_alt)
    then show ?thesis using b64_char_ranges(1)[of "unat c - 65"] w by (intro exI[of _ "unat c - 65"]) simp
  next
    case 2
    then have "unat c - 97 < 26" "97 + (unat c - 97) = unat c" by (auto simp: word_le_nat_alt)
    then show ?thesis using b64_char_ranges(2)[of "unat c - 97"] w by (intro exI[of _ "26 + (unat c - 97)"]) simp
  next
    case 3
    then have "unat c - 48 < 10" "48 + (unat c - 48) = unat c" by (auto simp: word_le_nat_alt)
    then show ?thesis using b64_char_ranges(3)[of "unat c - 48"] w by (intro exI[of _ "52 + (unat c - 48)"]) simp
  next
    case 4
    then show ?thesis by (intro exI[of _ 62]) (simp add: b64_char_def b64_alphabet_def nth_append)
  next
    case 5
    then show ?thesis by (intro exI[of _ 63]) (simp add: b64_char_def b64_alphabet_def nth_append)
  qed
qed

section \<open>Specification\<close>

text \<open>Base64 of RFC 4648: three octets are one number, written with four digits of base 64; one or two
  octets at the end are padded with zero bits, and with \<open>=\<close>.\<close>

definition quad_chars :: "nat \<Rightarrow> bytes" where
  "quad_chars n =
     [b64_char (n div 64 div 64 div 64), b64_char (n div 64 div 64 mod 64), b64_char (n div 64 mod 64), b64_char (n mod 64)]"

fun b64 :: "bytes \<Rightarrow> bytes" where
  "b64 [] = []"
| "b64 (a # b # c # r) = quad_chars (be_val [a, b, c]) @ b64 r"
| "b64 [a, b] = take 3 (quad_chars (be_val [a, b, 0])) @ [61]"
| "b64 [a] = take 2 (quad_chars (be_val [a, 0, 0])) @ [61, 61]"

lemma be_val_3: "be_val [a, b, c] = unat a * 65536 + unat b * 256 + unat c"
  by simp

lemma be_val_3_less: "be_val [a, b, c] < 16777216"
  using be_val_less[of "[a, b, c]"] by simp

lemma unat_triple:
  "unat (push_bit 16 (ucast a) OR push_bit 8 (ucast b) OR (ucast c :: u32)) = be_val [a, b, c]"
proof -
  have bc: "unat (push_bit 8 (ucast b) OR (ucast c :: u32)) = unat b * 256 + unat c"
    using unat_shift_or[where w = "ucast c :: u32" and v = "ucast b" and k = 8] unat_u8_less[of b] by simp
  have "unat b * 256 + unat c < 65536" using be_val_less[of "[b, c]"] by simp
  then show ?thesis
    using unat_shift_or[where w = "push_bit 8 (ucast b) OR (ucast c :: u32)" and v = "ucast a" and k = 16] unat_u8_less[of a] bc
    by simp
qed

lemma conv_shift:
  fixes l :: u32
  shows "conv_bin2ascii (ucast (drop_bit k l)) = b64_char (unat l div 2 ^ k mod 64)"
  unfolding conv_bin2ascii_char unat_ucast_to_u8 unat_drop_bit
  using mod_mod_cancel[of 64 256 "unat l div 2 ^ k"] by simp

lemma conv_low: "conv_bin2ascii (ucast (l :: u32)) = b64_char (unat l mod 64)"
  using conv_shift[of 0 l] by simp

lemma quad_encode:
  assumes "unat (l :: u32) = n" "n < 16777216"
  shows "[conv_bin2ascii (ucast (drop_bit 18 l)), conv_bin2ascii (ucast (drop_bit 12 l)),
    conv_bin2ascii (ucast (drop_bit 6 l)), conv_bin2ascii (ucast l)] = quad_chars n"
proof -
  have "n div 64 div 64 div 64 < 64" using assms(2) by (simp add: div_less_iff_less_mult flip: div_mult2_eq)
  then have "n div 64 div 64 div 64 mod 64 = n div 64 div 64 div 64" by simp
  moreover have "n div 2 ^ 18 = n div 64 div 64 div 64" "n div 2 ^ 12 = n div 64 div 64" "n div 2 ^ 6 = n div 64"
    by (simp_all flip: div_mult2_eq)
  ultimately show ?thesis unfolding conv_shift unfolding conv_low assms(1) quad_chars_def by (simp only:)
qed

lemma encode_loop_b64: "encode_loop src = b64 src"
proof (induction src rule: b64.induct)
  case (2 a b c r)
  let ?l = "push_bit 16 (ucast a) OR push_bit 8 (ucast b) OR (ucast c :: u32)"
  show ?case
    using quad_encode[OF unat_triple be_val_3_less, of a b c] 2 by (simp add: Let_def)
next
  case (3 a b)
  have u: "unat (push_bit 16 (ucast a) OR push_bit 8 (ucast b) :: u32) = be_val [a, b, 0]"
    using unat_triple[of a b 0] by simp
  show ?case
    unfolding b64.simps quad_encode[OF u be_val_3_less, symmetric] by (simp add: Let_def del: be_val.simps)
next
  case (4 a)
  have u: "unat (push_bit 16 (ucast a) :: u32) = be_val [a, 0, 0]"
    using unat_triple[of a 0 0] by simp
  show ?case
    unfolding b64.simps quad_encode[OF u be_val_3_less, symmetric] by (simp add: Let_def del: be_val.simps)
qed simp

lemma length_quad_chars [simp]: "length (quad_chars n) = 4"
  by (simp add: quad_chars_def)

lemma length_b64: "length (b64 src) = (length src + 2) div 3 * 4"
proof (induction src rule: b64.induct)
  case (2 a b c r)
  have "(length (a # b # c # r) + 2) div 3 = Suc ((length r + 2) div 3)" by simp
  then show ?case using 2 by simp
qed simp_all

lemma b64_append: "length x mod 3 = 0 \<Longrightarrow> b64 (x @ y) = b64 x @ b64 y"
  by (induction x rule: b64.induct) auto

section \<open>Decoding\<close>

definition digit_val :: "nat \<Rightarrow> nat \<Rightarrow> nat \<Rightarrow> nat \<Rightarrow> nat" where
  "digit_val p q r s = ((p * 64 + q) * 64 + r) * 64 + s"

lemma unat_quad:
  fixes a b c d :: u8
  assumes "unat a < 64" "unat b < 64" "unat c < 64" "unat d < 64"
  shows "unat (push_bit 18 (ucast a) OR push_bit 12 (ucast b) OR push_bit 6 (ucast c) OR (ucast d :: u32)) =
    digit_val (unat a) (unat b) (unat c) (unat d)"
proof -
  have cd: "unat (push_bit 6 (ucast c) OR (ucast d :: u32)) = unat c * 64 + unat d"
    using unat_shift_or[where w = "ucast d :: u32" and v = "ucast c" and k = 6] assms by simp
  have bcd: "unat (push_bit 12 (ucast b) OR push_bit 6 (ucast c) OR (ucast d :: u32)) = unat b * 4096 + (unat c * 64 + unat d)"
    using unat_shift_or[where w = "push_bit 6 (ucast c) OR (ucast d :: u32)" and v = "ucast b" and k = 12] assms cd by simp
  show ?thesis
    using unat_shift_or[where w = "push_bit 12 (ucast b) OR push_bit 6 (ucast c) OR (ucast d :: u32)" and v = "ucast a" and k = 18]
      assms bcd by (simp add: digit_val_def)
qed

lemma bytes_of_quad:
  "[ucast (drop_bit 16 v), ucast (drop_bit 8 v), ucast (v :: u32)] = be_bytes 3 (unat v)"
proof -
  have "be_bytes 3 n = [word_of_nat (n div 65536), word_of_nat (n div 256), word_of_nat n]" for n
    by (simp add: numeral_3_eq_3)
  then show ?thesis unfolding ucast_to_u8_of_nat unat_drop_bit by simp
qed

lemma quad_chars_digits:
  assumes "p < 64" "q < 64" "r < 64" "s < 64"
  shows "quad_chars (digit_val p q r s) = [b64_char p, b64_char q, b64_char r, b64_char s]"
proof -
  have "(x * 64 + y) div 64 = x" "(x * 64 + y) mod 64 = y" if "y < 64" for x y :: nat using that by simp_all
  then show ?thesis using assms unfolding quad_chars_def digit_val_def by (simp only:)
qed

lemma digit_val_of:
  "n = digit_val (n div 64 div 64 div 64) (n div 64 div 64 mod 64) (n div 64 mod 64) (n mod 64)"
  by (simp add: digit_val_def)

lemma decode_quad_chars:
  assumes "n < 16777216"
  shows "base64_decode_quad (quad_chars n) = Some (be_bytes 3 n)"
    and "n mod 64 = 0 \<Longrightarrow> base64_decode_quad (take 3 (quad_chars n) @ [61]) = Some (take 2 (be_bytes 3 n))"
    and "n mod 64 = 0 \<Longrightarrow> n div 64 mod 64 = 0 \<Longrightarrow>
      base64_decode_quad (take 2 (quad_chars n) @ [61, 61]) = Some (take 1 (be_bytes 3 n))"
proof -
  define p where "p = n div 64 div 64 div 64" define q where "q = n div 64 div 64 mod 64"
  define r where "r = n div 64 mod 64" define s where "s = n mod 64"
  have lim: "p < 64" "q < 64" "r < 64" "s < 64"
    using assms by (simp_all add: p_def q_def r_def s_def div_less_iff_less_mult flip: div_mult2_eq)
  have c: "quad_chars n = [b64_char p, b64_char q, b64_char r, b64_char s]"
    by (simp add: quad_chars_def p_def q_def r_def s_def)
  have n: "n = digit_val p q r s" unfolding p_def q_def r_def s_def by (rule digit_val_of)
  have b: "base64_ascii_to_bin (b64_char k) = word_of_nat k" "word_of_nat k \<noteq> (255 :: u8)"
    "unat (word_of_nat k :: u8) = k" "padding_bit (b64_char k) = 0" if "k < 64" for k
  proof -
    show "base64_ascii_to_bin (b64_char k) = word_of_nat k"
      using that by (simp add: base64_ascii_to_bin_eq b64_char_props)
    show u: "unat (word_of_nat k :: u8) = k" using that by simp
    then show "word_of_nat k \<noteq> (255 :: u8)" using that by (auto simp: word_unat_eq_iff)
    show "padding_bit (b64_char k) = 0" using that by (simp add: padding_bit_def b64_char_props)
  qed
  have e: "base64_ascii_to_bin 61 = 0" "padding_bit 61 = 1" by (simp_all add: base64_ascii_to_bin_eq b64_bin_def padding_bit_def)
  let ?v = "\<lambda>p q r s. push_bit 18 (ucast (word_of_nat p :: u8)) OR push_bit 12 (ucast (word_of_nat q :: u8)) OR
      push_bit 6 (ucast (word_of_nat r :: u8)) OR (ucast (word_of_nat s :: u8) :: u32)"
  have v: "unat (?v p q r s) = n"
    unfolding n using lim by (subst unat_quad) (simp_all add: b(3))
  note bytes = bytes_of_quad[of "?v p q r s", unfolded v]
  show "base64_decode_quad (quad_chars n) = Some (be_bytes 3 n)"
    unfolding c base64_decode_quad_def bytes[symmetric] by (simp add: b lim Let_def del: ucast_id)
  { assume "n mod 64 = 0"
    then have "s = 0" by (simp add: s_def)
    show "base64_decode_quad (take 3 (quad_chars n) @ [61]) = Some (take 2 (be_bytes 3 n))"
      unfolding c base64_decode_quad_def bytes[symmetric] by (simp add: b lim e Let_def \<open>s = 0\<close>)
    assume "n div 64 mod 64 = 0"
    then have "r = 0" by (simp add: r_def)
    show "base64_decode_quad (take 2 (quad_chars n) @ [61, 61]) = Some (take 1 (be_bytes 3 n))"
      unfolding c base64_decode_quad_def bytes[symmetric] by (simp add: b lim e Let_def \<open>s = 0\<close> \<open>r = 0\<close>) }
qed

lemma be_val_triple_pad:
  "be_val [a, b, 0] mod 64 = 0" "be_val [a, 0, 0] mod 64 = 0" "be_val [a, 0, 0] div 64 mod 64 = 0"
proof -
  have "be_val [a, b, 0] = 64 * (unat a * 1024 + unat b * 4)" for b by simp
  then show "be_val [a, b, 0] mod 64 = 0" "be_val [a, 0, 0] mod 64 = 0" by (simp_all only: mod_mult_self1_is_0)
  have "be_val [a, 0, 0] = 64 * (64 * (unat a * 16))" by simp
  then show "be_val [a, 0, 0] div 64 mod 64 = 0" by simp
qed

lemma be_bytes_triple: "be_bytes 3 (be_val [a, b, c]) = [a, b, c]"
proof -
  have "length [a, b, c] = 3" by simp
  then show ?thesis using be_bytes_be_val[of "[a, b, c]"] by (simp only:)
qed

lemma four: "length xs = 4 \<Longrightarrow> \<exists>a b c d. xs = [a, b, c, d]"
  by (auto simp: length_Suc_conv eval_nat_numeral)

lemma decode_quads_b64: "decode_quads (b64 x) = Some x"
proof (induction x rule: b64.induct)
  case (2 a b c r)
  obtain p q s t where q: "quad_chars (be_val [a, b, c]) = [p, q, s, t]" using four[OF length_quad_chars] by blast
  have "base64_decode_quad [p, q, s, t] = Some [a, b, c]"
    using decode_quad_chars(1)[OF be_val_3_less, of a b c] unfolding q be_bytes_triple .
  then show ?case using 2 unfolding b64.simps q by simp
next
  case (3 a b)
  obtain p q s t where q: "quad_chars (be_val [a, b, 0]) = [p, q, s, t]" using four[OF length_quad_chars] by blast
  have "base64_decode_quad [p, q, s, 61] = Some [a, b]"
    using decode_quad_chars(2)[OF be_val_3_less be_val_triple_pad(1), of a b] unfolding q be_bytes_triple by simp
  then show ?case unfolding b64.simps q by simp
next
  case (4 a)
  obtain p q s t where q: "quad_chars (be_val [a, 0, 0]) = [p, q, s, t]" using four[OF length_quad_chars] by blast
  have "base64_decode_quad [p, q, 61, 61] = Some [a]"
    using decode_quad_chars(3)[OF be_val_3_less be_val_triple_pad(2,3), of a] unfolding q be_bytes_triple by simp
  then show ?case unfolding b64.simps q by simp
qed simp

lemma decode_quad_sound:
  assumes "base64_decode_quad [a, b, c, d] = Some bs"
  shows "length bs \<in> {1, 2, 3}" and "length bs = 3 \<Longrightarrow> \<exists>n < 16777216. [a, b, c, d] = quad_chars n \<and> bs = be_bytes 3 n"
proof -
  show "length bs \<in> {1, 2, 3}"
    using assms by (auto simp: base64_decode_quad_def Let_def split: if_splits)
  assume l: "length bs = 3"
  have v: "base64_ascii_to_bin a \<noteq> 255" "base64_ascii_to_bin b \<noteq> 255" "base64_ascii_to_bin c \<noteq> 255" "base64_ascii_to_bin d \<noteq> 255"
    using assms by (auto simp: base64_decode_quad_def Let_def split: if_splits)
  have "padding_bit a * 8 + padding_bit b * 4 + padding_bit c * 2 + padding_bit d = 0"
    using assms l by (auto simp: base64_decode_quad_def Let_def split: if_splits)
  then have "a \<noteq> 61" "b \<noteq> 61" "c \<noteq> 61" "d \<noteq> 61" by (auto simp: padding_bit_def split: if_splits)
  then obtain p q r s where ch: "p < 64" "q < 64" "r < 64" "s < 64" "a = b64_char p" "b = b64_char q" "c = b64_char r" "d = b64_char s"
    using v b64_bin_valid unfolding base64_ascii_to_bin_eq by metis
  let ?n = "digit_val p q r s"
  have q: "[a, b, c, d] = quad_chars ?n" using quad_chars_digits ch by simp
  have n: "?n < 16777216" using ch(1-4) by (simp add: digit_val_def)
  then have "bs = be_bytes 3 ?n" using decode_quad_chars(1)[OF n] assms q by simp
  then show "\<exists>n < 16777216. [a, b, c, d] = quad_chars n \<and> bs = be_bytes 3 n" using q n by blast
qed

lemma b64_quad: "n < 16777216 \<Longrightarrow> b64 (be_bytes 3 n @ r) = quad_chars n @ b64 r"
proof -
  assume n: "n < 16777216"
  obtain x y z where b: "be_bytes 3 n = [x, y, z]" by (auto simp: numeral_3_eq_3)
  then have "be_val [x, y, z] = n" using n be_val_be_bytes[of 3 n] by simp
  then show ?thesis unfolding b by (simp del: be_val.simps)
qed

lemma decode_quads_sound:
  "decode_quads inp = Some out \<Longrightarrow> length (b64 out) = length inp \<and> (length out mod 3 = 0 \<longrightarrow> inp = b64 out)"
proof (induction inp arbitrary: out rule: decode_quads.induct)
  case (2 a b c d inp)
  then obtain bs where bs: "base64_decode_quad [a, b, c, d] = Some bs" by (auto split: option.splits)
  show ?case
  proof (cases "length bs = 3")
    case True
    then obtain out' where o: "decode_quads inp = Some out'" "out = bs @ out'"
      using 2(2) bs by (auto split: if_splits)
    obtain n where n: "n < 16777216" "[a, b, c, d] = quad_chars n" "bs = be_bytes 3 n"
      using decode_quad_sound(2)[OF bs True] by blast
    have IH: "length (b64 out') = length inp \<and> (length out' mod 3 = 0 \<longrightarrow> inp = b64 out')"
      using 2(1)[OF bs _ o(1)] True by simp
    have e: "a # b # c # d # inp = quad_chars n @ inp" using n(2) by (metis append_Cons append_Nil)
    have "length out mod 3 = length out' mod 3" using True by (simp add: o(2))
    then show ?thesis unfolding e o(2) n(3) b64_quad[OF n(1)] using IH by (simp add: o(2) n(3))
  next
    case False
    then have "inp = []" "out = bs" using 2(2) bs by (auto split: if_splits)
    moreover have "length bs = 1 \<or> length bs = 2" using decode_quad_sound(1)[OF bs] False by auto
    ultimately show ?thesis by (auto simp: length_b64)
  qed
qed auto

section \<open>Streams\<close>

text \<open>Lines of 48 input octets, each ended by a newline; the rest waits in the context.\<close>

function b64_lines :: "bytes \<Rightarrow> bytes" where
  "b64_lines s = (if length s \<ge> 48 then b64 (take 48 s) @ [10] @ b64_lines (drop 48 s) else [])"
  by auto
termination by (relation "measure length") auto

declare b64_lines.simps [simp del]

definition b64_rest :: "bytes \<Rightarrow> bytes" where
  "b64_rest s = drop (length s div 48 * 48) s"

definition b64_text :: "bytes \<Rightarrow> bytes" where
  "b64_text s = b64_lines s @ (if b64_rest s = [] then [] else b64 (b64_rest s) @ [10])"

lemma b64_rest_short: "length s < 48 \<Longrightarrow> b64_rest s = s"
  by (simp add: b64_rest_def)

lemma b64_rest_drop: "48 \<le> length s \<Longrightarrow> b64_rest (drop 48 s) = b64_rest s"
proof -
  assume "48 \<le> length s"
  then have "length s div 48 * 48 = (length s - 48) div 48 * 48 + 48" by (simp add: le_div_geq)
  then show ?thesis by (simp add: b64_rest_def)
qed

lemma length_b64_rest: "length (b64_rest s) < 48"
  by (simp add: b64_rest_def minus_div_mult_eq_mod)

lemma b64_lines_append:
  "b64_lines (s @ t) = b64_lines s @ b64_lines (b64_rest s @ t) \<and> b64_rest (s @ t) = b64_rest (b64_rest s @ t)"
proof (induction s rule: b64_lines.induct)
  case (1 s)
  show ?case
  proof (cases "48 \<le> length s")
    case True
    have "b64_lines (s @ t) = b64 (take 48 s) @ [10] @ b64_lines (drop 48 s @ t)"
      "b64_lines s = b64 (take 48 s) @ [10] @ b64_lines (drop 48 s)"
      using True by (subst b64_lines.simps; simp)+
    moreover have "b64_rest (s @ t) = b64_rest (drop 48 s @ t)"
      using b64_rest_drop[of "s @ t"] True by simp
    ultimately show ?thesis using 1[OF True] b64_rest_drop[OF True] by simp
  next
    case False
    then have "b64_lines s = []" by (subst b64_lines.simps) simp
    then show ?thesis using False by (simp add: b64_rest_short)
  qed
qed

lemma length_b64_lines: "length (b64_lines s) = length s div 48 * 65"
proof (induction s rule: b64_lines.induct)
  case (1 s)
  show ?case
  proof (cases "48 \<le> length s")
    case True
    then have "b64_lines s = b64 (take 48 s) @ [10] @ b64_lines (drop 48 s)" by (subst b64_lines.simps) simp
    moreover have "length (b64 (take 48 s)) = 64" using True by (simp add: length_b64)
    ultimately show ?thesis using 1[OF True] True by (simp add: le_div_geq)
  next
    case False
    then show ?thesis by (subst b64_lines.simps) simp
  qed
qed

lemma encode_lines_b64:
  "tot + length (b64_lines s) < SIZE_MOD \<Longrightarrow> encode_lines s tot = (b64_lines s, b64_rest s, Some (tot + length (b64_lines s)))"
proof (induction s arbitrary: tot rule: b64_lines.induct)
  case (1 s)
  show ?case
  proof (cases "48 \<le> length s")
    case True
    have l: "b64_lines s = b64 (take 48 s) @ [10] @ b64_lines (drop 48 s)" using True by (subst b64_lines.simps) simp
    have n: "length (b64 (take 48 s)) = 64" using True by (simp add: length_b64)
    have "(tot + 64 + 1) mod SIZE_MOD = tot + 65" using "1.prems" by (simp add: l n)
    moreover have "encode_lines (drop 48 s) (tot + 65) = (b64_lines (drop 48 s), b64_rest s, Some (tot + 65 + length (b64_lines (drop 48 s))))"
      using "1.IH"[OF True, of "tot + 65"] "1.prems" b64_rest_drop[OF True] by (simp add: l n)
    ultimately show ?thesis
      using True by (subst encode_lines.simps) (simp add: EVP_EncodeBlock_def encode_loop_b64 n l Let_def)
  next
    case False
    then have "b64_lines s = []" by (subst b64_lines.simps) simp
    then show ?thesis using False by (subst encode_lines.simps) (simp add: b64_rest_short)
  qed
qed


definition enc_ok :: "EVP_ENCODE_CTX \<Rightarrow> bool" where
  "enc_ok ctx \<longleftrightarrow> data_used ctx < 48 \<and> length (data ctx) = 48"

definition pending :: "EVP_ENCODE_CTX \<Rightarrow> bytes" where
  "pending ctx = take (data_used ctx) (data ctx)"

definition reported :: "nat \<Rightarrow> nat" where
  "reported n = (if n > INT_MAX then 0 else n)"

lemma b64_lines_first:
  "length b = 48 \<Longrightarrow> b64_lines (b @ r) = b64 b @ [10] @ b64_lines r \<and> b64_rest (b @ r) = b64_rest r"
  using b64_rest_drop[of "b @ r"] by (subst b64_lines.simps) simp

lemma EVP_EncodeUpdate_step:
  assumes ok: "enc_ok ctx" and len: "length inp < 2 ^ 62"
  shows "\<exists>ctx'. EVP_EncodeUpdate ctx inp =
      (ctx', b64_lines (pending ctx @ inp), reported (length (b64_lines (pending ctx @ inp)))) \<and>
    enc_ok ctx' \<and> pending ctx' = b64_rest (pending ctx @ inp)"
proof -
  have du: "data_used ctx < 48" "length (data ctx) = 48" using ok by (simp_all add: enc_ok_def)
  have lp: "length (pending ctx) = data_used ctx" using du by (simp add: pending_def)
  consider "inp = []" | "inp \<noteq> []" "48 - data_used ctx > length inp" | "inp \<noteq> []" "\<not> 48 - data_used ctx > length inp" by blast
  then show ?thesis
  proof cases
    case 1
    then have "b64_lines (pending ctx @ inp) = []" using lp du by (subst b64_lines.simps) simp
    then show ?thesis using 1 ok lp du by (simp add: EVP_EncodeUpdate_def reported_def b64_rest_short)
  next
    case 2
    then have s: "length (pending ctx @ inp) < 48" using lp du by simp
    then have "b64_lines (pending ctx @ inp) = []" by (subst b64_lines.simps) simp
    moreover have "pending (ctx\<lparr>data := take (data_used ctx) (data ctx) @ inp @ drop (data_used ctx + length inp) (data ctx),
        data_used := data_used ctx + length inp\<rparr>) = pending ctx @ inp"
      using du by (simp add: pending_def)
    ultimately show ?thesis
      using 2 du s by (simp add: EVP_EncodeUpdate_def reported_def b64_rest_short enc_ok_def)
  next
    case 3
    define u where "u = data_used ctx"
    have b64len: "length (b64 x) = 64" if "length x = 48" for x using that by (simp add: length_b64)
    have fit: "length (b64_lines s) \<le> 2 ^ 62 div 48 * 65 + 65" if "length s \<le> length inp + 48" for s
    proof -
      have "length s div 48 \<le> (2 ^ 62 + 48) div 48" using that len by (intro div_le_mono) simp
      then show ?thesis unfolding length_b64_lines by simp
    qed
    obtain ctx1 out1 inp1 t1 where first:
      "(if data_used ctx \<noteq> 0 then
          (let todo = 48 - data_used ctx;
               block = take (data_used ctx) (data ctx) @ take todo inp;
               (dst, encoded) = EVP_EncodeBlock block
           in (ctx\<lparr>data := block, data_used := 0\<rparr>, take encoded dst @ [10], drop todo inp, encoded + 1))
        else (ctx, [], inp, 0)) = (ctx1, out1, inp1, t1)"
      by (cases rule: prod_cases4)
    have f: "length (data ctx1) = 48 \<and> b64_lines (pending ctx @ inp) = out1 @ b64_lines inp1 \<and>
      b64_rest (pending ctx @ inp) = b64_rest inp1 \<and> t1 = length out1 \<and> length inp1 \<le> length inp \<and> length out1 \<le> 65"
    proof (cases "data_used ctx = 0")
      case True
      then have "ctx1 = ctx" "out1 = []" "inp1 = inp" "t1 = 0" "pending ctx = []" using first by (auto simp: pending_def)
      then show ?thesis using du by simp
    next
      case False
      let ?b = "pending ctx @ take (48 - data_used ctx) inp"
      have lb: "length ?b = 48" using 3 du lp by simp
      have p: "pending ctx @ inp = ?b @ drop (48 - data_used ctx) inp" by simp
      have "ctx1 = ctx\<lparr>data := ?b, data_used := 0\<rparr>" "out1 = b64 ?b @ [10]" "inp1 = drop (48 - data_used ctx) inp"
        "t1 = 65"
        using first False b64len[OF lb] unfolding pending_def EVP_EncodeBlock_def encode_loop_b64 Let_def
        by (simp_all only: if_True prod.case prod.inject not_False_eq_True) simp_all
      then show ?thesis
        using lb b64len[OF lb] b64_lines_first[OF lb, of "drop (48 - data_used ctx) inp", folded p] by simp
    qed
    have "t1 + length (b64_lines inp1) < SIZE_MOD" using f fit[of inp1] by simp
    then have el: "encode_lines inp1 t1 = (b64_lines inp1, b64_rest inp1, Some (t1 + length (b64_lines inp1)))"
      by (rule encode_lines_b64)
    let ?c = "ctx1\<lparr>data := b64_rest inp1 @ drop (length (b64_rest inp1)) (data ctx1), data_used := length (b64_rest inp1)\<rparr>"
    have "EVP_EncodeUpdate ctx inp = (?c, out1 @ b64_lines inp1, reported (t1 + length (b64_lines inp1)))"
      using 3 unfolding EVP_EncodeUpdate_def first by (simp add: Let_def el reported_def)
    moreover have "enc_ok ?c" "pending ?c = b64_rest inp1"
      using length_b64_rest[of inp1] f by (simp_all add: enc_ok_def pending_def)
    ultimately show ?thesis using f by simp
  qed
qed

lemma EVP_EncodeFinal_step:
  "enc_ok ctx \<Longrightarrow> fst (snd (EVP_EncodeFinal ctx)) = (if pending ctx = [] then [] else b64 (pending ctx) @ [10])"
  by (auto simp: EVP_EncodeFinal_def pending_def enc_ok_def EVP_EncodeBlock_def encode_loop_b64 Let_def)

text \<open>A whole stream: one call of \<open>EVP_EncodeUpdate\<close> per chunk.\<close>

fun encode_stream :: "EVP_ENCODE_CTX \<Rightarrow> bytes list \<Rightarrow> EVP_ENCODE_CTX \<times> bytes" where
  "encode_stream ctx [] = (ctx, [])"
| "encode_stream ctx (c # cs) =
     (let (ctx, out, _) = EVP_EncodeUpdate ctx c; (ctx, rest) = encode_stream ctx cs in (ctx, out @ rest))"

definition encode_all :: "bytes list \<Rightarrow> bytes" where
  "encode_all cs = (let (ctx, out) = encode_stream EVP_EncodeInit cs in out @ fst (snd (EVP_EncodeFinal ctx)))"

lemma encode_stream_step:
  "enc_ok ctx \<Longrightarrow> \<forall>c\<in>set cs. length c < 2 ^ 62 \<Longrightarrow>
   \<exists>ctx'. encode_stream ctx cs = (ctx', b64_lines (pending ctx @ concat cs)) \<and> enc_ok ctx' \<and>
     pending ctx' = b64_rest (pending ctx @ concat cs)"
proof (induction cs arbitrary: ctx)
  case Nil
  have "length (pending ctx) < 48" using Nil by (simp add: enc_ok_def pending_def)
  then have "b64_lines (pending ctx) = []" by (subst b64_lines.simps) simp
  then show ?case using Nil \<open>length (pending ctx) < 48\<close> by (simp add: b64_rest_short)
next
  case (Cons c cs)
  then obtain ctx1 n where s: "EVP_EncodeUpdate ctx c = (ctx1, b64_lines (pending ctx @ c), n)"
    "enc_ok ctx1" "pending ctx1 = b64_rest (pending ctx @ c)"
    using EVP_EncodeUpdate_step[of ctx c] by auto
  obtain ctx2 where "encode_stream ctx1 cs = (ctx2, b64_lines (pending ctx1 @ concat cs))" "enc_ok ctx2"
    "pending ctx2 = b64_rest (pending ctx1 @ concat cs)"
    using Cons.IH[OF s(2)] Cons.prems by auto
  then show ?case using s b64_lines_append[of "pending ctx @ c" "concat cs"] by simp
qed

lemma encode_all_text: "\<forall>c\<in>set cs. length c < 2 ^ 62 \<Longrightarrow> encode_all cs = b64_text (concat cs)"
proof -
  assume a: "\<forall>c\<in>set cs. length c < 2 ^ 62"
  have i: "enc_ok EVP_EncodeInit" "pending EVP_EncodeInit = []" by (simp_all add: enc_ok_def pending_def EVP_EncodeInit_def)
  from encode_stream_step[OF i(1) a] i(2) EVP_EncodeFinal_step show ?thesis
    by (auto simp: encode_all_def b64_text_def)
qed


text \<open>Decoding skips white space and does not see where a chunk ends.\<close>

lemma decode_update_filter:
  "decode_update_loop ctx out inp = decode_update_loop ctx out (filter (\<lambda>c. \<not> is_space c) inp)"
  by (induction ctx out inp rule: decode_update_loop.induct) (auto simp: Let_def split: option.splits)

lemma decode_update_append:
  "decode_update_loop ctx out (x @ y) =
    (case decode_update_loop ctx out x of (ctx', out', ok) \<Rightarrow>
       if ok then decode_update_loop ctx' out' y else (ctx', out', False))"
  by (induction ctx out x rule: decode_update_loop.induct) (auto simp: Let_def split: option.splits)

definition dec_ready :: "EVP_ENCODE_CTX \<Rightarrow> bool" where
  "dec_ready ctx \<longleftrightarrow> data_used ctx = 0 \<and> length (data ctx) = 48 \<and> \<not> eof_seen ctx \<and> \<not> error_encountered ctx"

lemma decode_update_quad:
  assumes "dec_ready ctx" "\<not> is_space a" "\<not> is_space b" "\<not> is_space c" "\<not> is_space d"
    and "base64_decode_quad [a, b, c, d] = Some bs"
  shows "\<exists>ctx'. decode_update_loop ctx out (a # b # c # d # r) = decode_update_loop ctx' (out @ bs) r \<and>
    data_used ctx' = 0 \<and> length (data ctx') = 48 \<and> eof_seen ctx' = (length bs < 3) \<and> \<not> error_encountered ctx'"
proof -
  obtain x0 x1 x2 x3 xs where x: "data ctx = x0 # x1 # x2 # x3 # xs" "length xs = 44"
    using assms(1) by (auto simp: dec_ready_def length_Suc_conv eval_nat_numeral)
  have q: "base64_decode_quad (a # b # c # d # xs) = base64_decode_quad [a, b, c, d]"
  proof -
    have "(a # b # c # d # xs) ! 0 = [a, b, c, d] ! 0" "(a # b # c # d # xs) ! 1 = [a, b, c, d] ! 1"
      "(a # b # c # d # xs) ! 2 = [a, b, c, d] ! 2" "(a # b # c # d # xs) ! 3 = [a, b, c, d] ! 3"
      by (simp_all add: numeral_2_eq_2 numeral_3_eq_3)
    then show ?thesis unfolding base64_decode_quad_def by (simp only:)
  qed
  show ?thesis
    using assms x q
    by (intro exI[of _ "ctx\<lparr>data := a # b # c # d # xs, data_used := 0, eof_seen := length bs < 3\<rparr>"])
      (simp add: dec_ready_def Let_def numeral_2_eq_2 numeral_3_eq_3)
qed

lemma b64_no_space: "filter (\<lambda>c. \<not> is_space c) (b64 x) = b64 x"
proof -
  have q: "c \<in> set (quad_chars n) \<Longrightarrow> n < 16777216 \<Longrightarrow> \<not> is_space c" for c n
    by (auto simp: quad_chars_def b64_char_props div_less_iff_less_mult simp flip: div_mult2_eq)
  have "c \<in> set (b64 x) \<Longrightarrow> \<not> is_space c" for c
  proof (induction x rule: b64.induct)
    case (2 a b c r)
    then show ?case using q be_val_3_less by (auto simp del: be_val.simps)
  next
    case (3 a b)
    then have "c = 61 \<or> c \<in> set (quad_chars (be_val [a, b, 0]))"
      by (auto simp del: be_val.simps dest: in_set_takeD)
    then show ?case using q[OF _ be_val_3_less] by (auto simp: is_space_def[of 61] simp del: be_val.simps)
  next
    case (4 a)
    then have "c = 61 \<or> c \<in> set (quad_chars (be_val [a, 0, 0]))"
      by (auto simp del: be_val.simps dest: in_set_takeD)
    then show ?case using q[OF _ be_val_3_less] by (auto simp: is_space_def[of 61] simp del: be_val.simps)
  qed simp
  then show ?thesis by simp
qed

lemma decode_update_quads:
  "decode_quads inp = Some x \<Longrightarrow> \<forall>c\<in>set inp. \<not> is_space c \<Longrightarrow> dec_ready ctx \<Longrightarrow>
   \<exists>ctx'. decode_update_loop ctx out inp = (ctx', out @ x, True) \<and> data_used ctx' = 0 \<and> \<not> error_encountered ctx' \<and>
     eof_seen ctx' = (length x mod 3 \<noteq> 0)"
proof (induction inp arbitrary: x ctx out rule: decode_quads.induct)
  case 1
  then show ?case by (simp add: dec_ready_def)
next
  case (2 a b c d inp)
  then obtain bs where bs: "base64_decode_quad [a, b, c, d] = Some bs" by (auto split: option.splits)
  have sp: "\<not> is_space a" "\<not> is_space b" "\<not> is_space c" "\<not> is_space d" using 2(3) by simp_all
  obtain ctx1 where c1: "decode_update_loop ctx out (a # b # c # d # inp) = decode_update_loop ctx1 (out @ bs) inp"
    "data_used ctx1 = 0" "length (data ctx1) = 48" "eof_seen ctx1 = (length bs < 3)" "\<not> error_encountered ctx1"
    using decode_update_quad[OF 2(4) sp bs] by blast
  show ?case
  proof (cases "length bs = 3")
    case True
    then obtain x' where o: "decode_quads inp = Some x'" "x = bs @ x'" using 2(2) bs by (auto split: if_splits)
    have "dec_ready ctx1" using c1 True by (simp add: dec_ready_def)
    then obtain ctx' where "decode_update_loop ctx1 (out @ bs) inp = (ctx', (out @ bs) @ x', True)" "data_used ctx' = 0"
      "\<not> error_encountered ctx'" "eof_seen ctx' = (length x' mod 3 \<noteq> 0)"
      using 2(1)[OF bs _ o(1)] 2(3) True by fastforce
    moreover have "length x mod 3 = length x' mod 3" using True by (simp add: o(2))
    ultimately show ?thesis using c1(1) o(2) by simp
  next
    case False
    then have "inp = []" "x = bs" using 2(2) bs by (auto split: if_splits)
    moreover have "length bs = 1 \<or> length bs = 2" using decode_quad_sound(1)[OF bs] False by auto
    ultimately show ?thesis using c1 by auto
  qed
qed auto

lemma b64_text_filter: "filter (\<lambda>c. \<not> is_space c) (b64_text s) = b64 s"
proof -
  have l: "filter (\<lambda>c. \<not> is_space c) (b64_lines s) @ b64 (b64_rest s) = b64 s"
  proof (induction s rule: b64_lines.induct)
    case (1 s)
    show ?case
    proof (cases "48 \<le> length s")
      case True
      have "b64_lines s = b64 (take 48 s) @ [10] @ b64_lines (drop 48 s)" using True by (subst b64_lines.simps) simp
      moreover have "b64 s = b64 (take 48 s) @ b64 (drop 48 s)"
        using b64_append[of "take 48 s" "drop 48 s"] True by simp
      ultimately show ?thesis
        using 1[OF True] b64_rest_drop[OF True] by (simp add: b64_no_space is_space_def[of 10])
    next
      case False
      then have "b64_lines s = []" by (subst b64_lines.simps) simp
      then show ?thesis using False by (simp add: b64_rest_short)
    qed
  qed
  have "filter (\<lambda>c. \<not> is_space c) (if b64_rest s = [] then [] else b64 (b64_rest s) @ [10]) = b64 (b64_rest s)"
    by (simp add: b64_no_space is_space_def[of 10])
  then show ?thesis using l unfolding b64_text_def filter_append by simp
qed

fun decode_stream :: "EVP_ENCODE_CTX \<Rightarrow> bytes list \<Rightarrow> EVP_ENCODE_CTX \<times> bytes \<times> bool" where
  "decode_stream ctx [] = (ctx, [], True)"
| "decode_stream ctx (c # cs) =
     (let (ret, ctx, out, _) = EVP_DecodeUpdate ctx c
      in if ret < 0 then (ctx, out, False)
         else (let (ctx, rest, ok) = decode_stream ctx cs in (ctx, out @ rest, ok)))"

definition decode_all :: "bytes list \<Rightarrow> bytes option" where
  "decode_all cs =
     (let (ctx, out, ok) = decode_stream EVP_DecodeInit cs
      in if ok \<and> EVP_DecodeFinal ctx = 1 then Some out else None)"


lemma decode_update_out:
  "decode_update_loop ctx (out @ o') inp =
    (case decode_update_loop ctx o' inp of (ctx', o'', ok) \<Rightarrow> (ctx', out @ o'', ok))"
proof (induction inp arbitrary: ctx o')
  case (Cons c inp)
  show ?case
    by (simp add: Let_def Cons.IH split: option.splits)
qed simp

lemma decode_update_error:
  "decode_update_loop ctx out inp = (ctx', out', True) \<Longrightarrow> error_encountered ctx' = error_encountered ctx"
proof (induction inp arbitrary: ctx out)
  case (Cons c inp)
  then show ?case by (fastforce simp: Let_def split: if_splits option.splits)
qed simp

lemma decode_stream_loop:
  "decode_update_loop ctx [] (concat cs) = (ctx', x, True) \<Longrightarrow> \<not> error_encountered ctx \<Longrightarrow> length x \<le> INT_MAX \<Longrightarrow>
   decode_stream ctx cs = (ctx', x, True)"
proof (induction cs arbitrary: ctx x)
  case (Cons c cs)
  obtain ctx1 o1 ok where l: "decode_update_loop ctx [] c = (ctx1, o1, ok)" by (cases rule: prod_cases3)
  then have ok: "ok" "decode_update_loop ctx1 o1 (concat cs) = (ctx', x, True)"
    using Cons.prems(1) unfolding concat.simps decode_update_append by (auto split: if_splits)
  obtain c2 x2 k2 where l2: "decode_update_loop ctx1 [] (concat cs) = (c2, x2, k2)" by (cases rule: prod_cases3)
  then have x: "c2 = ctx'" "x = o1 @ x2" "k2" using ok(2) decode_update_out[of ctx1 o1 "[]" "concat cs"] by simp_all
  have e: "\<not> error_encountered ctx1" using decode_update_error[of ctx "[]" c ctx1 o1] l ok(1) Cons.prems(2) by simp
  have "decode_stream ctx1 cs = (ctx', x2, True)"
    using Cons.IH[of ctx1 x2] l2 x e Cons.prems(3) by simp
  moreover have "\<exists>ret n. EVP_DecodeUpdate ctx c = (ret, ctx1, o1, n) \<and> 0 \<le> ret"
    using l ok Cons.prems(2,3) x by (simp add: EVP_DecodeUpdate_def)
  ultimately show ?case using x(2) by auto
qed simp

lemma decode_all_b64:
  assumes "filter (\<lambda>c. \<not> is_space c) (concat cs) = b64 x" "length x \<le> INT_MAX"
  shows "decode_all cs = Some x"
proof -
  have i: "dec_ready EVP_DecodeInit" by (simp add: dec_ready_def EVP_DecodeInit_def)
  have n: "\<forall>c\<in>set (b64 x). \<not> is_space c" using b64_no_space[of x] by (simp only: filter_id_conv)
  obtain ctx' where d: "decode_update_loop EVP_DecodeInit [] (b64 x) = (ctx', [] @ x, True)" "data_used ctx' = 0"
    "\<not> error_encountered ctx'"
    using decode_update_quads[OF decode_quads_b64 n i, of "[]"] by blast
  then have "decode_update_loop EVP_DecodeInit [] (concat cs) = (ctx', x, True)"
    using decode_update_filter[of EVP_DecodeInit "[]" "concat cs"] assms(1) by simp
  then have "decode_stream EVP_DecodeInit cs = (ctx', x, True)"
    using i assms(2) by (intro decode_stream_loop) (simp_all add: dec_ready_def)
  then show ?thesis using d by (simp add: decode_all_def EVP_DecodeFinal_def)
qed

lemma pad_nul_spec: "pad_nul x = x @ replicate ((3 - length x mod 3) mod 3) 0"
proof -
  consider "length x mod 3 = 0" | "length x mod 3 = 1" | "length x mod 3 = 2" by linarith
  then show ?thesis
  proof cases
    case 1
    then show ?thesis by (subst pad_nul.simps) simp
  next
    case 2
    then show ?thesis
      by (subst pad_nul.simps, simp add: mod_Suc, subst pad_nul.simps, simp add: mod_Suc, subst pad_nul.simps)
        (simp add: mod_Suc numeral_2_eq_2)
  next
    case 3
    then show ?thesis
      by (subst pad_nul.simps, simp, subst pad_nul.simps) (simp add: mod_Suc)
  qed
qed

lemma trim_b64:
  assumes "\<forall>c\<in>set pre. c = 32 \<or> c = 9" "\<forall>c\<in>set post. is_space c"
  shows "rev (dropWhile is_space (rev (dropWhile (\<lambda>c. c = 32 \<or> c = 9) (pre @ b64 x @ post)))) = b64 x"
proof -
  have n: "\<forall>c\<in>set (b64 x). \<not> is_space c" using b64_no_space[of x] by (simp only: filter_id_conv)
  have h: "dropWhile (\<lambda>c. c = 32 \<or> c = 9) (pre @ b64 x @ post) = dropWhile (\<lambda>c. c = 32 \<or> c = 9) (b64 x @ post)"
    using assms(1) by (simp add: dropWhile_append2)
  show ?thesis
  proof (cases "b64 x")
    case Nil
    have "\<forall>c\<in>set (dropWhile (\<lambda>c. c = 32 \<or> c = 9) post). is_space c"
      using assms(2) by (auto dest: set_dropWhileD)
    then have "dropWhile is_space (rev (dropWhile (\<lambda>c. c = 32 \<or> c = 9) post)) = []" by simp
    then show ?thesis unfolding h using Nil by simp
  next
    case (Cons c cs)
    then have "\<not> (c = 32 \<or> c = 9)" using n by (auto simp: is_space_def)
    then have 1: "dropWhile (\<lambda>c. c = 32 \<or> c = 9) (b64 x @ post) = b64 x @ post" using Cons by simp
    have 2: "dropWhile is_space (rev post @ rev (b64 x)) = dropWhile is_space (rev (b64 x))"
      by (rule dropWhile_append2) (use assms(2) in simp)
    have "dropWhile is_space (rev (b64 x)) = rev (b64 x)"
    proof (cases "rev (b64 x)")
      case (Cons y ys)
      then have "y \<in> set (b64 x)" by (metis list.set_intros(1) set_rev)
      then show ?thesis using n Cons by simp
    qed simp
    then show ?thesis unfolding h 1 rev_append 2 by simp
  qed
qed

section \<open>Properties\<close>

text \<open>C17: The constant-time encoder computes base64: \<open>EVP_EncodeBlock\<close> writes the RFC 4648 encoding
  followed by a NUL and returns its length, which for every input is four characters for each
  started group of three octets.\<close>

theorem EVP_EncodeBlock_correct:
  "EVP_EncodeBlock src = (b64 src @ [0], (length src + 2) div 3 * 4)"
  by (simp add: EVP_EncodeBlock_def encode_loop_b64 length_b64)

text \<open>C15: \<open>EVP_DecodeBase64\<close> inverts the encoder when the output has room, and what it accepts
  without padding is exactly the encoding of its result; every accepted input has the length of the
  encoding of its result.\<close>

theorem EVP_DecodeBase64_correct:
  "(length (b64 x) div 4 * 3 \<le> max_out \<longrightarrow> EVP_DecodeBase64 max_out (b64 x) = Some x) \<and>
   (EVP_DecodeBase64 max_out inp = Some out \<longrightarrow>
      length (b64 out) = length inp \<and> (length out mod 3 = 0 \<longrightarrow> inp = b64 out) \<and> length out \<le> max_out)"
proof (intro conjI impI)
  assume "length (b64 x) div 4 * 3 \<le> max_out"
  then show "EVP_DecodeBase64 max_out (b64 x) = Some x"
    by (simp add: EVP_DecodeBase64_def EVP_DecodedLength_def length_b64 decode_quads_b64)
next
  assume "EVP_DecodeBase64 max_out inp = Some out"
  then have d: "decode_quads inp = Some out" "length inp div 4 * 3 \<le> max_out"
    by (auto simp: EVP_DecodeBase64_def EVP_DecodedLength_def split: if_splits)
  then have s: "length (b64 out) = length inp \<and> (length out mod 3 = 0 \<longrightarrow> inp = b64 out)"
    by (intro decode_quads_sound)
  then show "length (b64 out) = length inp" by blast
  show "length out mod 3 = 0 \<Longrightarrow> inp = b64 out" by (rule s[THEN conjunct2, rule_format])
  have "length inp div 4 = (length out + 2) div 3" using s unfolding length_b64 by (metis nonzero_mult_div_cancel_right zero_neq_numeral)
  moreover have "length out \<le> (length out + 2) div 3 * 3" by linarith
  ultimately show "length out \<le> max_out" using d(2) by simp
qed

text \<open>Concrete input: four octets.\<close>

theorem EVP_DecodeBase64_correct_witness:
  "EVP_DecodeBase64 6 (b64 [1, 2, 3, 4]) = Some [1, 2, 3, 4] \<and> length [1, 2, 3, 4 :: u8] \<le> 6"
proof -
  have "length (b64 [1, 2, 3, 4]) div 4 * 3 \<le> 6" by (simp add: length_b64)
  then show ?thesis
    using EVP_DecodeBase64_correct[of "[1, 2, 3, 4]" 6 "b64 [1, 2, 3, 4]" "[1, 2, 3, 4]"] by blast
qed

text \<open>\<open>EVP_DecodeBlock\<close> on an encoding with blanks before it and white space after it returns the
  octets followed by as many NULs as the padding stood for.\<close>

lemma EVP_DecodeBlock_correct:
  assumes "\<forall>c\<in>set pre. c = 32 \<or> c = 9" "\<forall>c\<in>set post. is_space c" "length x < INT_MAX - 2"
  shows "EVP_DecodeBlock (pre @ b64 x @ post) = Some (x @ replicate ((3 - length x mod 3) mod 3) 0)"
proof -
  have "EVP_DecodedLength (length (b64 x)) = Some ((length x + 2) div 3 * 3)"
    by (simp add: EVP_DecodedLength_def length_b64)
  moreover have "\<not> (length x + 2) div 3 * 3 > INT_MAX" using assms(3) by linarith
  moreover have "EVP_DecodeBase64 ((length x + 2) div 3 * 3) (b64 x) = Some x"
    by (simp add: EVP_DecodeBase64_def EVP_DecodedLength_def length_b64 decode_quads_b64)
  ultimately show ?thesis
    unfolding EVP_DecodeBlock_def Let_def trim_b64[OF assms(1,2)]
    by (simp only: option.case if_False option.map pad_nul_spec)
qed

lemma EVP_DecodeBlock_correct_witness:
  "EVP_DecodeBlock ([32, 9] @ b64 [1, 2, 3, 4] @ [13, 10]) = Some ([1, 2, 3, 4] @ replicate ((3 - length [1, 2, 3, 4 :: u8] mod 3) mod 3) 0)"
  by (rule EVP_DecodeBlock_correct) (auto simp: is_space_def)



end
