(* ===== verification/Stack.thy ===== *)
theory Stack
  imports Prelude Qsort
begin

text \<open>
  \<open>crypto/stack/stack.c\<close>: the resizable array of pointers.

  A pointer is \<open>None\<close> for \<open>NULL\<close> or \<open>Some\<close> of a value of the type \<open>'p\<close>.  \<open>data\<close> holds the \<open>num\<close> valid
  pointers; the cells between \<open>num\<close> and \<open>num_alloc\<close> are never read.  A comparison function is a
  value of the type \<open>'c\<close>, and \<open>call_cmp\<close> applies it, as in the code.  The allocator is a predicate
  on sizes: whether a request of that many bytes succeeds.  A stack argument or result \<open>None\<close> is
  the \<open>NULL\<close> stack.
\<close>

section \<open>Model\<close>

record ('p, 'c) stack =
  data :: "'p option list"
  sorted_flag :: bool
  num_alloc :: nat
  comp :: "'c option"

abbreviation num :: "('p, 'c) stack \<Rightarrow> nat" where
  "num sk \<equiv> length (data sk)"

definition kMinSize :: nat where
  "kMinSize = 4"

definition sk_new :: "(nat \<Rightarrow> bool) \<Rightarrow> 'c option \<Rightarrow> ('p, 'c) stack option" where
  "sk_new m c =
     (if \<not> m 40 then None
      else if \<not> m (8 * kMinSize) then None
      else Some \<lparr>data = [], sorted_flag = False, num_alloc = kMinSize, comp = c\<rparr>)"

definition sk_new_null :: "(nat \<Rightarrow> bool) \<Rightarrow> ('p, 'c) stack option" where
  "sk_new_null m = sk_new m None"

definition sk_num :: "('p, 'c) stack option \<Rightarrow> nat" where
  "sk_num sk = (case sk of None \<Rightarrow> 0 | Some s \<Rightarrow> num s)"

definition sk_zero :: "('p, 'c) stack option \<Rightarrow> ('p, 'c) stack option" where
  "sk_zero sk =
     (case sk of
        None \<Rightarrow> None
      | Some s \<Rightarrow> if num s = 0 then Some s else Some (s\<lparr>data := [], sorted_flag := False\<rparr>))"

definition sk_value :: "('p, 'c) stack option \<Rightarrow> nat \<Rightarrow> 'p option" where
  "sk_value sk i = (case sk of None \<Rightarrow> None | Some s \<Rightarrow> if i \<ge> num s then None else data s ! i)"

definition sk_set :: "('p, 'c) stack option \<Rightarrow> nat \<Rightarrow> 'p option \<Rightarrow> 'p option \<times> ('p, 'c) stack option" where
  "sk_set sk i value =
     (case sk of
        None \<Rightarrow> (None, None)
      | Some s \<Rightarrow>
          if i \<ge> num s then (None, Some s) else (value, Some (s\<lparr>data := (data s)[i := value]\<rparr>)))"

text \<open>The pointers handed to the free function, in order.\<close>

definition sk_pop_free_ex :: "('p, 'c) stack option \<Rightarrow> 'p list" where
  "sk_pop_free_ex sk = (case sk of None \<Rightarrow> [] | Some s \<Rightarrow> concat (map (\<lambda>p. case p of None \<Rightarrow> [] | Some q \<Rightarrow> [q]) (data s)))"

text \<open>The part of \<open>sk_insert\<close> that makes room; \<open>None\<close> when it returns 0.\<close>

definition stack_grow :: "(nat \<Rightarrow> bool) \<Rightarrow> ('p, 'c) stack \<Rightarrow> ('p, 'c) stack option" where
  "stack_grow m s =
     (if num_alloc s \<le> num s + 1 then
        (let new_alloc = num_alloc s * 2 mod SIZE_MOD;
             alloc_size = new_alloc * 8 mod SIZE_MOD;
             new_alloc = (if new_alloc < num_alloc s \<or> alloc_size div 8 \<noteq> new_alloc
                          then (num_alloc s + 1) mod SIZE_MOD else new_alloc);
             alloc_size = new_alloc * 8 mod SIZE_MOD
         in if new_alloc < num_alloc s \<or> alloc_size div 8 \<noteq> new_alloc then None
            else if \<not> m alloc_size then None
            else Some (s\<lparr>num_alloc := new_alloc\<rparr>))
      else Some s)"

definition sk_insert ::
  "(nat \<Rightarrow> bool) \<Rightarrow> ('p, 'c) stack option \<Rightarrow> 'p option \<Rightarrow> nat \<Rightarrow> nat \<times> ('p, 'c) stack option" where
  "sk_insert m sk p where' =
     (case sk of
        None \<Rightarrow> (0, None)
      | Some s \<Rightarrow>
          (case stack_grow m s of
             None \<Rightarrow> (0, Some s)
           | Some s \<Rightarrow>
               (let s = s\<lparr>data := (if where' \<ge> num s then data s @ [p]
                                  else take where' (data s) @ p # drop where' (data s)),
                          sorted_flag := False\<rparr>
                in (num s, Some s))))"

definition sk_delete :: "('p, 'c) stack option \<Rightarrow> nat \<Rightarrow> 'p option \<times> ('p, 'c) stack option" where
  "sk_delete sk where' =
     (case sk of
        None \<Rightarrow> (None, None)
      | Some s \<Rightarrow>
          if where' \<ge> num s then (None, Some s)
          else (data s ! where', Some (s\<lparr>data := take where' (data s) @ drop (where' + 1) (data s)\<rparr>)))"

text \<open>The first index at which a loop over the elements stops.\<close>

fun first_index :: "('a \<Rightarrow> bool) \<Rightarrow> 'a list \<Rightarrow> nat option" where
  "first_index P [] = None"
| "first_index P (x # xs) = (if P x then Some 0 else map_option Suc (first_index P xs))"

definition sk_delete_ptr :: "('p, 'c) stack option \<Rightarrow> 'p option \<Rightarrow> 'p option \<times> ('p, 'c) stack option" where
  "sk_delete_ptr sk p =
     (case sk of
        None \<Rightarrow> (None, None)
      | Some s \<Rightarrow>
          (case first_index (\<lambda>q. q = p) (data s) of
             None \<Rightarrow> (None, Some s)
           | Some i \<Rightarrow> sk_delete (Some s) i))"

definition sk_is_sorted :: "('p, 'c) stack option \<Rightarrow> bool" where
  "sk_is_sorted sk = (case sk of None \<Rightarrow> True | Some s \<Rightarrow> sorted_flag s)"

text \<open>The binary search on the range from \<open>lo\<close> to \<open>hi\<close>; \<open>cmp\<close> compares the key with an element.\<close>

function search_loop :: "('a \<Rightarrow> int) \<Rightarrow> 'a list \<Rightarrow> nat \<Rightarrow> nat \<Rightarrow> nat option" where
  "search_loop cmp xs lo hi =
     (if lo < hi then
        (let mid = lo + (hi - lo - 1) div 2; r = cmp (xs ! mid)
         in if r > 0 then search_loop cmp xs (mid + 1) hi
            else if r < 0 then search_loop cmp xs lo mid
            else if hi - lo = 1 then Some mid
            else search_loop cmp xs lo (mid + 1))
      else None)"
  by auto
termination
proof (relation "measure (\<lambda>(_, _, lo, hi). hi - lo)", goal_cases)
  case (3 cmp xs lo hi mid r)
  then show ?case by auto
next
  case (4 cmp xs lo hi mid r)
  then have "2 \<le> hi - lo" by linarith
  then have "(hi - lo - 1) div 2 + 1 < hi - lo" by linarith
  then show ?case using 4 by simp
qed auto

declare search_loop.simps [simp del]

definition sk_find :: "('c \<Rightarrow> 'p option \<Rightarrow> 'p option \<Rightarrow> int) \<Rightarrow> ('p, 'c) stack option \<Rightarrow> 'p option \<Rightarrow> nat option" where
  "sk_find call_cmp sk p =
     (case sk of
        None \<Rightarrow> None
      | Some s \<Rightarrow>
          (case comp s of
             None \<Rightarrow> first_index (\<lambda>q. q = p) (data s)
           | Some c \<Rightarrow>
               if p = None then None
               else if \<not> sk_is_sorted (Some s) then first_index (\<lambda>elem. call_cmp c p elem = 0) (data s)
               else search_loop (call_cmp c p) (data s) 0 (num s)))"

definition sk_shift :: "('p, 'c) stack option \<Rightarrow> 'p option \<times> ('p, 'c) stack option" where
  "sk_shift sk =
     (case sk of
        None \<Rightarrow> (None, None)
      | Some s \<Rightarrow> if num s = 0 then (None, Some s) else sk_delete (Some s) 0)"

definition sk_push :: "(nat \<Rightarrow> bool) \<Rightarrow> ('p, 'c) stack option \<Rightarrow> 'p option \<Rightarrow> nat \<times> ('p, 'c) stack option" where
  "sk_push m sk p = sk_insert m sk p (sk_num sk)"

definition sk_pop :: "('p, 'c) stack option \<Rightarrow> 'p option \<times> ('p, 'c) stack option" where
  "sk_pop sk =
     (case sk of
        None \<Rightarrow> (None, None)
      | Some s \<Rightarrow> if num s = 0 then (None, Some s) else sk_delete (Some s) (num s - 1))"

definition sk_dup :: "(nat \<Rightarrow> bool) \<Rightarrow> ('p, 'c) stack option \<Rightarrow> ('p, 'c) stack option" where
  "sk_dup m sk =
     (case sk of
        None \<Rightarrow> None
      | Some s \<Rightarrow>
          if \<not> m 40 then None
          else if \<not> m (8 * num_alloc s mod SIZE_MOD) then None
          else Some \<lparr>data = data s, sorted_flag = sorted_flag s, num_alloc = num_alloc s, comp = comp s\<rparr>)"

definition sk_sort :: "('c \<Rightarrow> 'p option \<Rightarrow> 'p option \<Rightarrow> int) \<Rightarrow> ('p, 'c) stack option \<Rightarrow> ('p, 'c) stack option" where
  "sk_sort call_cmp sk =
     (case sk of
        None \<Rightarrow> None
      | Some s \<Rightarrow>
          (case comp s of
             None \<Rightarrow> Some s
           | Some c \<Rightarrow>
               if sorted_flag s then Some s
               else Some (s\<lparr>data := (if num s \<ge> 2 then qsort_by (call_cmp c) (data s) else data s),
                            sorted_flag := True\<rparr>)))"

definition sk_set_cmp_func :: "('p, 'c) stack \<Rightarrow> 'c option \<Rightarrow> 'c option \<times> ('p, 'c) stack" where
  "sk_set_cmp_func sk c =
     (let old = comp sk; sk = (if comp sk \<noteq> c then sk\<lparr>sorted_flag := False\<rparr> else sk)
      in (old, sk\<lparr>comp := c\<rparr>))"

text \<open>The loop of \<open>sk_deep_copy\<close>: the copies made so far, what is left to copy, and the state of the
  copy function; a failure returns the pointers that are freed.\<close>

fun deep_copy_loop ::
  "('s \<Rightarrow> 'p \<Rightarrow> 'p option \<times> 's) \<Rightarrow> 's \<Rightarrow> 'p option list \<Rightarrow> 'p option list \<Rightarrow> ('p list + 'p option list) \<times> 's" where
  "deep_copy_loop copy st done [] = (Inr done, st)"
| "deep_copy_loop copy st done (None # rest) = deep_copy_loop copy st (done @ [None]) rest"
| "deep_copy_loop copy st done (Some p # rest) =
     (case copy st p of
        (None, st) \<Rightarrow> (Inl (concat (map (\<lambda>q. case q of None \<Rightarrow> [] | Some q \<Rightarrow> [q]) done)), st)
      | (Some q, st) \<Rightarrow> deep_copy_loop copy st (done @ [Some q]) rest)"

text \<open>The result, the pointers freed on the way and the state of the copy function.\<close>

definition sk_deep_copy ::
  "(nat \<Rightarrow> bool) \<Rightarrow> ('s \<Rightarrow> 'p \<Rightarrow> 'p option \<times> 's) \<Rightarrow> 's \<Rightarrow> ('p, 'c) stack option \<Rightarrow>
   ('p, 'c) stack option \<times> 'p list \<times> 's" where
  "sk_deep_copy m copy st sk =
     (case sk_dup m sk of
        None \<Rightarrow> (None, [], st)
      | Some ret \<Rightarrow>
          (case deep_copy_loop copy st [] (data ret) of
             (Inl freed, st) \<Rightarrow> (None, freed, st)
           | (Inr copies, st) \<Rightarrow> (Some (ret\<lparr>data := copies\<rparr>), [], st)))"

section \<open>Searching\<close>

lemma first_index_Some:
  "first_index P xs = Some i \<longleftrightarrow> i < length xs \<and> P (xs ! i) \<and> (\<forall>j < i. \<not> P (xs ! j))"
proof (induction xs arbitrary: i)
  case (Cons x xs)
  show ?case
  proof (cases i)
    case (Suc k)
    then show ?thesis using Cons by (auto simp: less_Suc_eq_0_disj)
  qed (use Cons in auto)
qed simp

lemma first_index_None: "first_index P xs = None \<longleftrightarrow> (\<forall>x\<in>set xs. \<not> P x)"
  by (induction xs) auto

context comparison
begin

lemma search_loop_first:
  assumes "cmp_ordered cmp xs" "hi \<le> length xs" "lo \<le> hi" "\<forall>i<lo. cmp p (xs ! i) > 0"
    and "\<forall>i. hi \<le> i \<and> i < length xs \<longrightarrow> cmp p (xs ! i) < 0 \<or> (\<exists>j. lo \<le> j \<and> j < hi \<and> cmp p (xs ! j) = 0)"
  shows "search_loop (cmp p) xs lo hi = first_index (\<lambda>x. cmp p x = 0) xs"
  using assms(2-)
proof (induction "hi - lo" arbitrary: lo hi rule: less_induct)
  case less
  show ?case
  proof (cases "lo < hi")
    case False
    then have "cmp p (xs ! i) \<noteq> 0" if "i < length xs" for i
    proof (cases "i < lo")
      case False
      then show ?thesis using less.prems(4)[rule_format, of i] that \<open>\<not> lo < hi\<close> less.prems(2) by auto
    qed (use less.prems(3) in force)
    then have "\<forall>x\<in>set xs. cmp p x \<noteq> 0" by (auto simp: in_set_conv_nth)
    then have "first_index (\<lambda>x. cmp p x = 0) xs = None" by (simp add: first_index_None)
    then show ?thesis using False by (subst search_loop.simps) simp
  next
    case True
    define mid where "mid = lo + (hi - lo - 1) div 2"
    have mid: "lo \<le> mid" "mid < hi" "mid < length xs" using True less.prems(1) unfolding mid_def by linarith+
    have e: "search_loop (cmp p) xs lo hi =
        (if cmp p (xs ! mid) > 0 then search_loop (cmp p) xs (mid + 1) hi
         else if cmp p (xs ! mid) < 0 then search_loop (cmp p) xs lo mid
         else if hi - lo = 1 then Some mid else search_loop (cmp p) xs lo (mid + 1))"
      using True by (subst search_loop.simps) (simp add: mid_def Let_def)
    consider "cmp p (xs ! mid) > 0" | "cmp p (xs ! mid) < 0" | "cmp p (xs ! mid) = 0" "hi - lo = 1"
      | "cmp p (xs ! mid) = 0" "hi - lo \<noteq> 1" by linarith
    then show ?thesis
    proof cases
      case 1
      have r: "\<forall>i<mid + 1. cmp p (xs ! i) > 0" using probe_right[OF assms(1) _ mid(3) 1] by simp
      have "\<forall>i. hi \<le> i \<and> i < length xs \<longrightarrow> cmp p (xs ! i) < 0 \<or> (\<exists>j. mid + 1 \<le> j \<and> j < hi \<and> cmp p (xs ! j) = 0)"
        using less.prems(4) r by (metis less_irrefl not_less)
      then have "search_loop (cmp p) xs (mid + 1) hi = first_index (\<lambda>x. cmp p x = 0) xs"
        using less.prems mid r by (intro less.hyps) auto
      then show ?thesis using e 1 by simp
    next
      case 2
      have "\<forall>i. mid \<le> i \<and> i < length xs \<longrightarrow> cmp p (xs ! i) < 0" using probe_left[OF assms(1) _ _ 2] by blast
      then have "search_loop (cmp p) xs lo mid = first_index (\<lambda>x. cmp p x = 0) xs"
        using less.prems mid by (intro less.hyps) auto
      then show ?thesis using e 2 by simp
    next
      case 3
      then have "mid = lo" using mid by linarith
      then have "first_index (\<lambda>x. cmp p x = 0) xs = Some mid"
        using 3 mid less.prems(3) by (auto simp: first_index_Some)
      then show ?thesis using e 3 by simp
    next
      case 4
      have lt: "mid + 1 < hi" using 4(2) True unfolding mid_def by linarith
      have "search_loop (cmp p) xs lo (mid + 1) = first_index (\<lambda>x. cmp p x = 0) xs"
        using less.prems mid lt 4(1) by (intro less.hyps) (auto intro!: exI[of _ mid])
      then show ?thesis using e 4 by simp
    qed
  qed
qed

lemma search_loop_whole:
  "cmp_ordered cmp xs \<Longrightarrow> search_loop (cmp p) xs 0 (length xs) = first_index (\<lambda>x. cmp p x = 0) xs"
  by (rule search_loop_first) auto

end


section \<open>Invariant\<close>

definition stack_ok :: "('c \<Rightarrow> 'p option \<Rightarrow> 'p option \<Rightarrow> int) \<Rightarrow> ('p, 'c) stack \<Rightarrow> bool" where
  "stack_ok call_cmp s \<longleftrightarrow>
     num s < num_alloc s \<and> num_alloc s * 8 < SIZE_MOD \<and>
     (sorted_flag s \<longrightarrow> (\<exists>c. comp s = Some c \<and> cmp_ordered (call_cmp c) (data s)))"

text \<open>The operations that change a stack.  A store into a sorted stack is left out: see
  \<open>sk_set_breaks_find\<close>.\<close>

inductive stack_step :: "('c \<Rightarrow> 'p option \<Rightarrow> 'p option \<Rightarrow> int) \<Rightarrow> ('p, 'c) stack \<Rightarrow> ('p, 'c) stack \<Rightarrow> bool"
  for call_cmp where
  insert: "sk_insert m (Some s) p i = (n, Some s') \<Longrightarrow> stack_step call_cmp s s'"
| push: "sk_push m (Some s) p = (n, Some s') \<Longrightarrow> stack_step call_cmp s s'"
| delete: "sk_delete (Some s) i = (r, Some s') \<Longrightarrow> stack_step call_cmp s s'"
| delete_ptr: "sk_delete_ptr (Some s) p = (r, Some s') \<Longrightarrow> stack_step call_cmp s s'"
| shift: "sk_shift (Some s) = (r, Some s') \<Longrightarrow> stack_step call_cmp s s'"
| pop: "sk_pop (Some s) = (r, Some s') \<Longrightarrow> stack_step call_cmp s s'"
| zero: "sk_zero (Some s) = Some s' \<Longrightarrow> stack_step call_cmp s s'"
| set: "\<not> sk_is_sorted (Some s) \<Longrightarrow> sk_set (Some s) i p = (r, Some s') \<Longrightarrow> stack_step call_cmp s s'"
| sort: "sk_sort call_cmp (Some s) = Some s' \<Longrightarrow> stack_step call_cmp s s'"
| set_cmp_func: "sk_set_cmp_func s c = (old, s') \<Longrightarrow> stack_step call_cmp s s'"
| dup: "sk_dup m (Some s) = Some s' \<Longrightarrow> stack_step call_cmp s s'"

lemma sorted_wrt_delete: "sorted_wrt P xs \<Longrightarrow> sorted_wrt P (take i xs @ drop (Suc i) xs)"
proof -
  assume s: "sorted_wrt P xs"
  have "set (drop (Suc i) xs) \<subseteq> set (drop i xs)" by (metis drop_Suc set_drop_subset drop_drop plus_1_eq_Suc)
  moreover have "sorted_wrt P (take i xs @ drop i xs)" using s by simp
  ultimately show ?thesis
    using s by (auto simp: sorted_wrt_append sorted_wrt_drop simp del: append_take_drop_id)
qed

lemma sk_delete_ok:
  assumes "stack_ok call_cmp s" "sk_delete (Some s) i = (r, Some s')"
  shows "stack_ok call_cmp s'"
  using assms by (auto simp: sk_delete_def stack_ok_def cmp_ordered_def sorted_wrt_delete split: if_splits)

lemma stack_grow_Some:
  assumes "stack_grow m s = Some s1" "num s < num_alloc s" "num_alloc s * 8 < SIZE_MOD"
  shows "num s + 1 < num_alloc s1 \<and> num_alloc s1 * 8 < SIZE_MOD \<and> data s1 = data s \<and> comp s1 = comp s"
proof (cases "num_alloc s \<le> num s + 1")
  case True
  define k where "k = num_alloc s"
  have k: "k * 2 mod SIZE_MOD = k * 2" "(k + 1) mod SIZE_MOD = k + 1" "k * 8 < SIZE_MOD" using assms(3) by (simp_all add: k_def)
  define n where "n = (if k * 2 < k \<or> k * 2 * 8 mod SIZE_MOD div 8 \<noteq> k * 2 then k + 1 else k * 2)"
  have g: "\<not> (n < k \<or> n * 8 mod SIZE_MOD div 8 \<noteq> n)" "s1 = s\<lparr>num_alloc := n\<rparr>"
    using assms(1) unfolding stack_grow_def if_P[OF True] unfolding Let_def k_def[symmetric] k n_def[symmetric]
    by (simp_all only: option.simps option.inject simp_thms split: if_splits)
  have le: "k + 1 \<le> n" using assms(2) by (simp add: n_def k_def)
  have "n * 8 < SIZE_MOD"
  proof (rule ccontr)
    assume "\<not> n * 8 < SIZE_MOD"
    then have "n * 8 mod SIZE_MOD < n * 8" using mod_less_divisor[of SIZE_MOD "n * 8"] by linarith
    then have "n * 8 mod SIZE_MOD div 8 < n" by (simp add: less_mult_imp_div_less)
    then show False using g(1) by simp
  qed
  then show ?thesis using g(2) le assms(2) by (simp add: k_def)
next
  case False
  then show ?thesis using assms by (simp add: stack_grow_def)
qed

lemma sk_insert_Some:
  assumes "sk_insert m (Some s) p w = (n, Some s')"
  shows "(n = 0 \<and> s' = s) \<or> (\<exists>s1. stack_grow m s = Some s1 \<and> n = num s' \<and>
    s' = s1\<lparr>data := (if w \<ge> num s1 then data s1 @ [p] else take w (data s1) @ p # drop w (data s1)), sorted_flag := False\<rparr>)"
  using assms by (auto simp: sk_insert_def Let_def split: option.splits)

lemma sk_insert_ok:
  assumes ok: "stack_ok call_cmp s" and i: "sk_insert m (Some s) p w = (n, Some s')"
  shows "stack_ok call_cmp s'"
  using sk_insert_Some[OF i]
proof
  assume "\<exists>s1. stack_grow m s = Some s1 \<and> n = num s' \<and>
    s' = s1\<lparr>data := (if w \<ge> num s1 then data s1 @ [p] else take w (data s1) @ p # drop w (data s1)), sorted_flag := False\<rparr>"
  then obtain s1 where s1: "stack_grow m s = Some s1"
    "s' = s1\<lparr>data := (if w \<ge> num s1 then data s1 @ [p] else take w (data s1) @ p # drop w (data s1)), sorted_flag := False\<rparr>"
    by blast
  have "num s + 1 < num_alloc s1 \<and> num_alloc s1 * 8 < SIZE_MOD \<and> data s1 = data s"
    using stack_grow_Some[OF s1(1)] ok by (simp add: stack_ok_def)
  then show ?thesis using s1(2) by (auto simp: stack_ok_def)
qed (use ok in simp)

lemma stack_step_ok:
  assumes "\<And>c. comparison (call_cmp c)" "stack_step call_cmp s s'" "stack_ok call_cmp s"
  shows "stack_ok call_cmp s'"
  using assms(2,3)
proof cases
  case (insert m p i n)
  then show ?thesis using sk_insert_ok assms(3) by blast
next
  case (push m p n)
  then show ?thesis using sk_insert_ok assms(3) unfolding sk_push_def by blast
next
  case (delete i r)
  then show ?thesis using sk_delete_ok assms(3) by blast
next
  case (delete_ptr p r)
  then show ?thesis using sk_delete_ok[OF assms(3)] assms(3) by (auto simp: sk_delete_ptr_def split: option.splits)
next
  case (shift r)
  then show ?thesis using sk_delete_ok[OF assms(3)] assms(3) by (auto simp: sk_shift_def split: if_splits)
next
  case (pop r)
  then show ?thesis using sk_delete_ok[OF assms(3)] assms(3) by (auto simp: sk_pop_def split: if_splits)
next
  case zero
  then show ?thesis using assms(3) by (auto simp: sk_zero_def stack_ok_def split: if_splits)
next
  case (set i p r)
  then show ?thesis using assms(3) by (auto simp: sk_set_def sk_is_sorted_def stack_ok_def split: if_splits)
next
  case sort
  have "cmp_ordered (call_cmp c) (data s)" if "num s < 2" for c
    using that by (cases "data s") (auto simp: cmp_ordered_def)
  then show ?thesis
    using sort assms(3) comparison.ordered_qsort_by[OF assms(1)]
    by (auto simp: sk_sort_def stack_ok_def split: option.splits if_splits)
next
  case (set_cmp_func c old)
  then show ?thesis using assms(3) by (auto simp: sk_set_cmp_func_def stack_ok_def Let_def split: if_splits)
next
  case (dup m)
  then show ?thesis using assms(3) by (auto simp: sk_dup_def stack_ok_def split: if_splits)
qed

lemma stack_reachable_ok:
  assumes "\<And>c. comparison (call_cmp c)" "sk_new m c = Some s0" "(stack_step call_cmp)\<^sup>*\<^sup>* s0 s"
  shows "stack_ok call_cmp s"
  using assms(3)
proof (induction rule: rtranclp_induct)
  case base
  show ?case using assms(2) by (auto simp: sk_new_def kMinSize_def stack_ok_def split: if_splits)
qed (rule stack_step_ok[OF assms(1)])


section \<open>Properties\<close>


definition int_cmp :: "unit \<Rightarrow> int option \<Rightarrow> int option \<Rightarrow> int" where
  "int_cmp u a b =
     (case (a, b) of (None, None) \<Rightarrow> 0 | (None, Some _) \<Rightarrow> - 1 | (Some _, None) \<Rightarrow> 1 | (Some x, Some y) \<Rightarrow> x - y)"

interpretation int_cmp: comparison "int_cmp u"
  by unfold_locales (auto simp: int_cmp_def split: option.splits)


text \<open>C25: \<open>sk_set\<close> does not clear the mark of a sorted stack, although the mark is documented to say
  that the values are in ascending order: after a store into a sorted stack an element can be in
  the stack that \<open>sk_find\<close> does not find.\<close>

theorem sk_set_breaks_find:
  "let s0 = \<lparr>data = [Some 1, Some 2, Some 3], sorted_flag = True, num_alloc = 4, comp = Some ()\<rparr>;
       s = snd (sk_set (Some s0) 0 (Some 9))
   in stack_ok int_cmp s0 \<and> sk_value s 0 = Some 9 \<and> sk_is_sorted s \<and> sk_find int_cmp s (Some 9) = None"
proof -
  have "search_loop (int_cmp () (Some 9)) [Some 9, Some 2, Some 3] 0 (Suc (Suc (Suc 0))) = None" by code_simp
  then show ?thesis
    by (simp add: Let_def stack_ok_def cmp_ordered_def sk_set_def sk_value_def sk_is_sorted_def sk_find_def)
      (simp add: int_cmp_def)
qed

text \<open>C23: \<open>sk_insert\<close> either reports the new size of a stack whose elements are the old ones with the
  new one at the given place, or at the end when the place is beyond it, or reports 0 and leaves the
  stack as it was; \<open>sk_pop\<close> takes back what \<open>sk_push\<close> put in, and \<open>sk_delete\<close> what \<open>sk_insert\<close> did.\<close>

theorem sk_insert_delete:
  assumes "sk_insert m (Some s) p w = (n, Some s')"
  shows "(if n = 0 then s' = s
      else data s' = take w (data s) @ p # drop w (data s) \<and> n = num s + 1 \<and> \<not> sorted_flag s' \<and> comp s' = comp s) \<and>
    (n \<noteq> 0 \<longrightarrow> fst (sk_delete (Some s') (min w (num s))) = p \<and>
       map_option data (snd (sk_delete (Some s') (min w (num s)))) = Some (data s)) \<and>
    (n \<noteq> 0 \<and> w = num s \<longrightarrow> fst (sk_pop (Some s')) = p \<and> map_option data (snd (sk_pop (Some s'))) = Some (data s))"
proof (cases "n = 0")
  case True
  then show ?thesis using sk_insert_Some[OF assms] by (auto split: if_splits)
next
  case False
  then obtain s1 where s1: "stack_grow m s = Some s1" "n = num s'"
    "s' = s1\<lparr>data := (if w \<ge> num s1 then data s1 @ [p] else take w (data s1) @ p # drop w (data s1)), sorted_flag := False\<rparr>"
    using sk_insert_Some[OF assms] by blast
  have "data s1 = data s" "comp s1 = comp s"
    using s1(1) by (auto simp: stack_grow_def Let_def split: if_splits)
  then have d: "data s' = take w (data s) @ p # drop w (data s)" "n = num s + 1" "\<not> sorted_flag s'" "comp s' = comp s"
    using s1(2,3) by (auto split: if_splits)
  show ?thesis using False d by (auto simp: sk_delete_def sk_pop_def nth_append min_def)
qed

theorem sk_insert_delete_witness:
  "let s = \<lparr>data = [Some (1::int), Some 2], sorted_flag = True, num_alloc = 4, comp = None :: unit option\<rparr>;
       s' = \<lparr>data = [Some (1::int), None, Some 2], sorted_flag = False, num_alloc = 4, comp = None\<rparr>
   in (if 3 = (0::nat) then s' = s
      else data s' = take 1 (data s) @ None # drop 1 (data s) \<and> 3 = num s + 1 \<and> \<not> sorted_flag s' \<and> comp s' = comp s) \<and>
    (3 \<noteq> (0::nat) \<longrightarrow> fst (sk_delete (Some s') (min 1 (num s))) = None \<and>
       map_option data (snd (sk_delete (Some s') (min 1 (num s)))) = Some (data s)) \<and>
    (3 \<noteq> (0::nat) \<and> 1 = num s \<longrightarrow> fst (sk_pop (Some s')) = None \<and> map_option data (snd (sk_pop (Some s'))) = Some (data s))"
  unfolding Let_def
  by (rule sk_insert_delete[of "\<lambda>_. True"]) (simp add: sk_insert_def stack_grow_def)


definition pointers :: "'p option list \<Rightarrow> 'p list" where
  "pointers xs = concat (map (\<lambda>q. case q of None \<Rightarrow> [] | Some q \<Rightarrow> [q]) xs)"

lemma pointers_simps [simp]:
  "pointers [] = []" "pointers (None # xs) = pointers xs" "pointers (Some p # xs) = p # pointers xs"
  "pointers (xs @ ys) = pointers xs @ pointers ys"
  by (simp_all add: pointers_def)

lemma deep_copy_loop_pure:
  "fst (deep_copy_loop (\<lambda>st p. (f p, st)) st ds xs) =
    (if \<forall>p\<in>set (pointers xs). f p \<noteq> None then Inr (ds @ map (\<lambda>q. Option.bind q f) xs)
     else Inl (pointers ds @ map (the \<circ> f) (takeWhile (\<lambda>p. f p \<noteq> None) (pointers xs))))"
proof (induction xs arbitrary: ds)
  case (Cons q xs)
  show ?case
  proof (cases q)
    case None
    then show ?thesis using Cons[of "ds @ [None]"] by simp
  next
    case (Some p)
    show ?thesis
    proof (cases "f p")
      case None
      then show ?thesis using Some by (simp add: pointers_def)
    next
      case (Some r)
      then show ?thesis using \<open>q = Some p\<close> Cons[of "ds @ [Some r]"] by simp
    qed
  qed
qed simp



end
