(* ===== verification/Lhash.thy ===== *)
theory Lhash
  imports Prelude Mem
begin

text \<open>The chained hash table \<open>lhash/lhash.c\<close>: an array of chains, each item with its data pointer
  and the cached 32-bit hash. An item pointer is the item's value; a pointer to a link is the bucket
  and the position in its chain. The hash and comparison functions are arguments, and each
  allocation succeeds or fails as an arbitrary predicate on sizes says. The locale
  \<open>hash_functions\<close> states what the table needs of the two functions (the comparison is an
  equivalence at 0 and equal data have equal hashes); inside it the table is proved to implement a
  dictionary, over which the clients reason.\<close>

section \<open>Model\<close>

definition kMinNumBuckets :: nat where
  "kMinNumBuckets = 16"

definition kMaxAverageChainLength :: nat where
  "kMaxAverageChainLength = 2"

definition kMinAverageChainLength :: nat where
  "kMinAverageChainLength = 1"

record 'd lhash_item =
  item_data :: 'd
  item_hash :: u32

record 'd lhash =
  num_items :: nat
  buckets :: "'d lhash_item list list"
  callback_depth :: u32

abbreviation num_buckets :: "'d lhash \<Rightarrow> nat" where
  "num_buckets lh \<equiv> length (buckets lh)"

definition OPENSSL_lh_new :: "(nat \<Rightarrow> bool) \<Rightarrow> 'd lhash option" where
  "OPENSSL_lh_new m =
     (if \<not> m 48 then None
      else if \<not> m (8 * kMinNumBuckets) then None
      else Some \<lparr>num_items = 0, buckets = replicate kMinNumBuckets [], callback_depth = 0\<rparr>)"

text \<open>The items that are freed, in order.\<close>

definition OPENSSL_lh_free :: "'d lhash option \<Rightarrow> 'd lhash_item list" where
  "OPENSSL_lh_free lh = (case lh of None \<Rightarrow> [] | Some lh \<Rightarrow> concat (buckets lh))"

definition OPENSSL_lh_num_items :: "'d lhash \<Rightarrow> nat" where
  "OPENSSL_lh_num_items lh = num_items lh"

text \<open>The walk along a chain: the number of items before the match, or before the \<open>NULL\<close> at the end.\<close>

fun chain_position :: "('d \<Rightarrow> bool) \<Rightarrow> 'd lhash_item list \<Rightarrow> nat" where
  "chain_position P [] = 0"
| "chain_position P (cur # chain) = (if P (item_data cur) then 0 else Suc (chain_position P chain))"

text \<open>A pointer to a link is the bucket and the position in its chain.\<close>

definition get_next_ptr_and_hash :: "('d \<Rightarrow> u32) \<Rightarrow> ('d \<Rightarrow> 'd \<Rightarrow> int) \<Rightarrow> 'd lhash \<Rightarrow> 'd \<Rightarrow> (nat \<times> nat) \<times> u32" where
  "get_next_ptr_and_hash hash cmp lh data =
     (let h = hash data; b = unat h mod num_buckets lh
      in ((b, chain_position (\<lambda>d. cmp d data = 0) (buckets lh ! b)), h))"

definition get_next_ptr_by_key :: "'d lhash \<Rightarrow> u32 \<Rightarrow> ('d \<Rightarrow> int) \<Rightarrow> nat \<times> nat" where
  "get_next_ptr_by_key lh key_hash cmp_key =
     (let b = unat key_hash mod num_buckets lh
      in (b, chain_position (\<lambda>d. cmp_key d = 0) (buckets lh ! b)))"

definition link_data :: "'d lhash \<Rightarrow> nat \<times> nat \<Rightarrow> 'd option" where
  "link_data lh p =
     (case p of (b, i) \<Rightarrow>
        if i = length (buckets lh ! b) then None else Some (item_data (buckets lh ! b ! i)))"

definition OPENSSL_lh_retrieve :: "('d \<Rightarrow> u32) \<Rightarrow> ('d \<Rightarrow> 'd \<Rightarrow> int) \<Rightarrow> 'd lhash \<Rightarrow> 'd \<Rightarrow> 'd option" where
  "OPENSSL_lh_retrieve hash cmp lh data = link_data lh (fst (get_next_ptr_and_hash hash cmp lh data))"

definition OPENSSL_lh_retrieve_key :: "'d lhash \<Rightarrow> u32 \<Rightarrow> ('d \<Rightarrow> int) \<Rightarrow> 'd option" where
  "OPENSSL_lh_retrieve_key lh key_hash cmp_key = link_data lh (get_next_ptr_by_key lh key_hash cmp_key)"

definition rebucket_item :: "'d lhash_item list list \<Rightarrow> 'd lhash_item \<Rightarrow> 'd lhash_item list list" where
  "rebucket_item new_buckets cur =
     (let new_bucket = unat (item_hash cur) mod length new_buckets
      in new_buckets[new_bucket := cur # new_buckets ! new_bucket])"

definition lh_rebucket :: "(nat \<Rightarrow> bool) \<Rightarrow> 'd lhash \<Rightarrow> nat \<Rightarrow> 'd lhash" where
  "lh_rebucket m lh new_num_buckets =
     (let alloc_size = 8 * new_num_buckets mod SIZE_MOD
      in if alloc_size div 8 \<noteq> new_num_buckets then lh
         else if \<not> m alloc_size then lh
         else lh\<lparr>buckets := foldl (\<lambda>new_buckets chain. foldl rebucket_item new_buckets chain)
                            (replicate new_num_buckets []) (buckets lh)\<rparr>)"

definition lh_maybe_resize :: "(nat \<Rightarrow> bool) \<Rightarrow> 'd lhash \<Rightarrow> 'd lhash" where
  "lh_maybe_resize m lh =
     (if callback_depth lh > 0 then lh
      else
        (let avg_chain_length = num_items lh div num_buckets lh
         in if avg_chain_length > kMaxAverageChainLength then
              (let new_num_buckets = num_buckets lh * 2 mod SIZE_MOD
               in if new_num_buckets > num_buckets lh then lh_rebucket m lh new_num_buckets else lh)
            else if avg_chain_length < kMinAverageChainLength \<and> num_buckets lh > kMinNumBuckets then
              (let new_num_buckets = num_buckets lh div 2
               in lh_rebucket m lh (if new_num_buckets < kMinNumBuckets then kMinNumBuckets else new_num_buckets))
            else lh))"

text \<open>The result, \<open>*old_data\<close> and the table.\<close>

definition OPENSSL_lh_insert ::
  "('d \<Rightarrow> u32) \<Rightarrow> ('d \<Rightarrow> 'd \<Rightarrow> int) \<Rightarrow> (nat \<Rightarrow> bool) \<Rightarrow> 'd lhash \<Rightarrow> 'd \<Rightarrow> bool \<times> 'd option \<times> 'd lhash" where
  "OPENSSL_lh_insert hash cmp m lh data =
     (case get_next_ptr_and_hash hash cmp lh data of ((b, i), h) \<Rightarrow>
        (case link_data lh (b, i) of
           Some old \<Rightarrow>
             (True, Some old,
              lh\<lparr>buckets := (buckets lh)[b := (buckets lh ! b)[i := (buckets lh ! b ! i)\<lparr>item_data := data\<rparr>]]\<rparr>)
         | None \<Rightarrow>
             if \<not> m 24 then (False, None, lh)
             else
               (True, None,
                lh_maybe_resize m
                  (lh\<lparr>buckets := (buckets lh)[b := buckets lh ! b @ [\<lparr>item_data = data, item_hash = h\<rparr>]],
                      num_items := num_items lh + 1\<rparr>))))"

definition OPENSSL_lh_delete ::
  "('d \<Rightarrow> u32) \<Rightarrow> ('d \<Rightarrow> 'd \<Rightarrow> int) \<Rightarrow> (nat \<Rightarrow> bool) \<Rightarrow> 'd lhash \<Rightarrow> 'd \<Rightarrow> 'd option \<times> 'd lhash" where
  "OPENSSL_lh_delete hash cmp m lh data =
     (case get_next_ptr_and_hash hash cmp lh data of ((b, i), h) \<Rightarrow>
        (case link_data lh (b, i) of
           None \<Rightarrow> (None, lh)
         | Some ret \<Rightarrow>
             (Some ret,
              lh_maybe_resize m
                (lh\<lparr>buckets := (buckets lh)[b := take i (buckets lh ! b) @ drop (i + 1) (buckets lh ! b)],
                    num_items := num_items lh - 1\<rparr>))))"

text \<open>The callback changes a state \<open>'s\<close> that does not include the table.\<close>

definition OPENSSL_lh_doall_arg ::
  "(nat \<Rightarrow> bool) \<Rightarrow> 'd lhash \<Rightarrow> ('d \<Rightarrow> 's \<Rightarrow> 's) \<Rightarrow> 's \<Rightarrow> 's \<times> 'd lhash" where
  "OPENSSL_lh_doall_arg m lh func arg =
     (let lh = (if callback_depth lh < 0xffffffff then lh\<lparr>callback_depth := callback_depth lh + 1\<rparr> else lh);
          arg = foldl (\<lambda>arg chain. foldl (\<lambda>arg cur. func (item_data cur) arg) arg chain) arg (buckets lh);
          lh = (if callback_depth lh < 0xffffffff then lh\<lparr>callback_depth := callback_depth lh - 1\<rparr> else lh)
      in (arg, lh_maybe_resize m lh))"

section \<open>Invariant\<close>

text \<open>The contract between a table and the functions it is created with.\<close>

locale hash_functions =
  fixes hash :: "'d \<Rightarrow> u32" and cmp :: "'d \<Rightarrow> 'd \<Rightarrow> int"
  assumes cmp_refl: "cmp a a = 0"
    and cmp_sym: "cmp a b = 0 \<Longrightarrow> cmp b a = 0"
    and cmp_trans: "cmp a b = 0 \<Longrightarrow> cmp b c = 0 \<Longrightarrow> cmp a c = 0"
    and hash_cmp: "cmp a b = 0 \<Longrightarrow> hash a = hash b"

definition elems :: "'d lhash \<Rightarrow> 'd set" where
  "elems lh = item_data ` set (concat (buckets lh))"

definition items_ok :: "('d \<Rightarrow> u32) \<Rightarrow> 'd lhash_item list list \<Rightarrow> bool" where
  "items_ok hash bs \<longleftrightarrow>
     (\<forall>b < length bs. \<forall>it\<in>set (bs ! b). item_hash it = hash (item_data it) \<and> unat (item_hash it) mod length bs = b)"

definition chains_distinct :: "('d \<Rightarrow> 'd \<Rightarrow> int) \<Rightarrow> 'd lhash_item list list \<Rightarrow> bool" where
  "chains_distinct cmp bs \<longleftrightarrow>
     (\<forall>b < length bs. sorted_wrt (\<lambda>x y. cmp (item_data x) (item_data y) \<noteq> 0) (bs ! b))"

definition lh_ok :: "('d \<Rightarrow> u32) \<Rightarrow> ('d \<Rightarrow> 'd \<Rightarrow> int) \<Rightarrow> 'd lhash \<Rightarrow> bool" where
  "lh_ok hash cmp lh \<longleftrightarrow>
     kMinNumBuckets \<le> num_buckets lh \<and> items_ok hash (buckets lh) \<and> chains_distinct cmp (buckets lh) \<and>
     num_items lh = length (concat (buckets lh))"

lemma chain_position_le: "chain_position P c \<le> length c"
  by (induction c) auto

lemma chain_position_match:
  "chain_position P c < length c \<Longrightarrow> P (item_data (c ! chain_position P c))"
  by (induction c) auto

lemma chain_position_before: "x \<in> set (take (chain_position P c) c) \<Longrightarrow> \<not> P (item_data x)"
  by (induction c) (auto split: if_splits)

lemma chain_position_end: "chain_position P c = length c \<longleftrightarrow> (\<forall>x\<in>set c. \<not> P (item_data x))"
  by (induction c) auto

lemma elems_iff: "x \<in> elems lh \<longleftrightarrow> (\<exists>b < num_buckets lh. \<exists>it\<in>set (buckets lh ! b). x = item_data it)"
proof -
  have "set (concat bs) = (\<Union>b<length bs. set (bs ! b))" for bs :: "'a lhash_item list list"
    by (auto simp: set_conv_nth[of bs])
  then show ?thesis by (auto simp: elems_def)
qed

text \<open>Moving the items to a new array.\<close>

lemma length_rebucket_item [simp]: "length (rebucket_item nb it) = length nb"
  by (simp add: rebucket_item_def Let_def)

lemma foldl_rebucket:
  "0 < length nb \<Longrightarrow> length (foldl rebucket_item nb xs) = length nb \<and>
   (\<forall>j < length nb. foldl rebucket_item nb xs ! j = rev (filter (\<lambda>it. unat (item_hash it) mod length nb = j) xs) @ nb ! j)"
proof (induction xs arbitrary: nb)
  case (Cons x xs)
  have l: "0 < length (rebucket_item nb x)" using Cons.prems by simp
  show ?case
    using Cons.IH[OF l] Cons.prems by (auto simp: rebucket_item_def Let_def nth_list_update)
qed simp

lemma foldl_concat: "foldl (\<lambda>a xs. foldl f a xs) a xss = foldl f a (concat xss)"
  by (induction xss arbitrary: a) simp_all

definition rebucketed :: "nat \<Rightarrow> 'd lhash_item list \<Rightarrow> 'd lhash_item list list" where
  "rebucketed n xs = map (\<lambda>j. rev (filter (\<lambda>it. unat (item_hash it) mod n = j) xs)) [0..<n]"

lemma foldl_rebucketed: "0 < n \<Longrightarrow> foldl rebucket_item (replicate n []) xs = rebucketed n xs"
  using foldl_rebucket[of "replicate n []" xs] by (intro nth_equalityI) (simp_all add: rebucketed_def)

lemma sum_list_filter:
  "\<forall>x\<in>set xs. f x < n \<Longrightarrow> sum_list (map (\<lambda>j. length (filter (\<lambda>x. f x = j) xs)) [0..<n]) = length xs"
proof (induction xs)
  case (Cons x xs)
  have "sum_list (map (\<lambda>j. length (filter (\<lambda>y. f y = j) (x # xs))) [0..<n]) =
      sum_list (map (\<lambda>j. (if f x = j then 1 else 0) + length (filter (\<lambda>y. f y = j) xs)) [0..<n])"
    by (intro arg_cong[of _ _ sum_list] map_cong refl) simp
  also have "\<dots> = sum_list (map (\<lambda>j. if f x = j then 1 else 0) [0..<n]) + length xs"
    using Cons by (simp add: sum_list_addf)
  also have "sum_list (map (\<lambda>j. if f x = j then 1 else 0) [0..<n]) = (1 :: nat)"
    using Cons.prems by (simp add: sum_list_map_eq_sum_count2[symmetric] interv_sum_list_conv_sum_set_nat sum.delta)
  finally show ?case by simp
qed simp

lemma length_rebucketed: "0 < n \<Longrightarrow> length (concat (rebucketed n xs)) = length xs"
  using sum_list_filter[of xs "\<lambda>it. unat (item_hash it) mod n" n]
  by (simp add: rebucketed_def length_concat comp_def)

lemma set_rebucketed: "0 < n \<Longrightarrow> set (concat (rebucketed n xs)) = set xs"
  by (auto simp: rebucketed_def)


lemma sorted_wrt_concat:
  assumes "\<And>b. b < length bs \<Longrightarrow> sorted_wrt R (bs ! b)"
    and "\<And>b b' x y. b < b' \<Longrightarrow> b' < length bs \<Longrightarrow> x \<in> set (bs ! b) \<Longrightarrow> y \<in> set (bs ! b') \<Longrightarrow> R x y"
  shows "sorted_wrt R (concat bs)"
  using assms
proof (induction bs)
  case (Cons c bs)
  have "sorted_wrt R (concat bs)"
  proof (rule Cons.IH)
    show "b < length bs \<Longrightarrow> sorted_wrt R (bs ! b)" for b using Cons.prems(1)[of "Suc b"] by simp
    show "b < b' \<Longrightarrow> b' < length bs \<Longrightarrow> x \<in> set (bs ! b) \<Longrightarrow> y \<in> set (bs ! b') \<Longrightarrow> R x y" for b b' x y
      using Cons.prems(2)[of "Suc b" "Suc b'" x y] by simp
  qed
  moreover have "R x y" if xy: "x \<in> set c" "y \<in> set (concat bs)" for x y
  proof -
    obtain b' where "b' < length bs" "y \<in> set (bs ! b')" using xy(2) by (auto simp: in_set_conv_nth[of _ bs])
    then show ?thesis using Cons.prems(2)[of 0 "Suc b'" x y] xy(1) by simp
  qed
  ultimately show ?case using Cons.prems(1)[of 0] by (simp add: sorted_wrt_append)
qed simp

context hash_functions
begin

lemma link_data_chain:
  assumes "b < num_buckets lh" "i = chain_position (\<lambda>d. cmp d x = 0) (buckets lh ! b)"
  shows "link_data lh (b, i) = Some y \<longleftrightarrow>
      i < length (buckets lh ! b) \<and> y = item_data (buckets lh ! b ! i)"
    and "link_data lh (b, i) = None \<longleftrightarrow> i = length (buckets lh ! b)"
  using chain_position_le[of "\<lambda>d. cmp d x = 0" "buckets lh ! b"] assms by (auto simp: link_data_def)

lemma bucket_of:
  assumes "items_ok hash bs" "b < length bs" "it \<in> set (bs ! b)" "cmp (item_data it) x = 0"
  shows "b = unat (hash x) mod length bs"
  using assms(1-3) hash_cmp[OF assms(4)] unfolding items_ok_def by metis

lemma retrieve_Some:
  assumes ok: "lh_ok hash cmp lh"
  shows "OPENSSL_lh_retrieve hash cmp lh x = Some y \<longleftrightarrow> y \<in> elems lh \<and> cmp y x = 0"
proof -
  define b where "b = unat (hash x) mod num_buckets lh"
  define i where "i = chain_position (\<lambda>d. cmp d x = 0) (buckets lh ! b)"
  have "0 < num_buckets lh" using ok unfolding lh_ok_def kMinNumBuckets_def by linarith
  then have b: "b < num_buckets lh" by (simp add: b_def)
  have r: "OPENSSL_lh_retrieve hash cmp lh x = link_data lh (b, i)"
    by (simp add: OPENSSL_lh_retrieve_def get_next_ptr_and_hash_def Let_def b_def i_def)
  show ?thesis
  proof
    assume "OPENSSL_lh_retrieve hash cmp lh x = Some y"
    then have y: "i < length (buckets lh ! b)" "y = item_data (buckets lh ! b ! i)"
      using link_data_chain(1)[OF b i_def] r by simp_all
    then have "cmp y x = 0" using chain_position_match[of "\<lambda>d. cmp d x = 0" "buckets lh ! b"] by (simp add: i_def)
    moreover have "y \<in> elems lh" using y b by (auto simp: elems_iff intro: nth_mem)
    ultimately show "y \<in> elems lh \<and> cmp y x = 0" by blast
  next
    assume y: "y \<in> elems lh \<and> cmp y x = 0"
    then obtain b' it where it: "b' < num_buckets lh" "it \<in> set (buckets lh ! b')" "y = item_data it"
      by (auto simp: elems_iff)
    have "b' = b" using bucket_of[OF _ it(1,2)] ok y it(3) by (simp add: lh_ok_def b_def)
    then obtain k where k: "k < length (buckets lh ! b)" "buckets lh ! b ! k = it" using it(2) by (auto simp: in_set_conv_nth)
    have i: "i < length (buckets lh ! b)"
      using chain_position_end[of "\<lambda>d. cmp d x = 0" "buckets lh ! b"] chain_position_le[of "\<lambda>d. cmp d x = 0" "buckets lh ! b"]
        it y \<open>b' = b\<close> by (auto simp: i_def order.strict_iff_order)
    have m: "cmp (item_data (buckets lh ! b ! i)) x = 0"
      using chain_position_match[of "\<lambda>d. cmp d x = 0" "buckets lh ! b"] i by (simp add: i_def)
    have e: "cmp (item_data (buckets lh ! b ! i)) y = 0" "cmp y (item_data (buckets lh ! b ! i)) = 0"
      using m y cmp_sym cmp_trans by blast+
    have d: "sorted_wrt (\<lambda>x y. cmp (item_data x) (item_data y) \<noteq> 0) (buckets lh ! b)"
      using ok b by (simp add: lh_ok_def chains_distinct_def)
    have "i = k"
    proof (rule ccontr)
      assume "i \<noteq> k"
      then consider "i < k" | "k < i" by linarith
      then show False
        using d i k e it(3) by cases (auto simp: sorted_wrt_iff_nth_less)
    qed
    then show "OPENSSL_lh_retrieve hash cmp lh x = Some y"
      using link_data_chain(1)[OF b i_def] r k it(3) by simp
  qed
qed

lemma items_differ:
  assumes ok: "lh_ok hash cmp lh"
  shows "sorted_wrt (\<lambda>x y. cmp (item_data x) (item_data y) \<noteq> 0) (concat (buckets lh))"
proof -
  have c: "sorted_wrt (\<lambda>x y. cmp (item_data x) (item_data y) \<noteq> 0) (buckets lh ! b)" if "b < num_buckets lh" for b
    using ok that by (simp add: lh_ok_def chains_distinct_def)
  have x: "cmp (item_data x) (item_data y) \<noteq> 0"
    if "b < b'" "b' < num_buckets lh" "x \<in> set (buckets lh ! b)" "y \<in> set (buckets lh ! b')" for b b' x y
  proof
    assume "cmp (item_data x) (item_data y) = 0"
    then have "b = unat (hash (item_data y)) mod num_buckets lh" using bucket_of[of "buckets lh" b x] ok that by (simp add: lh_ok_def)
    moreover have "b' = unat (hash (item_data y)) mod num_buckets lh" using bucket_of[of "buckets lh" b' y] cmp_refl ok that by (simp add: lh_ok_def)
    ultimately show False using that(1) by simp
  qed
  show ?thesis by (rule sorted_wrt_concat) (use c x in blast)+
qed

lemma lh_ok_rebucket:
  assumes ok: "lh_ok hash cmp lh" and n: "kMinNumBuckets \<le> n"
  shows "lh_ok hash cmp (lh_rebucket m lh n) \<and> elems (lh_rebucket m lh n) = elems lh \<and>
    callback_depth (lh_rebucket m lh n) = callback_depth lh"
proof -
  have n0: "0 < n" using n by (simp add: kMinNumBuckets_def)
  let ?xs = "concat (buckets lh)" let ?bs = "rebucketed n ?xs"
  have e: "foldl (\<lambda>new_buckets chain. foldl rebucket_item new_buckets chain) (replicate n []) (buckets lh) = ?bs"
    using foldl_rebucketed[OF n0] by (simp add: foldl_concat)
  have items: "items_ok hash ?bs"
    using ok unfolding lh_ok_def items_ok_def by (auto simp: rebucketed_def in_set_conv_nth[of _ "buckets lh"])
  have pw: "sorted_wrt (\<lambda>x y. cmp (item_data x) (item_data y) \<noteq> 0) ?xs" using items_differ[OF ok] .
  have "chains_distinct cmp ?bs"
    unfolding chains_distinct_def
  proof (intro allI impI)
    fix j assume j: "j < length ?bs"
    let ?ys = "filter (\<lambda>it. unat (item_hash it) mod n = j) ?xs"
    have "sorted_wrt (\<lambda>x y. cmp (item_data x) (item_data y) \<noteq> 0) ?ys" using pw by (rule sorted_wrt_filter)
    then have "sorted_wrt (\<lambda>x y. cmp (item_data y) (item_data x) \<noteq> 0) ?ys"
      by (rule sorted_wrt_mono_rel[rotated]) (use cmp_sym in blast)
    then show "sorted_wrt (\<lambda>x y. cmp (item_data x) (item_data y) \<noteq> 0) (?bs ! j)"
      using j by (simp add: rebucketed_def sorted_wrt_rev)
  qed
  moreover have "length ?bs = n" by (simp add: rebucketed_def)
  moreover have "elems (lh\<lparr>buckets := ?bs\<rparr>) = elems lh" using set_rebucketed[OF n0, of ?xs] by (simp add: elems_def)
  moreover have "num_items lh = length (concat ?bs)" using ok length_rebucketed[OF n0, of ?xs] by (simp add: lh_ok_def)
  ultimately have "lh_ok hash cmp (lh\<lparr>buckets := ?bs\<rparr>) \<and> elems (lh\<lparr>buckets := ?bs\<rparr>) = elems lh"
    using items n by (simp add: lh_ok_def)
  then show ?thesis using ok by (simp add: lh_rebucket_def Let_def e)
qed

lemma lh_ok_maybe_resize:
  assumes "lh_ok hash cmp lh"
  shows "lh_ok hash cmp (lh_maybe_resize m lh) \<and> elems (lh_maybe_resize m lh) = elems lh \<and>
    callback_depth (lh_maybe_resize m lh) = callback_depth lh"
proof -
  have "kMinNumBuckets \<le> num_buckets lh" using assms by (simp add: lh_ok_def)
  then show ?thesis
    using lh_ok_rebucket[OF assms] assms by (simp add: lh_maybe_resize_def Let_def)
qed

end

text \<open>Replacing one chain of a well-formed table.\<close>

definition chain_ok :: "('d \<Rightarrow> u32) \<Rightarrow> ('d \<Rightarrow> 'd \<Rightarrow> int) \<Rightarrow> nat \<Rightarrow> nat \<Rightarrow> 'd lhash_item list \<Rightarrow> bool" where
  "chain_ok hash cmp n b c \<longleftrightarrow>
     (\<forall>it\<in>set c. item_hash it = hash (item_data it) \<and> unat (hash (item_data it)) mod n = b) \<and>
     sorted_wrt (\<lambda>x y. cmp (item_data x) (item_data y) \<noteq> 0) c"

lemma lh_ok_chains:
  "lh_ok hash cmp lh \<longleftrightarrow>
     kMinNumBuckets \<le> num_buckets lh \<and> num_items lh = length (concat (buckets lh)) \<and>
     (\<forall>b < num_buckets lh. chain_ok hash cmp (num_buckets lh) b (buckets lh ! b))"
proof -
  have "(item_hash it = hash (item_data it) \<and> unat (item_hash it) mod n = b) \<longleftrightarrow>
      (item_hash it = hash (item_data it) \<and> unat (hash (item_data it)) mod n = b)" for n b and it :: "'a lhash_item"
    by auto
  then show ?thesis unfolding lh_ok_def items_ok_def chains_distinct_def chain_ok_def by blast
qed

lemma length_concat_update:
  "b < length bs \<Longrightarrow> length (concat (bs[b := c])) = length (concat bs) + length c - length (bs ! b)"
  by (simp add: length_concat map_update sum_list_update)

lemma lh_ok_update:
  assumes "lh_ok hash cmp lh" "b < num_buckets lh" "chain_ok hash cmp (num_buckets lh) b c"
    and "n = num_items lh + length c - length (buckets lh ! b)"
  shows "lh_ok hash cmp (lh\<lparr>buckets := (buckets lh)[b := c], num_items := n\<rparr>)"
  using assms by (simp add: lh_ok_chains length_concat_update nth_list_update)

lemma elems_update:
  assumes ok: "lh_ok hash cmp lh" and b: "b < num_buckets lh"
  shows "elems (lh\<lparr>buckets := (buckets lh)[b := c], num_items := n\<rparr>) =
    {y \<in> elems lh. unat (hash y) mod num_buckets lh \<noteq> b} \<union> item_data ` set c"
proof (intro set_eqI iffI)
  fix y assume "y \<in> elems (lh\<lparr>buckets := (buckets lh)[b := c], num_items := n\<rparr>)"
  then obtain j it where j: "j < num_buckets lh" "it \<in> set ((buckets lh)[b := c] ! j)" "y = item_data it"
    by (auto simp: elems_iff)
  show "y \<in> {y \<in> elems lh. unat (hash y) mod num_buckets lh \<noteq> b} \<union> item_data ` set c"
  proof (cases "j = b")
    case False
    then have it: "it \<in> set (buckets lh ! j)" using j by simp
    then have "unat (hash y) mod num_buckets lh = j" using ok j by (auto simp: lh_ok_chains chain_ok_def)
    then show ?thesis using False it j by (auto simp: elems_iff)
  qed (use j b in auto)
next
  fix y assume y: "y \<in> {y \<in> elems lh. unat (hash y) mod num_buckets lh \<noteq> b} \<union> item_data ` set c"
  show "y \<in> elems (lh\<lparr>buckets := (buckets lh)[b := c], num_items := n\<rparr>)"
  proof (cases "y \<in> item_data ` set c")
    case True then show ?thesis using b by (auto simp: elems_iff intro!: exI[of _ b])
  next
    case False
    then obtain j it where j: "j < num_buckets lh" "it \<in> set (buckets lh ! j)" "y = item_data it"
      "unat (hash y) mod num_buckets lh \<noteq> b" using y by (auto simp: elems_iff)
    then have "j \<noteq> b" using ok b by (auto simp: lh_ok_chains chain_ok_def)
    then show ?thesis using j by (auto simp: elems_iff intro!: exI[of _ j] bexI[of _ it])
  qed
qed

lemma elems_chain:
  assumes ok: "lh_ok hash cmp lh" and b: "b < num_buckets lh"
  shows "item_data ` set (buckets lh ! b) = {y \<in> elems lh. unat (hash y) mod num_buckets lh = b}"
  using assms by (force simp: elems_iff lh_ok_chains chain_ok_def)

text \<open>The chain and the position that a search for \<open>x\<close> ends at.\<close>

context hash_functions
begin

lemma search:
  assumes ok: "lh_ok hash cmp lh"
  obtains b i where "get_next_ptr_and_hash hash cmp lh x = ((b, i), hash x)"
    "b = unat (hash x) mod num_buckets lh" "b < num_buckets lh"
    "link_data lh (b, i) = OPENSSL_lh_retrieve hash cmp lh x"
    "i = chain_position (\<lambda>d. cmp d x = 0) (buckets lh ! b)"
proof -
  have "0 < num_buckets lh" using ok unfolding lh_ok_def kMinNumBuckets_def by linarith
  then show ?thesis
    using that by (simp add: OPENSSL_lh_retrieve_def get_next_ptr_and_hash_def Let_def)
qed

lemma retrieve_None:
  assumes "lh_ok hash cmp lh"
  shows "OPENSSL_lh_retrieve hash cmp lh x = None \<longleftrightarrow> (\<forall>y\<in>elems lh. cmp y x \<noteq> 0)"
  using retrieve_Some[OF assms, of x] by (cases "OPENSSL_lh_retrieve hash cmp lh x") auto

lemma found_chain:
  assumes "link_data lh (b, i) = Some y" "b < num_buckets lh" "i = chain_position (\<lambda>d. cmp d x = 0) (buckets lh ! b)"
  obtains us it vs where "buckets lh ! b = us @ it # vs" "length us = i" "item_data it = y" "cmp y x = 0"
proof -
  have i: "i < length (buckets lh ! b)" "y = item_data (buckets lh ! b ! i)"
    using link_data_chain(1)[OF assms(2,3), THEN iffD1, OF assms(1)] by simp_all
  then have "cmp y x = 0"
    using chain_position_match[of "\<lambda>d. cmp d x = 0" "buckets lh ! b"] assms(3) by simp
  then show ?thesis using that[OF id_take_nth_drop[OF i(1)]] i by simp
qed

lemma insert_existing:
  assumes ok: "lh_ok hash cmp lh" and r: "OPENSSL_lh_retrieve hash cmp lh d = Some old"
  obtains lh' where "OPENSSL_lh_insert hash cmp m lh d = (True, Some old, lh')"
    "lh_ok hash cmp lh'" "elems lh' = insert d {y \<in> elems lh. cmp y d \<noteq> 0}"
    "num_items lh' = num_items lh" "num_buckets lh' = num_buckets lh" "callback_depth lh' = callback_depth lh"
proof -
  obtain b i where s: "get_next_ptr_and_hash hash cmp lh d = ((b, i), hash d)"
    "b = unat (hash d) mod num_buckets lh" "b < num_buckets lh" "link_data lh (b, i) = Some old"
    "i = chain_position (\<lambda>x. cmp x d = 0) (buckets lh ! b)"
    using search[OF ok, of d] r by metis
  obtain us it vs where c: "buckets lh ! b = us @ it # vs" "length us = i" "item_data it = old" "cmp old d = 0"
    using found_chain[OF s(4,3,5)] .
  let ?c = "us @ it\<lparr>item_data := d\<rparr> # vs"
  let ?lh = "lh\<lparr>buckets := (buckets lh)[b := ?c], num_items := num_items lh\<rparr>"
  have co: "chain_ok hash cmp (num_buckets lh) b (us @ it # vs)"
    using ok s(3) c(1) by (metis lh_ok_chains)
  have eq: "cmp x d = 0 \<longleftrightarrow> cmp x old = 0" "cmp d x = 0 \<longleftrightarrow> cmp old x = 0" for x
    using c(4) cmp_sym cmp_trans by blast+
  have co': "chain_ok hash cmp (num_buckets lh) b ?c"
    using co c(3) hash_cmp[OF c(4)] s(2) by (auto simp: chain_ok_def sorted_wrt_append eq)
  have len: "num_items lh = num_items lh + length ?c - length (buckets lh ! b)" by (simp add: c(1))
  have ok': "lh_ok hash cmp ?lh" using lh_ok_update[OF ok s(3) co' len] .
  have ne: "cmp (item_data x) d \<noteq> 0" if "x \<in> set us \<union> set vs" for x
    using co that c(3) cmp_sym by (auto simp: chain_ok_def sorted_wrt_append eq)
  have ch: "item_data ` set (us @ it # vs) = {y \<in> elems lh. unat (hash y) mod num_buckets lh = b}"
    using elems_chain[OF ok s(3)] c(1) by simp
  have "elems ?lh = insert d {y \<in> elems lh. cmp y d \<noteq> 0}"
  proof -
    have "item_data ` set ?c = insert d {y \<in> item_data ` set (us @ it # vs). cmp y d \<noteq> 0}"
      using ne c(3,4) by auto
    moreover have "unat (hash y) mod num_buckets lh = b" if "cmp y d = 0" for y using hash_cmp[OF that] s(2) by simp
    ultimately show ?thesis unfolding elems_update[OF ok s(3)] ch by auto
  qed
  moreover have "OPENSSL_lh_insert hash cmp m lh d = (True, Some old, ?lh)"
  proof -
    have "(buckets lh ! b)[i := (buckets lh ! b ! i)\<lparr>item_data := d\<rparr>] = ?c"
      unfolding c(1) c(2)[symmetric] by (simp add: list_update_append)
    then show ?thesis by (simp add: OPENSSL_lh_insert_def s(1,4))
  qed
  ultimately show ?thesis using that[of ?lh] ok' by simp
qed

lemma insert_new:
  assumes ok: "lh_ok hash cmp lh" and r: "OPENSSL_lh_retrieve hash cmp lh d = None" and m: "m 24"
  obtains lh1 where "OPENSSL_lh_insert hash cmp m lh d = (True, None, lh_maybe_resize m lh1)"
    "lh_ok hash cmp lh1" "elems lh1 = insert d (elems lh)"
    "num_items lh1 = num_items lh + 1" "num_buckets lh1 = num_buckets lh" "callback_depth lh1 = callback_depth lh"
proof -
  obtain b i where s: "get_next_ptr_and_hash hash cmp lh d = ((b, i), hash d)"
    "b = unat (hash d) mod num_buckets lh" "b < num_buckets lh" "link_data lh (b, i) = None"
    using search[OF ok, of d] r by metis
  let ?c = "buckets lh ! b @ [\<lparr>item_data = d, item_hash = hash d\<rparr>]"
  let ?lh = "lh\<lparr>buckets := (buckets lh)[b := ?c], num_items := num_items lh + 1\<rparr>"
  have co: "chain_ok hash cmp (num_buckets lh) b (buckets lh ! b)" using ok s(3) by (simp add: lh_ok_chains)
  have ne: "\<forall>y\<in>elems lh. cmp y d \<noteq> 0" using r retrieve_None[OF ok] by simp
  moreover have "item_data it \<in> elems lh" if "it \<in> set (buckets lh ! b)" for it
    using that s(3) by (auto simp: elems_iff)
  ultimately have "\<forall>it\<in>set (buckets lh ! b). cmp (item_data it) d \<noteq> 0" by blast
  then have co': "chain_ok hash cmp (num_buckets lh) b ?c"
    using co s(2) by (auto simp: chain_ok_def sorted_wrt_append)
  have len: "num_items lh + 1 = num_items lh + length ?c - length (buckets lh ! b)" by simp
  have "elems ?lh = insert d (elems lh)"
    unfolding elems_update[OF ok s(3)] using elems_chain[OF ok s(3)] by auto
  moreover have "OPENSSL_lh_insert hash cmp m lh d = (True, None, lh_maybe_resize m ?lh)"
    using s m by (simp add: OPENSSL_lh_insert_def)
  ultimately show ?thesis using that[of ?lh] lh_ok_update[OF ok s(3) co' len] by simp
qed

lemma insert_fails:
  assumes "lh_ok hash cmp lh" "OPENSSL_lh_retrieve hash cmp lh d = None" "\<not> m 24"
  shows "OPENSSL_lh_insert hash cmp m lh d = (False, None, lh)"
proof -
  obtain b i where "get_next_ptr_and_hash hash cmp lh d = ((b, i), hash d)" "link_data lh (b, i) = None"
    using search[OF assms(1), of d] assms(2) by metis
  then show ?thesis using assms(3) by (simp add: OPENSSL_lh_insert_def)
qed

lemma delete_absent:
  assumes "lh_ok hash cmp lh" "OPENSSL_lh_retrieve hash cmp lh d = None"
  shows "OPENSSL_lh_delete hash cmp m lh d = (None, lh)"
proof -
  obtain b i where "get_next_ptr_and_hash hash cmp lh d = ((b, i), hash d)" "link_data lh (b, i) = None"
    using search[OF assms(1), of d] assms(2) by metis
  then show ?thesis by (simp add: OPENSSL_lh_delete_def)
qed

lemma delete_present:
  assumes ok: "lh_ok hash cmp lh" and r: "OPENSSL_lh_retrieve hash cmp lh d = Some old"
  obtains lh1 where "OPENSSL_lh_delete hash cmp m lh d = (Some old, lh_maybe_resize m lh1)"
    "lh_ok hash cmp lh1" "elems lh1 = {y \<in> elems lh. cmp y d \<noteq> 0}"
    "num_items lh = num_items lh1 + 1" "num_buckets lh1 = num_buckets lh" "callback_depth lh1 = callback_depth lh"
proof -
  obtain b i where s: "get_next_ptr_and_hash hash cmp lh d = ((b, i), hash d)"
    "b = unat (hash d) mod num_buckets lh" "b < num_buckets lh" "link_data lh (b, i) = Some old"
    "i = chain_position (\<lambda>x. cmp x d = 0) (buckets lh ! b)"
    using search[OF ok, of d] r by metis
  obtain us it vs where c: "buckets lh ! b = us @ it # vs" "length us = i" "item_data it = old" "cmp old d = 0"
    using found_chain[OF s(4,3,5)] .
  let ?c = "us @ vs"
  let ?lh = "lh\<lparr>buckets := (buckets lh)[b := ?c], num_items := num_items lh - 1\<rparr>"
  have co: "chain_ok hash cmp (num_buckets lh) b (us @ it # vs)"
    using ok s(3) c(1) by (metis lh_ok_chains)
  have eq: "cmp x d = 0 \<longleftrightarrow> cmp x old = 0" "cmp d x = 0 \<longleftrightarrow> cmp old x = 0" for x
    using c(4) cmp_sym cmp_trans by blast+
  have co': "chain_ok hash cmp (num_buckets lh) b ?c"
    using co by (auto simp: chain_ok_def sorted_wrt_append)
  have len: "num_items lh - 1 = num_items lh + length ?c - length (buckets lh ! b)" by (simp add: c(1))
  have "length (buckets lh ! b) \<le> length (concat (buckets lh))"
    using s(3) by (simp add: length_concat member_le_sum_list)
  moreover have "num_items lh = length (concat (buckets lh))" using ok by (simp add: lh_ok_def)
  moreover have "0 < length (buckets lh ! b)" using c(1) by simp
  ultimately have pos: "0 < num_items lh" by linarith
  have ne: "cmp (item_data x) d \<noteq> 0" if "x \<in> set us \<union> set vs" for x
    using co that c(3) cmp_sym by (auto simp: chain_ok_def sorted_wrt_append eq)
  have ch: "item_data ` set (us @ it # vs) = {y \<in> elems lh. unat (hash y) mod num_buckets lh = b}"
    using elems_chain[OF ok s(3)] c(1) by simp
  have "elems ?lh = {y \<in> elems lh. cmp y d \<noteq> 0}"
  proof -
    have "item_data ` set ?c = {y \<in> item_data ` set (us @ it # vs). cmp y d \<noteq> 0}"
      using ne c(3,4) by auto
    moreover have "unat (hash y) mod num_buckets lh = b" if "cmp y d = 0" for y using hash_cmp[OF that] s(2) by simp
    ultimately show ?thesis unfolding elems_update[OF ok s(3)] ch by auto
  qed
  moreover have "OPENSSL_lh_delete hash cmp m lh d = (Some old, lh_maybe_resize m ?lh)"
  proof -
    have "take i (buckets lh ! b) @ drop (i + 1) (buckets lh ! b) = ?c"
      unfolding c(1) c(2)[symmetric] by simp
    then show ?thesis by (simp add: OPENSSL_lh_delete_def s(1,4))
  qed
  ultimately show ?thesis using that[of ?lh] lh_ok_update[OF ok s(3) co' len] pos by simp
qed

end

section \<open>A dictionary\<close>

text \<open>What a client sees of an operation.  The dictionary is the map from a key to the stored
  element equal to it.\<close>

datatype 'd event =
    Inserted 'd bool "'d option"
  | Deleted 'd "'d option"
  | Retrieved 'd "'d option"
  | Visited "'d list"

fun dict_step :: "('d \<Rightarrow> 'd \<Rightarrow> int) \<Rightarrow> ('d \<Rightarrow> 'd option) \<Rightarrow> 'd event \<Rightarrow> ('d \<Rightarrow> 'd option) \<Rightarrow> bool" where
  "dict_step cmp f (Inserted d ok old) g \<longleftrightarrow>
     (if ok then old = f d \<and> g = (\<lambda>x. if cmp d x = 0 then Some d else f x)
      else old = None \<and> f d = None \<and> g = f)"
| "dict_step cmp f (Deleted d old) g \<longleftrightarrow> old = f d \<and> g = (\<lambda>x. if cmp d x = 0 then None else f x)"
| "dict_step cmp f (Retrieved d r) g \<longleftrightarrow> r = f d \<and> g = f"
| "dict_step cmp f (Visited ds) g \<longleftrightarrow> distinct ds \<and> set ds = {d. f d = Some d} \<and> g = f"

inductive trace :: "('s \<Rightarrow> 'e \<Rightarrow> 's \<Rightarrow> bool) \<Rightarrow> 's \<Rightarrow> 'e list \<Rightarrow> 's \<Rightarrow> bool" for step where
  trace_nil: "trace step s [] s"
| trace_snoc: "trace step s es s' \<Longrightarrow> step s' e s'' \<Longrightarrow> trace step s (es @ [e]) s''"

text \<open>The interface of a table to its clients, and the laws it keeps.\<close>

locale dictionary =
  fixes ok :: "'t \<Rightarrow> bool" and cmp :: "'d \<Rightarrow> 'd \<Rightarrow> int" and find :: "'t \<Rightarrow> 'd \<Rightarrow> 'd option"
    and ins :: "'t \<Rightarrow> 'd \<Rightarrow> bool \<times> 'd option \<times> 't" and del :: "'t \<Rightarrow> 'd \<Rightarrow> 'd option \<times> 't"
  assumes find_equal: "ok t \<Longrightarrow> find t x = Some y \<Longrightarrow> cmp y x = 0"
    and ins_law: "ok t \<Longrightarrow> ins t d = (r, old, t') \<Longrightarrow> ok t' \<and> dict_step cmp (find t) (Inserted d r old) (find t')"
    and del_law: "ok t \<Longrightarrow> del t d = (old, t') \<Longrightarrow> ok t' \<and> dict_step cmp (find t) (Deleted d old) (find t')"
begin

lemma find_inserted: "ok t \<Longrightarrow> ins t d = (True, old, t') \<Longrightarrow> cmp d d = 0 \<Longrightarrow> find t' d = Some d"
  using ins_law[of t d True old t'] by simp

lemma find_other: "ok t \<Longrightarrow> ins t d = (r, old, t') \<Longrightarrow> cmp d x \<noteq> 0 \<Longrightarrow> find t' x = find t x"
  using ins_law[of t d r old t'] by (cases r) simp_all

lemma find_deleted: "ok t \<Longrightarrow> del t d = (old, t') \<Longrightarrow> find t' x = (if cmp d x = 0 then None else find t x)"
  using del_law[of t d old t'] by simp

lemma insert_failed: "ok t \<Longrightarrow> ins t d = (False, old, t') \<Longrightarrow> old = None \<and> find t d = None \<and> find t' = find t"
  using ins_law[of t d False old t'] by simp

end

context hash_functions
begin

lemma find_insert:
  assumes "lh_ok hash cmp lh" "lh_ok hash cmp lh'" "elems lh' = insert d {y \<in> elems lh. cmp y d \<noteq> 0}"
  shows "OPENSSL_lh_retrieve hash cmp lh' = (\<lambda>x. if cmp d x = 0 then Some d else OPENSSL_lh_retrieve hash cmp lh x)"
proof
  fix x
  show "OPENSSL_lh_retrieve hash cmp lh' x = (if cmp d x = 0 then Some d else OPENSSL_lh_retrieve hash cmp lh x)"
  proof (cases "cmp d x = 0")
    case True then show ?thesis using retrieve_Some[OF assms(2)] assms(3) by simp
  next
    case False
    then have "cmp y d \<noteq> 0 \<and> y \<noteq> d" if "cmp y x = 0" for y
      using that cmp_sym[of y d] cmp_trans[of d y x] by auto
    then have "y \<in> elems lh' \<and> cmp y x = 0 \<longleftrightarrow> y \<in> elems lh \<and> cmp y x = 0" for y
      using assms(3) by auto
    then have "OPENSSL_lh_retrieve hash cmp lh' x = Some y \<longleftrightarrow> OPENSSL_lh_retrieve hash cmp lh x = Some y" for y
      using retrieve_Some[OF assms(1)] retrieve_Some[OF assms(2)] by simp
    then show ?thesis using False by (metis option.exhaust)
  qed
qed

lemma find_delete:
  assumes "lh_ok hash cmp lh" "lh_ok hash cmp lh'" "elems lh' = {y \<in> elems lh. cmp y d \<noteq> 0}"
  shows "OPENSSL_lh_retrieve hash cmp lh' = (\<lambda>x. if cmp d x = 0 then None else OPENSSL_lh_retrieve hash cmp lh x)"
proof
  fix x
  show "OPENSSL_lh_retrieve hash cmp lh' x = (if cmp d x = 0 then None else OPENSSL_lh_retrieve hash cmp lh x)"
  proof (cases "cmp d x = 0")
    case True then show ?thesis 
    proof -
      have "cmp y x \<noteq> 0" if "cmp y d \<noteq> 0" for y
        using that True cmp_sym[of d x] cmp_trans[of y x d] by blast
      then show ?thesis using True retrieve_None[OF assms(2)] assms(3) by simp
    qed
  next
    case False
    then have "cmp y d \<noteq> 0 \<and> y \<noteq> d" if "cmp y x = 0" for y
      using that cmp_sym[of y d] cmp_trans[of d y x] by auto
    then have "y \<in> elems lh' \<and> cmp y x = 0 \<longleftrightarrow> y \<in> elems lh \<and> cmp y x = 0" for y
      using assms(3) by auto
    then have "OPENSSL_lh_retrieve hash cmp lh' x = Some y \<longleftrightarrow> OPENSSL_lh_retrieve hash cmp lh x = Some y" for y
      using retrieve_Some[OF assms(1)] retrieve_Some[OF assms(2)] by simp
    then show ?thesis using False by (metis option.exhaust)
  qed
qed

lemma find_elems:
  assumes "lh_ok hash cmp lh" "lh_ok hash cmp lh'" "elems lh' = elems lh"
  shows "OPENSSL_lh_retrieve hash cmp lh' = OPENSSL_lh_retrieve hash cmp lh"
proof
  fix x
  have "OPENSSL_lh_retrieve hash cmp lh' x = Some y \<longleftrightarrow> OPENSSL_lh_retrieve hash cmp lh x = Some y" for y
    using retrieve_Some[OF assms(1)] retrieve_Some[OF assms(2)] assms(3) by simp
  then show "OPENSSL_lh_retrieve hash cmp lh' x = OPENSSL_lh_retrieve hash cmp lh x" by (metis option.exhaust)
qed

lemma elems_insert:
  assumes ok: "lh_ok hash cmp lh" and i: "OPENSSL_lh_insert hash cmp m lh d = (r, old, lh')"
  shows "lh_ok hash cmp lh' \<and> callback_depth lh' = callback_depth lh \<and>
    (if r then old = OPENSSL_lh_retrieve hash cmp lh d \<and> elems lh' = insert d {y \<in> elems lh. cmp y d \<noteq> 0}
     else old = None \<and> OPENSSL_lh_retrieve hash cmp lh d = None \<and> lh' = lh)"
proof (cases "OPENSSL_lh_retrieve hash cmp lh d")
  case (Some o')
  then show ?thesis using insert_existing[OF ok Some, of m] i by auto
next
  case None
  show ?thesis
  proof (cases "m 24")
    case True
    obtain lh1 where l: "OPENSSL_lh_insert hash cmp m lh d = (True, None, lh_maybe_resize m lh1)"
      "lh_ok hash cmp lh1" "elems lh1 = insert d (elems lh)" "callback_depth lh1 = callback_depth lh"
      using insert_new[of lh d m, OF ok None True] by metis
    have "{y \<in> elems lh. cmp y d \<noteq> 0} = elems lh" using None retrieve_None[OF ok] by blast
    then show ?thesis using i l lh_ok_maybe_resize[OF l(2), of m] None by auto
  qed (use None insert_fails[OF ok None, of m] ok i in auto)
qed

lemma elems_delete:
  assumes ok: "lh_ok hash cmp lh" and i: "OPENSSL_lh_delete hash cmp m lh d = (old, lh')"
  shows "lh_ok hash cmp lh' \<and> callback_depth lh' = callback_depth lh \<and>
    old = OPENSSL_lh_retrieve hash cmp lh d \<and> elems lh' = {y \<in> elems lh. cmp y d \<noteq> 0}"
proof (cases "OPENSSL_lh_retrieve hash cmp lh d")
  case (Some o')
  obtain lh1 where l: "OPENSSL_lh_delete hash cmp m lh d = (Some o', lh_maybe_resize m lh1)"
    "lh_ok hash cmp lh1" "elems lh1 = {y \<in> elems lh. cmp y d \<noteq> 0}" "callback_depth lh1 = callback_depth lh"
    using delete_present[OF ok Some, of m] by metis
  then show ?thesis using i Some lh_ok_maybe_resize[OF l(2), of m] by auto
next
  case None
  then have "{y \<in> elems lh. cmp y d \<noteq> 0} = elems lh" using retrieve_None[OF ok] by blast
  then show ?thesis using None delete_absent[OF ok None, of m] ok i by auto
qed

end

sublocale hash_functions < dictionary "lh_ok hash cmp" cmp "OPENSSL_lh_retrieve hash cmp"
  "OPENSSL_lh_insert hash cmp m" "OPENSSL_lh_delete hash cmp m" for m
proof unfold_locales
  show "lh_ok hash cmp lh \<Longrightarrow> OPENSSL_lh_retrieve hash cmp lh x = Some y \<Longrightarrow> cmp y x = 0" for lh x y
    using retrieve_Some by simp
  show "lh_ok hash cmp lh' \<and> dict_step cmp (OPENSSL_lh_retrieve hash cmp lh) (Inserted d r old) (OPENSSL_lh_retrieve hash cmp lh')"
    if "lh_ok hash cmp lh" "OPENSSL_lh_insert hash cmp m lh d = (r, old, lh')" for lh d r old lh'
    using elems_insert[OF that] find_insert[OF that(1), of lh' d] by (cases r) auto
  show "lh_ok hash cmp lh' \<and> dict_step cmp (OPENSSL_lh_retrieve hash cmp lh) (Deleted d old) (OPENSSL_lh_retrieve hash cmp lh')"
    if "lh_ok hash cmp lh" "OPENSSL_lh_delete hash cmp m lh d = (old, lh')" for lh d old lh'
    using elems_delete[OF that] find_delete[OF that(1), of lh' d] by auto
qed

section \<open>Visiting every item\<close>

lemma foldl_snoc: "foldl (\<lambda>acc it. acc @ [f it]) acc xs = acc @ map f xs"
  by (induction xs arbitrary: acc) simp_all

lemma lh_ok_callback_depth [simp]: "lh_ok hash cmp (lh\<lparr>callback_depth := n\<rparr>) = lh_ok hash cmp lh"
  by (simp add: lh_ok_def)

lemma elems_callback_depth [simp]: "elems (lh\<lparr>callback_depth := n\<rparr>) = elems lh"
  by (simp add: elems_def)

context hash_functions
begin

lemma distinct_items:
  assumes "lh_ok hash cmp lh"
  shows "distinct (map item_data (concat (buckets lh)))"
proof -
  have "sorted_wrt (\<lambda>x y. item_data x \<noteq> item_data y) (concat (buckets lh))"
    by (rule sorted_wrt_mono_rel[OF _ items_differ[OF assms]]) (use cmp_refl in force)
  then show ?thesis by (simp add: distinct_conv_nth sorted_wrt_iff_nth_less) (metis nat_neq_iff)
qed

lemma elems_find: "lh_ok hash cmp lh \<Longrightarrow> elems lh = {d. OPENSSL_lh_retrieve hash cmp lh d = Some d}"
  using retrieve_Some[of lh] cmp_refl by blast

lemma num_items_card: "lh_ok hash cmp lh \<Longrightarrow> num_items lh = card (elems lh)"
  using distinct_items[of lh] distinct_card[of "map item_data (concat (buckets lh))"]
  by (simp add: lh_ok_def elems_def)

lemma doall_visits:
  assumes ok: "lh_ok hash cmp lh" and v: "OPENSSL_lh_doall_arg m lh (\<lambda>d ds. ds @ [d]) [] = (ds, lh')"
  shows "lh_ok hash cmp lh' \<and> elems lh' = elems lh \<and> distinct ds \<and> set ds = elems lh"
proof -
  have f: "foldl (\<lambda>arg chain. foldl (\<lambda>arg cur. arg @ [item_data cur]) arg chain) [] bs = map item_data (concat bs)"
    for bs :: "'d lhash_item list list"
    by (subst foldl_concat) (simp add: foldl_snoc)
  have "ds = map item_data (concat (buckets lh))"
    using v by (auto simp: OPENSSL_lh_doall_arg_def Let_def f split: if_splits)
  then have "distinct ds \<and> set ds = elems lh" using distinct_items[OF ok] by (simp add: elems_def)
  moreover obtain n where "lh' = lh_maybe_resize m (lh\<lparr>callback_depth := n\<rparr>)"
    using v by (auto simp: OPENSSL_lh_doall_arg_def Let_def split: if_splits
        intro: that[of "callback_depth lh + 1"] that[of "callback_depth lh"])
  ultimately show ?thesis
    using lh_ok_maybe_resize[of "lh\<lparr>callback_depth := n\<rparr>" m] ok by simp
qed

end

section \<open>Runs of a table\<close>

inductive lh_step :: "('d \<Rightarrow> u32) \<Rightarrow> ('d \<Rightarrow> 'd \<Rightarrow> int) \<Rightarrow> 'd lhash \<Rightarrow> 'd event \<Rightarrow> 'd lhash \<Rightarrow> bool" for hash cmp where
  step_insert: "OPENSSL_lh_insert hash cmp m lh d = (r, old, lh') \<Longrightarrow> lh_step hash cmp lh (Inserted d r old) lh'"
| step_delete: "OPENSSL_lh_delete hash cmp m lh d = (old, lh') \<Longrightarrow> lh_step hash cmp lh (Deleted d old) lh'"
| step_retrieve: "lh_step hash cmp lh (Retrieved d (OPENSSL_lh_retrieve hash cmp lh d)) lh"
| step_doall: "OPENSSL_lh_doall_arg m lh (\<lambda>d ds. ds @ [d]) [] = (ds, lh') \<Longrightarrow> lh_step hash cmp lh (Visited ds) lh'"

lemma trace_simulation:
  assumes "trace step s es s'" "good s"
    and "\<And>s e s'. good s \<Longrightarrow> step s e s' \<Longrightarrow> good s' \<and> spec (ab s) e (ab s')"
  shows "good s' \<and> trace spec (ab s) es (ab s')"
  using assms(1,2)
proof (induction rule: trace.induct)
  case (trace_snoc s es s' e s'')
  then show ?case using assms(3)[of s' e s''] trace.trace_snoc[of spec] by blast
qed (simp add: trace.trace_nil)

lemma lh_new_succeeds:
  obtains lh :: "'d lhash" where "OPENSSL_lh_new (\<lambda>_. True) = Some lh" "buckets lh = replicate 16 []"
    "num_items lh = 0" "callback_depth lh = 0"
  by (rule that[of "\<lparr>num_items = 0, buckets = replicate 16 [], callback_depth = 0\<rparr>"])
    (simp_all add: OPENSSL_lh_new_def kMinNumBuckets_def)

lemma lh_ok_new:
  assumes "OPENSSL_lh_new m = Some lh"
  shows "lh_ok hash cmp lh \<and> elems lh = {} \<and> callback_depth lh = 0"
  using assms by (auto simp: OPENSSL_lh_new_def lh_ok_chains chain_ok_def elems_def kMinNumBuckets_def split: if_splits)

context hash_functions
begin

lemma lh_step_refines:
  assumes "lh_ok hash cmp lh" "lh_step hash cmp lh e lh'"
  shows "lh_ok hash cmp lh' \<and> dict_step cmp (OPENSSL_lh_retrieve hash cmp lh) e (OPENSSL_lh_retrieve hash cmp lh')"
  using assms(2)
proof cases
  case (step_insert m d r old)
  then show ?thesis using ins_law[OF assms(1), of m d r old lh'] by simp
next
  case (step_delete m d old)
  then show ?thesis using del_law[OF assms(1), of m d old lh'] by simp
next
  case (step_doall m ds)
  then show ?thesis
    using doall_visits[OF assms(1) step_doall(2)] find_elems[OF assms(1), of lh'] elems_find[OF assms(1)] by simp
qed (use assms in simp)

end

text \<open>C20: A hash table behaves as a dictionary.  Whatever sequence of insertions, deletions, lookups
  and traversals is run on a new table, with any of the allocations on the way failing, each
  operation returns what it would return on a finite map keyed by the client's equality, an
  insertion whose allocation fails changes nothing, growing and shrinking the bucket array is never
  seen, and \<open>OPENSSL_lh_num_items\<close> counts the elements.  The client's functions need to meet the
  contract of \<open>hash_functions\<close>.\<close>

theorem lh_refines_dictionary:
  assumes "hash_functions hash cmp" and new: "OPENSSL_lh_new m = Some lh0"
    and run: "trace (lh_step hash cmp) lh0 es lh"
  shows "trace (dict_step cmp) (\<lambda>_. None) es (OPENSSL_lh_retrieve hash cmp lh) \<and>
    OPENSSL_lh_num_items lh = card {d. OPENSSL_lh_retrieve hash cmp lh d = Some d}"
proof -
  note h = assms(1)
  have lh0: "lh_ok hash cmp lh0" "elems lh0 = {}" using lh_ok_new[OF new, of hash cmp] by simp_all
  have none: "OPENSSL_lh_retrieve hash cmp lh0 = (\<lambda>_. None)"
    using hash_functions.retrieve_None[OF h lh0(1)] lh0(2) by auto
  have "lh_ok hash cmp lh \<and> trace (dict_step cmp) (OPENSSL_lh_retrieve hash cmp lh0) es (OPENSSL_lh_retrieve hash cmp lh)"
    by (rule trace_simulation[where good = "lh_ok hash cmp" and ab = "OPENSSL_lh_retrieve hash cmp", OF run lh0(1)]) (rule hash_functions.lh_step_refines[OF h])
  then show ?thesis
    using hash_functions.num_items_card[OF h] hash_functions.elems_find[OF h]
    by (simp add: none OPENSSL_lh_num_items_def)
qed

text \<open>Integers hashed to themselves: an insertion, a replacement, a lookup and a deletion.\<close>

definition nat_hash :: "nat \<Rightarrow> u32" where "nat_hash = word_of_nat"
definition nat_cmp :: "nat \<Rightarrow> nat \<Rightarrow> int" where "nat_cmp a b = int a - int b"

lemma nat_hash_functions: "hash_functions nat_hash nat_cmp"
  by unfold_locales (auto simp: nat_hash_def nat_cmp_def)

lemmas lh_eval = OPENSSL_lh_new_def OPENSSL_lh_insert_def OPENSSL_lh_delete_def get_next_ptr_and_hash_def
  lh_maybe_resize_def link_data_def Let_def kMinNumBuckets_def kMaxAverageChainLength_def
  kMinAverageChainLength_def

theorem lh_refines_dictionary_witness:
  "\<exists>lh. trace (dict_step nat_cmp) (\<lambda>_. None) [Inserted 5 True None, Inserted 21 True None, Deleted 5 (Some 5)]
      (OPENSSL_lh_retrieve nat_hash nat_cmp lh) \<and>
    OPENSSL_lh_num_items lh = card {d. OPENSSL_lh_retrieve nat_hash nat_cmp lh d = Some d} \<and>
    OPENSSL_lh_num_items lh = 1"
proof -
  obtain lh0 :: "nat lhash" where n: "OPENSSL_lh_new (\<lambda>_. True) = Some lh0" "buckets lh0 = replicate 16 []" "num_items lh0 = 0"
    "callback_depth lh0 = 0" by (rule lh_new_succeeds)
  let ?it = "\<lambda>d. \<lparr>item_data = d, item_hash = nat_hash d\<rparr>"
  let ?t = "\<lambda>n c. lh0\<lparr>buckets := (replicate 16 [])[5 := c], num_items := n\<rparr>"
  have h: "unat (nat_hash 5) mod 16 = 5" "unat (nat_hash 21) mod 16 = 5" by (simp_all add: nat_hash_def)
  have 1: "OPENSSL_lh_insert nat_hash nat_cmp (\<lambda>_. True) lh0 5 = (True, None, ?t 1 [?it 5])"
    by (simp add: lh_eval n h)
  have 2: "OPENSSL_lh_insert nat_hash nat_cmp (\<lambda>_. True) (?t 1 [?it 5]) 21 = (True, None, ?t 2 [?it 5, ?it 21])"
    by (simp add: lh_eval n h nat_cmp_def)
  have 3: "OPENSSL_lh_delete nat_hash nat_cmp (\<lambda>_. True) (?t 2 [?it 5, ?it 21]) 5 = (Some 5, ?t 1 [?it 21])"
    by (simp add: lh_eval n h nat_cmp_def)
  note snoc = trace_snoc[where step = "lh_step nat_hash nat_cmp" and s = lh0]
  have "trace (lh_step nat_hash nat_cmp) lh0 [] lh0" by (rule trace_nil)
  from snoc[OF this step_insert[OF 1]]
  have "trace (lh_step nat_hash nat_cmp) lh0 [Inserted 5 True None] (?t 1 [?it 5])" by simp
  from snoc[OF this step_insert[OF 2]]
  have "trace (lh_step nat_hash nat_cmp) lh0 [Inserted 5 True None, Inserted 21 True None] (?t 2 [?it 5, ?it 21])" by simp
  from snoc[OF this step_delete[OF 3]]
  have "trace (lh_step nat_hash nat_cmp) lh0 [Inserted 5 True None, Inserted 21 True None, Deleted 5 (Some 5)]
      (?t 1 [?it 21])" by simp
  then show ?thesis
    using lh_refines_dictionary[OF nat_hash_functions n(1), of "[Inserted 5 True None, Inserted 21 True None, Deleted 5 (Some 5)]" "?t 1 [?it 21]"]
    by (intro exI[of _ "?t 1 [?it 21]"]) (simp add: OPENSSL_lh_num_items_def)
qed

text \<open>The length of the chains.\<close>

lemma lh_rebucket_grows:
  assumes "m (8 * n)" "8 * n < SIZE_MOD" "0 < n"
  shows "num_buckets (lh_rebucket m lh n) = n \<and> num_items (lh_rebucket m lh n) = num_items lh"
proof -
  have "foldl (\<lambda>new_buckets chain. foldl rebucket_item new_buckets chain) (replicate n []) (buckets lh)
      = rebucketed n (concat (buckets lh))"
    using foldl_rebucketed[OF assms(3)] by (simp add: foldl_concat)
  then show ?thesis using assms by (simp add: lh_rebucket_def Let_def rebucketed_def)
qed

text \<open>At most three times as many items as buckets.\<close>

definition load_ok :: "'d lhash \<Rightarrow> bool" where
  "load_ok lh \<longleftrightarrow> num_items lh div num_buckets lh \<le> kMaxAverageChainLength"

lemma load_ok_maybe_resize:
  assumes m: "\<And>n. m n" and b: "kMinNumBuckets \<le> num_buckets lh" "16 * num_buckets lh < SIZE_MOD"
    and d: "callback_depth lh = 0" and l: "num_items lh \<le> 3 * num_buckets lh"
  shows "load_ok (lh_maybe_resize m lh)"
proof -
  let ?n = "num_buckets lh"
  have n0: "16 \<le> ?n" using b(1) by (simp add: kMinNumBuckets_def)
  consider (grow) "2 < num_items lh div ?n" | (shrink) "num_items lh div ?n = 0" "16 < ?n"
    | (keep) "num_items lh div ?n \<le> 2" "\<not> (num_items lh div ?n = 0 \<and> 16 < ?n)" by linarith
  then show ?thesis
  proof cases
    case grow
    have "?n * 2 mod SIZE_MOD = ?n * 2" using b(2) by simp
    moreover have "?n < ?n * 2" using n0 by linarith
    ultimately have "lh_maybe_resize m lh = lh_rebucket m lh (?n * 2)"
      using grow d by (simp add: lh_maybe_resize_def Let_def kMaxAverageChainLength_def)
    moreover have "num_items lh div (?n * 2) \<le> 2"
    proof -
      have "num_items lh < 3 * (?n * 2)" using l n0 by linarith
      moreover have "0 < ?n * 2" using n0 by linarith
      ultimately have "num_items lh div (?n * 2) < 3" by (simp only: div_less_iff_less_mult)
      then show ?thesis by linarith
    qed
    ultimately show ?thesis
      using lh_rebucket_grows[of m "?n * 2" lh] m b(2) \<open>?n < ?n * 2\<close> by (simp add: load_ok_def kMaxAverageChainLength_def)
  next
    case shrink
    let ?h = "if ?n div 2 < 16 then 16 else ?n div 2"
    have "lh_maybe_resize m lh = lh_rebucket m lh ?h"
      using shrink d by (simp add: lh_maybe_resize_def Let_def kMaxAverageChainLength_def kMinAverageChainLength_def kMinNumBuckets_def)
    moreover have "num_items lh < 3 * ?h" using shrink by (auto simp: div_eq_0_iff)
    then have "num_items lh div ?h \<le> 2" by (simp add: less_Suc_eq_le[symmetric] div_less_iff_less_mult)
    ultimately show ?thesis
      using lh_rebucket_grows[of m ?h lh] m b(2) n0 by (simp add: load_ok_def kMaxAverageChainLength_def split: if_splits)
  next
    case keep
    then have "lh_maybe_resize m lh = lh"
      by (auto simp add: lh_maybe_resize_def Let_def kMaxAverageChainLength_def kMinAverageChainLength_def kMinNumBuckets_def)
    then show ?thesis using keep by (simp add: load_ok_def kMaxAverageChainLength_def)
  qed
qed



end
