(* ===== verification/Pool.thy ===== *)
theory Pool
  imports Prelude Mem Lhash
begin

text \<open>The buffer pool of \<open>pool/pool.c\<close>: reference-counted byte strings, deduplicated by a hash table
  (\<open>Lhash\<close>) that does not own a reference.  The heap maps addresses to the live buffers; the allocator
  is a parameter of each operation that calls it, and what it returns is any address that is not
  live.  The two critical sections of \<open>crypto_buffer_new\<close> are definitions of their own, so that other
  threads can run between them.\<close>

section \<open>Reference counts\<close>

definition CRYPTO_REFCOUNT_MAX :: u32 where
  "CRYPTO_REFCOUNT_MAX = 0xffffffff"

definition CRYPTO_refcount_inc :: "u32 \<Rightarrow> u32" where
  "CRYPTO_refcount_inc count = (if count < CRYPTO_REFCOUNT_MAX then count + 1 else count)"

text \<open>\<open>None\<close> is \<open>abort()\<close>.\<close>

definition CRYPTO_refcount_dec_and_test_zero :: "u32 \<Rightarrow> (bool \<times> u32) option" where
  "CRYPTO_refcount_dec_and_test_zero count =
     (if count = 0 then None
      else
        (let count = (if count < CRYPTO_REFCOUNT_MAX then count - 1 else count)
         in Some (count = 0, count)))"

section \<open>Model\<close>

record crypto_buffer =
  cb_pool :: bool
  cb_data :: bytes
  cb_refs :: u32
  cb_static :: bool

text \<open>A pointer to a buffer: an address, or the local \<open>tmp\<close> of \<open>crypto_buffer_new\<close>.\<close>

datatype cb_ptr = Heap nat | Tmp bytes

type_synonym cb_heap = "nat \<Rightarrow> crypto_buffer option"

record crypto_buffer_pool =
  cb_heap :: cb_heap
  bufs :: "cb_ptr lhash"

definition deref :: "cb_heap \<Rightarrow> nat \<Rightarrow> crypto_buffer" where
  "deref h a = (case h a of Some b \<Rightarrow> b | None \<Rightarrow> \<lparr>cb_pool = False, cb_data = [], cb_refs = 0, cb_static = False\<rparr>)"

fun cb_bytes :: "cb_heap \<Rightarrow> cb_ptr \<Rightarrow> bytes" where
  "cb_bytes h (Heap a) = cb_data (deref h a)"
| "cb_bytes h (Tmp data) = data"

definition CRYPTO_BUFFER_hash :: "cb_heap \<Rightarrow> cb_ptr \<Rightarrow> u32" where
  "CRYPTO_BUFFER_hash h p = OPENSSL_hash32 (cb_bytes h p)"

definition CRYPTO_BUFFER_cmp :: "cb_heap \<Rightarrow> cb_ptr \<Rightarrow> cb_ptr \<Rightarrow> int" where
  "CRYPTO_BUFFER_cmp h a b =
     (if length (cb_bytes h a) \<noteq> length (cb_bytes h b) then 1
      else memcmp (cb_bytes h a) (cb_bytes h b) (length (cb_bytes h a)))"

definition CRYPTO_BUFFER_POOL_new :: "(nat \<Rightarrow> bool) \<Rightarrow> cb_heap \<Rightarrow> crypto_buffer_pool option" where
  "CRYPTO_BUFFER_POOL_new m h =
     (if \<not> m 208 then None
      else case OPENSSL_lh_new m of
             None \<Rightarrow> None
           | Some lh \<Rightarrow> Some \<lparr>cb_heap = h, bufs = lh\<rparr>)"

definition crypto_buffer_free_object :: "cb_heap \<Rightarrow> nat \<Rightarrow> cb_heap" where
  "crypto_buffer_free_object h a = h(a := None)"

definition set_refs :: "cb_heap \<Rightarrow> nat \<Rightarrow> u32 \<Rightarrow> cb_heap" where
  "set_refs h a n = h(a := Some ((deref h a)\<lparr>cb_refs := n\<rparr>))"

definition CRYPTO_BUFFER_up_ref :: "crypto_buffer_pool \<Rightarrow> nat \<Rightarrow> crypto_buffer_pool" where
  "CRYPTO_BUFFER_up_ref st a =
     st\<lparr>cb_heap := set_refs (cb_heap st) a (CRYPTO_refcount_inc (cb_refs (deref (cb_heap st) a)))\<rparr>"

text \<open>The duplicate that a critical section of \<open>crypto_buffer_new\<close> settles on.\<close>

definition find_duplicate :: "crypto_buffer_pool \<Rightarrow> cb_ptr \<Rightarrow> bool \<Rightarrow> nat option" where
  "find_duplicate st key data_is_static =
     (case OPENSSL_lh_retrieve (CRYPTO_BUFFER_hash (cb_heap st)) (CRYPTO_BUFFER_cmp (cb_heap st)) (bufs st) key of
        Some (Heap duplicate) \<Rightarrow>
          if data_is_static \<and> \<not> cb_static (deref (cb_heap st) duplicate) then None else Some duplicate
      | _ \<Rightarrow> None)"

text \<open>The first critical section, under the read lock.\<close>

definition crypto_buffer_find :: "crypto_buffer_pool \<Rightarrow> bytes \<Rightarrow> bool \<Rightarrow> nat option \<times> crypto_buffer_pool" where
  "crypto_buffer_find st data data_is_static =
     (case find_duplicate st (Tmp data) data_is_static of
        None \<Rightarrow> (None, st)
      | Some duplicate \<Rightarrow> (Some duplicate, CRYPTO_BUFFER_up_ref st duplicate))"

text \<open>Between the critical sections: \<open>obj\<close> is the result of the allocation of the object and \<open>dup\<close> says
  whether the copy of the data succeeds.\<close>

definition crypto_buffer_make ::
  "crypto_buffer_pool \<Rightarrow> nat option \<Rightarrow> bool \<Rightarrow> bytes \<Rightarrow> bool \<Rightarrow> bool \<Rightarrow> nat option \<times> crypto_buffer_pool" where
  "crypto_buffer_make st obj dup data data_is_static with_pool =
     (case obj of
        None \<Rightarrow> (None, st)
      | Some buf \<Rightarrow>
          if \<not> data_is_static \<and> length data \<noteq> 0 \<and> \<not> dup then (None, st)
          else
            (Some buf, st\<lparr>cb_heap := (cb_heap st)(buf :=
               Some \<lparr>cb_pool = with_pool, cb_data = data, cb_refs = 1, cb_static = data_is_static\<rparr>)\<rparr>))"

text \<open>The second critical section, under the write lock, and the end of the function.\<close>

definition crypto_buffer_add ::
  "(nat \<Rightarrow> bool) \<Rightarrow> crypto_buffer_pool \<Rightarrow> nat \<Rightarrow> bool \<Rightarrow> nat option \<times> crypto_buffer_pool" where
  "crypto_buffer_add m st buf data_is_static =
     (case find_duplicate st (Heap buf) data_is_static of
        Some duplicate \<Rightarrow>
          (let st = CRYPTO_BUFFER_up_ref st duplicate
           in (Some duplicate, st\<lparr>cb_heap := crypto_buffer_free_object (cb_heap st) buf\<rparr>))
      | None \<Rightarrow>
          (case OPENSSL_lh_insert (CRYPTO_BUFFER_hash (cb_heap st)) (CRYPTO_BUFFER_cmp (cb_heap st)) m (bufs st) (Heap buf) of
             (inserted, old, lh) \<Rightarrow>
               (let st = st\<lparr>bufs := lh\<rparr>
                in if \<not> inserted then (None, st\<lparr>cb_heap := crypto_buffer_free_object (cb_heap st) buf\<rparr>)
                   else (Some buf, st))))"

definition crypto_buffer_new ::
  "(nat \<Rightarrow> bool) \<Rightarrow> nat option \<Rightarrow> bool \<Rightarrow> crypto_buffer_pool \<Rightarrow> bytes \<Rightarrow> bool \<Rightarrow> bool \<Rightarrow> nat option \<times> crypto_buffer_pool" where
  "crypto_buffer_new m obj dup st data data_is_static with_pool =
     (case (if with_pool then crypto_buffer_find st data data_is_static else (None, st)) of
        (Some duplicate, st) \<Rightarrow> (Some duplicate, st)
      | (None, st) \<Rightarrow>
          (case crypto_buffer_make st obj dup data data_is_static with_pool of
             (None, st) \<Rightarrow> (None, st)
           | (Some buf, st) \<Rightarrow>
               if \<not> with_pool then (Some buf, st) else crypto_buffer_add m st buf data_is_static))"

definition CRYPTO_BUFFER_new where
  "CRYPTO_BUFFER_new m obj dup st data with_pool = crypto_buffer_new m obj dup st data False with_pool"

definition CRYPTO_BUFFER_new_from_static_data_unsafe where
  "CRYPTO_BUFFER_new_from_static_data_unsafe m obj dup st data with_pool = crypto_buffer_new m obj dup st data True with_pool"

text \<open>\<open>raw\<close> is the result of the allocation of the data.\<close>

definition CRYPTO_BUFFER_alloc ::
  "crypto_buffer_pool \<Rightarrow> nat option \<Rightarrow> bytes option \<Rightarrow> nat \<Rightarrow> nat option \<times> crypto_buffer_pool" where
  "CRYPTO_BUFFER_alloc st obj raw len =
     (case obj of
        None \<Rightarrow> (None, st)
      | Some buf \<Rightarrow>
          if len \<noteq> 0 \<and> raw = None then (None, st)
          else
            (Some buf, st\<lparr>cb_heap := (cb_heap st)(buf :=
               Some \<lparr>cb_pool = False, cb_data = (case raw of None \<Rightarrow> [] | Some d \<Rightarrow> d), cb_refs = 1, cb_static = False\<rparr>)\<rparr>))"

text \<open>\<open>None\<close> is \<open>abort()\<close>.\<close>

definition CRYPTO_BUFFER_free :: "(nat \<Rightarrow> bool) \<Rightarrow> crypto_buffer_pool \<Rightarrow> nat option \<Rightarrow> crypto_buffer_pool option" where
  "CRYPTO_BUFFER_free m st buf =
     (case buf of
        None \<Rightarrow> Some st
      | Some buf \<Rightarrow>
          (case CRYPTO_refcount_dec_and_test_zero (cb_refs (deref (cb_heap st) buf)) of
             None \<Rightarrow> None
           | Some (is_zero, refs) \<Rightarrow>
               (let pool = cb_pool (deref (cb_heap st) buf);
                    st = st\<lparr>cb_heap := set_refs (cb_heap st) buf refs\<rparr>
                in if \<not> is_zero then Some st
                   else if \<not> pool then Some (st\<lparr>cb_heap := crypto_buffer_free_object (cb_heap st) buf\<rparr>)
                   else
                     (let hash = CRYPTO_BUFFER_hash (cb_heap st); cmp = CRYPTO_BUFFER_cmp (cb_heap st);
                          found = OPENSSL_lh_retrieve hash cmp (bufs st) (Heap buf);
                          st = (if found = Some (Heap buf)
                                then st\<lparr>bufs := snd (OPENSSL_lh_delete hash cmp m (bufs st) (Heap buf))\<rparr>
                                else st)
                      in Some (st\<lparr>cb_heap := crypto_buffer_free_object (cb_heap st) buf\<rparr>)))))"

text \<open>In a debugging build, \<open>None\<close> is a failed assertion.\<close>

definition CRYPTO_BUFFER_POOL_free :: "crypto_buffer_pool option \<Rightarrow> cb_ptr lhash_item list option" where
  "CRYPTO_BUFFER_POOL_free pool =
     (case pool of
        None \<Rightarrow> Some []
      | Some pool \<Rightarrow> if OPENSSL_lh_num_items (bufs pool) \<noteq> 0 then None else Some (OPENSSL_lh_free (Some (bufs pool))))"

definition CRYPTO_BUFFER_data :: "crypto_buffer_pool \<Rightarrow> nat \<Rightarrow> bytes" where
  "CRYPTO_BUFFER_data st buf = cb_data (deref (cb_heap st) buf)"

definition CRYPTO_BUFFER_len :: "crypto_buffer_pool \<Rightarrow> nat \<Rightarrow> nat" where
  "CRYPTO_BUFFER_len st buf = length (cb_data (deref (cb_heap st) buf))"

section \<open>The pool's contract with the hash table\<close>

lemma CRYPTO_BUFFER_cmp_0: "CRYPTO_BUFFER_cmp h a b = 0 \<longleftrightarrow> cb_bytes h a = cb_bytes h b"
  using memcmp_0[of "length (cb_bytes h a)" "cb_bytes h a" "cb_bytes h b"] by (auto simp: CRYPTO_BUFFER_cmp_def)

interpretation pool: hash_functions "CRYPTO_BUFFER_hash h" "CRYPTO_BUFFER_cmp h" for h
  by unfold_locales (auto simp: CRYPTO_BUFFER_cmp_0 CRYPTO_BUFFER_hash_def)

text \<open>The table does not depend on what the functions do with other data.\<close>

lemma lh_ok_cong:
  assumes "\<And>x. x \<in> elems lh \<Longrightarrow> hash x = hash' x" "\<And>x y. x \<in> elems lh \<Longrightarrow> y \<in> elems lh \<Longrightarrow> cmp x y = cmp' x y"
  shows "lh_ok hash cmp lh \<longleftrightarrow> lh_ok hash' cmp' lh"
proof -
  have e: "it \<in> set (buckets lh ! b) \<Longrightarrow> b < num_buckets lh \<Longrightarrow> item_data it \<in> elems lh" for it b
    by (auto simp: elems_iff)
  have "items_ok hash (buckets lh) \<longleftrightarrow> items_ok hash' (buckets lh)"
    unfolding items_ok_def using e assms(1) by metis
  moreover have "sorted_wrt (\<lambda>x y. cmp (item_data x) (item_data y) \<noteq> 0) (buckets lh ! b) \<longleftrightarrow>
      sorted_wrt (\<lambda>x y. cmp' (item_data x) (item_data y) \<noteq> 0) (buckets lh ! b)" if "b < num_buckets lh" for b
    unfolding sorted_wrt_iff_nth_less using e[OF nth_mem that] assms(2) that by (metis (no_types, lifting) order.strict_trans)
  ultimately show ?thesis unfolding lh_ok_def chains_distinct_def by blast
qed

lemma lh_ok_heap:
  assumes "\<And>p. p \<in> elems lh \<Longrightarrow> cb_bytes h p = cb_bytes h' p"
  shows "lh_ok (CRYPTO_BUFFER_hash h) (CRYPTO_BUFFER_cmp h) lh \<longleftrightarrow> lh_ok (CRYPTO_BUFFER_hash h') (CRYPTO_BUFFER_cmp h') lh"
  by (rule lh_ok_cong) (use assms in \<open>simp_all add: CRYPTO_BUFFER_hash_def CRYPTO_BUFFER_cmp_def\<close>)

section \<open>The invariant of the pool\<close>

text \<open>\<open>held a\<close> counts the references that callers have to the buffer at \<open>a\<close>; the addresses in \<open>pend\<close>
  are buffers between the critical sections of \<open>crypto_buffer_new\<close>, with no caller yet.\<close>

definition heap_ok :: "cb_heap \<Rightarrow> (nat \<Rightarrow> nat) \<Rightarrow> nat set \<Rightarrow> bool" where
  "heap_ok h held pend \<longleftrightarrow>
     (\<forall>a b. h a = Some b \<longrightarrow> 0 < cb_refs b \<and> (cb_refs b = CRYPTO_REFCOUNT_MAX \<or> unat (cb_refs b) = held a)) \<and>
     (\<forall>a. 0 < held a \<longrightarrow> h a \<noteq> None) \<and>
     (\<forall>a\<in>pend. \<exists>b. h a = Some b \<and> cb_pool b \<and> cb_refs b = 1)"

definition pooled :: "cb_heap \<Rightarrow> nat set \<Rightarrow> nat \<Rightarrow> bool" where
  "pooled h pend a \<longleftrightarrow> (\<exists>b. h a = Some b \<and> cb_pool b) \<and> a \<notin> pend"

definition table_ok :: "crypto_buffer_pool \<Rightarrow> nat set \<Rightarrow> bool" where
  "table_ok st pend \<longleftrightarrow>
     lh_ok (CRYPTO_BUFFER_hash (cb_heap st)) (CRYPTO_BUFFER_cmp (cb_heap st)) (bufs st) \<and>
     (\<forall>p\<in>elems (bufs st). \<exists>a. p = Heap a \<and> pooled (cb_heap st) pend a)"

definition pool_inv :: "crypto_buffer_pool \<Rightarrow> (nat \<Rightarrow> nat) \<Rightarrow> nat set \<Rightarrow> bool" where
  "pool_inv st held pend \<longleftrightarrow> heap_ok (cb_heap st) held pend \<and> table_ok st pend"

lemma deref_Some [simp]: "h a = Some b \<Longrightarrow> deref h a = b"
  by (simp add: deref_def)

lemma deref_set_refs [simp]:
  "deref (set_refs h a n) c = (if c = a then (deref h a)\<lparr>cb_refs := n\<rparr> else deref h c)"
  by (simp add: set_refs_def deref_def)

lemma cb_bytes_set_refs [simp]: "cb_bytes (set_refs h a n) = cb_bytes h"
proof
  show "cb_bytes (set_refs h a n) p = cb_bytes h p" for p by (cases p) simp_all
qed

lemma functions_set_refs [simp]:
  "CRYPTO_BUFFER_hash (set_refs h a n) = CRYPTO_BUFFER_hash h"
  "CRYPTO_BUFFER_cmp (set_refs h a n) = CRYPTO_BUFFER_cmp h"
  by (simp_all add: CRYPTO_BUFFER_hash_def CRYPTO_BUFFER_cmp_def fun_eq_iff)

lemma cb_bytes_upd: "p \<noteq> Heap a \<Longrightarrow> cb_bytes (h(a := x)) p = cb_bytes h p"
  by (cases p) (simp_all add: deref_def)

lemma pooled_set_refs [simp]: "h a \<noteq> None \<Longrightarrow> pooled (set_refs h a n) pend c = pooled h pend c"
  by (auto simp: pooled_def set_refs_def)

lemma refcount_le: "n \<le> CRYPTO_REFCOUNT_MAX"
  using unsigned_less[of n, where ?'a = nat] by (simp add: CRYPTO_REFCOUNT_MAX_def word_le_nat_alt)

lemma refcount_inc: "0 < n \<Longrightarrow> 0 < CRYPTO_refcount_inc n \<and>
    (CRYPTO_refcount_inc n = CRYPTO_REFCOUNT_MAX \<or> unat (CRYPTO_refcount_inc n) = unat n + 1 \<and> n \<noteq> CRYPTO_REFCOUNT_MAX)"
proof -
  have "n < CRYPTO_REFCOUNT_MAX \<or> n = CRYPTO_REFCOUNT_MAX" using refcount_le[of n] by (simp add: order.order_iff_strict)
  moreover have "unat (n + 1) = unat n + 1" if "n < CRYPTO_REFCOUNT_MAX"
    using that by (simp add: word_less_nat_alt unat_word_ariths CRYPTO_REFCOUNT_MAX_def)
  ultimately show "0 < n \<Longrightarrow> ?thesis"
    by (auto simp: CRYPTO_refcount_inc_def word_less_nat_alt)
qed

lemma table_ok_heap:
  assumes "table_ok st pend" "\<And>a. Heap a \<in> elems (bufs st) \<Longrightarrow> cb_bytes h (Heap a) = cb_bytes (cb_heap st) (Heap a)"
    and "\<And>a. Heap a \<in> elems (bufs st) \<Longrightarrow> pooled (cb_heap st) pend a \<Longrightarrow> pooled h pend' a"
  shows "table_ok (st\<lparr>cb_heap := h\<rparr>) pend'"
proof -
  have t: "\<exists>a. p = Heap a \<and> pooled (cb_heap st) pend a" if "p \<in> elems (bufs st)" for p
    using assms(1) that unfolding table_ok_def by blast
  have "cb_bytes (cb_heap st) p = cb_bytes h p" if "p \<in> elems (bufs st)" for p
    using t[OF that] assms(2) that by auto
  from lh_ok_heap[OF this]
  have "lh_ok (CRYPTO_BUFFER_hash h) (CRYPTO_BUFFER_cmp h) (bufs st)" using assms(1) by (simp add: table_ok_def)
  then show ?thesis using t assms(3) by (fastforce simp: table_ok_def)
qed

lemma table_ok_set_refs:
  assumes "table_ok st pend" "cb_heap st a \<noteq> None"
  shows "table_ok (st\<lparr>cb_heap := set_refs (cb_heap st) a n\<rparr>) pend"
  by (rule table_ok_heap[OF assms(1)]) (simp_all add: assms(2))

lemma heap_ok_up:
  assumes "heap_ok h held pend" "h a = Some b" "a \<notin> pend"
  shows "heap_ok (set_refs h a (CRYPTO_refcount_inc (cb_refs b))) (held(a := held a + 1)) pend"
proof -
  have "0 < cb_refs b" "cb_refs b = CRYPTO_REFCOUNT_MAX \<or> unat (cb_refs b) = held a"
    using assms(1,2) by (simp_all add: heap_ok_def)
  then have "0 < CRYPTO_refcount_inc (cb_refs b)"
    "CRYPTO_refcount_inc (cb_refs b) = CRYPTO_REFCOUNT_MAX \<or> unat (CRYPTO_refcount_inc (cb_refs b)) = held a + 1"
    using refcount_inc[of "cb_refs b"] by auto
  then show ?thesis using assms by (auto simp: heap_ok_def set_refs_def)
qed

lemma pool_inv_up_ref:
  assumes "pool_inv st held pend" "cb_heap st a \<noteq> None" "a \<notin> pend"
  shows "pool_inv (CRYPTO_BUFFER_up_ref st a) (held(a := held a + 1)) pend"
proof -
  obtain b where b: "cb_heap st a = Some b" using assms(2) by blast
  have h: "heap_ok (cb_heap st) held pend" and t: "table_ok st pend" using assms(1) by (simp_all add: pool_inv_def)
  show ?thesis
    using heap_ok_up[OF h b assms(3)] table_ok_set_refs[OF t assms(2)] b
    by (simp add: pool_inv_def CRYPTO_BUFFER_up_ref_def)
qed

lemma heap_ok_live: "heap_ok h held pend \<Longrightarrow> a \<in> pend \<or> 0 < held a \<Longrightarrow> h a \<noteq> None"
  by (auto simp: heap_ok_def)

lemma find_duplicate_Some:
  assumes "table_ok st pend" "find_duplicate st key stat = Some d"
  shows "Heap d \<in> elems (bufs st)" "pooled (cb_heap st) pend d"
    "cb_data (deref (cb_heap st) d) = cb_bytes (cb_heap st) key" "stat \<Longrightarrow> cb_static (deref (cb_heap st) d)"
proof -
  have r: "OPENSSL_lh_retrieve (CRYPTO_BUFFER_hash (cb_heap st)) (CRYPTO_BUFFER_cmp (cb_heap st)) (bufs st) key = Some (Heap d)"
    "stat \<Longrightarrow> cb_static (deref (cb_heap st) d)"
    using assms(2) by (auto simp: find_duplicate_def split: option.splits cb_ptr.splits if_splits)
  have "Heap d \<in> elems (bufs st) \<and> CRYPTO_BUFFER_cmp (cb_heap st) (Heap d) key = 0"
    using r(1) pool.retrieve_Some assms(1) unfolding table_ok_def by blast
  then show "Heap d \<in> elems (bufs st)" "cb_data (deref (cb_heap st) d) = cb_bytes (cb_heap st) key"
    by (simp_all add: CRYPTO_BUFFER_cmp_0)
  then show "pooled (cb_heap st) pend d" using assms(1) unfolding table_ok_def by blast
  show "stat \<Longrightarrow> cb_static (deref (cb_heap st) d)" by (rule r(2))
qed

lemma pool_inv_find:
  assumes "pool_inv st held pend" "crypto_buffer_find st data stat = (Some d, st')"
  shows "pool_inv st' (held(d := held d + 1)) pend"
proof -
  have f: "find_duplicate st (Tmp data) stat = Some d" "st' = CRYPTO_BUFFER_up_ref st d"
    using assms(2) by (auto simp: crypto_buffer_find_def split: option.splits)
  have "table_ok st pend" using assms(1) by (simp add: pool_inv_def)
  then have "pooled (cb_heap st) pend d" using find_duplicate_Some(2) f(1) by blast
  then show ?thesis using pool_inv_up_ref[OF assms(1)] f(2) by (auto simp: pooled_def)
qed

lemma pool_inv_fresh:
  assumes inv: "pool_inv st held pend" and a: "cb_heap st a = None" and b: "cb_refs b = 1"
    and p: "pend' = (if cb_pool b then insert a pend else pend)"
  shows "pool_inv (st\<lparr>cb_heap := (cb_heap st)(a := Some b)\<rparr>) (held(a := 1)) pend'"
proof -
  have h: "heap_ok (cb_heap st) held pend" and t: "table_ok st pend" using inv by (simp_all add: pool_inv_def)
  have ap: "a \<notin> pend" using heap_ok_live[OF h] a by blast
  have ne: "Heap a \<notin> elems (bufs st)" using t a by (force simp: table_ok_def pooled_def)
  have "table_ok (st\<lparr>cb_heap := (cb_heap st)(a := Some b)\<rparr>) pend'"
  proof (rule table_ok_heap[OF t])
    fix c assume c: "Heap c \<in> elems (bufs st)"
    then have "c \<noteq> a" using ne by blast
    then show "cb_bytes ((cb_heap st)(a := Some b)) (Heap c) = cb_bytes (cb_heap st) (Heap c)" by (simp add: deref_def)
    show "pooled ((cb_heap st)(a := Some b)) pend' c" if "pooled (cb_heap st) pend c"
      using that \<open>c \<noteq> a\<close> p by (simp add: pooled_def)
  qed
  moreover have "heap_ok ((cb_heap st)(a := Some b)) (held(a := 1)) pend'"
    using h b p ap by (auto simp: heap_ok_def)
  ultimately show ?thesis by (simp add: pool_inv_def)
qed

text \<open>Freeing a buffer that nobody holds and that is not in the table.\<close>

lemma pool_inv_remove:
  assumes h: "heap_ok (cb_heap st) held pend" and t: "table_ok st pend" and ne: "Heap a \<notin> elems (bufs st)"
  shows "pool_inv (st\<lparr>cb_heap := crypto_buffer_free_object (cb_heap st) a\<rparr>) (held(a := 0)) (pend - {a})"
proof -
  have "table_ok (st\<lparr>cb_heap := crypto_buffer_free_object (cb_heap st) a\<rparr>) (pend - {a})"
  proof (rule table_ok_heap[OF t])
    fix c assume c: "Heap c \<in> elems (bufs st)"
    then have "c \<noteq> a" using ne by blast
    then show "cb_bytes (crypto_buffer_free_object (cb_heap st) a) (Heap c) = cb_bytes (cb_heap st) (Heap c)"
      by (simp add: deref_def crypto_buffer_free_object_def)
    show "pooled (crypto_buffer_free_object (cb_heap st) a) (pend - {a}) c" if "pooled (cb_heap st) pend c"
      using that \<open>c \<noteq> a\<close> by (auto simp add: pooled_def crypto_buffer_free_object_def)
  qed
  moreover have "heap_ok (crypto_buffer_free_object (cb_heap st) a) (held(a := 0)) (pend - {a})"
    using h by (auto simp: heap_ok_def crypto_buffer_free_object_def)
  ultimately show ?thesis by (simp add: pool_inv_def)
qed

lemma pending_not_in_table: "table_ok st pend \<Longrightarrow> a \<in> pend \<Longrightarrow> Heap a \<notin> elems (bufs st)"
  by (force simp: table_ok_def pooled_def)

lemma bufs_up_ref [simp]: "bufs (CRYPTO_BUFFER_up_ref st d) = bufs st"
  by (simp add: CRYPTO_BUFFER_up_ref_def)

lemma pool_inv_add:
  assumes inv: "pool_inv st held pend" and a: "a \<in> pend" and r: "crypto_buffer_add m st a stat = (r, st')"
  shows "pool_inv st'
    (case r of None \<Rightarrow> held(a := 0) | Some d \<Rightarrow> if d = a then held else held(a := 0, d := held d + 1)) (pend - {a})"
proof -
  have h: "heap_ok (cb_heap st) held pend" and t: "table_ok st pend" using inv by (simp_all add: pool_inv_def)
  note ne = pending_not_in_table[OF t a]
  show ?thesis
  proof (cases "find_duplicate st (Heap a) stat")
    case (Some d)
    have d: "pooled (cb_heap st) pend d" using find_duplicate_Some(2)[OF t Some] .
    then have da: "d \<noteq> a" using a by (auto simp: pooled_def)
    have i: "pool_inv (CRYPTO_BUFFER_up_ref st d) (held(d := held d + 1)) pend"
      using pool_inv_up_ref[OF inv] d by (auto simp: pooled_def)
    have "pool_inv st' ((held(d := held d + 1))(a := 0)) (pend - {a})"
      using pool_inv_remove[of "CRYPTO_BUFFER_up_ref st d" "held(d := held d + 1)" pend a] i ne r Some
      by (auto simp: crypto_buffer_add_def Let_def pool_inv_def)
    moreover have "r = Some d" using r Some by (auto simp: crypto_buffer_add_def Let_def)
    ultimately show ?thesis using da by (simp add: fun_upd_twist)
  next
    case None
    obtain ins old lh where l: "OPENSSL_lh_insert (CRYPTO_BUFFER_hash (cb_heap st)) (CRYPTO_BUFFER_cmp (cb_heap st)) m (bufs st) (Heap a) = (ins, old, lh)"
      by (cases rule: prod_cases3)
    have ok: "lh_ok (CRYPTO_BUFFER_hash (cb_heap st)) (CRYPTO_BUFFER_cmp (cb_heap st)) (bufs st)" using t by (simp add: table_ok_def)
    note e = pool.elems_insert[OF ok l]
    show ?thesis
    proof (cases ins)
      case True
      have "pooled (cb_heap st) (pend - {a}) a" using h a by (auto simp: heap_ok_def pooled_def)
      moreover have "pooled (cb_heap st) (pend - {a}) c" if "pooled (cb_heap st) pend c" for c using that by (auto simp: pooled_def)
      ultimately have "table_ok (st\<lparr>bufs := lh\<rparr>) (pend - {a})"
        using e True t by (fastforce simp: table_ok_def)
      moreover have "heap_ok (cb_heap st) held (pend - {a})" using h by (auto simp: heap_ok_def)
      moreover have "r = Some a" "st' = st\<lparr>bufs := lh\<rparr>" using r None l True by (auto simp: crypto_buffer_add_def Let_def)
      ultimately show ?thesis by (simp add: pool_inv_def)
    next
      case False
      then have "lh = bufs st" using e by simp
      then have "r = None" "st' = st\<lparr>cb_heap := crypto_buffer_free_object (cb_heap st) a\<rparr>"
        using r None l False by (auto simp: crypto_buffer_add_def Let_def)
      then show ?thesis using pool_inv_remove[OF h t ne] by auto
    qed
  qed
qed

lemma refcount_dec:
  assumes "CRYPTO_refcount_dec_and_test_zero n = Some (z, k)"
  shows "0 < n \<and> (z \<longleftrightarrow> k = 0) \<and> (if n = CRYPTO_REFCOUNT_MAX then k = n else unat n = unat k + 1)"
proof -
  have "unat n = unat (n - 1) + 1" if "n \<noteq> 0" using that unat_minus_one[of n] unat_gt_0[of n] by simp
  moreover have "n < CRYPTO_REFCOUNT_MAX \<longleftrightarrow> n \<noteq> CRYPTO_REFCOUNT_MAX" using refcount_le[of n] by (simp add: order.strict_iff_order)
  ultimately show ?thesis
    using assms by (auto simp: CRYPTO_refcount_dec_and_test_zero_def Let_def word_gt_0 split: if_splits)
qed

lemma pool_inv_free:
  assumes inv: "pool_inv st held pend" and a: "0 < held a" "a \<notin> pend" and f: "CRYPTO_BUFFER_free m st (Some a) = Some st'"
  shows "pool_inv st' (held(a := held a - 1)) pend"
proof -
  have h: "heap_ok (cb_heap st) held pend" and t: "table_ok st pend" using inv by (simp_all add: pool_inv_def)
  obtain b where b: "cb_heap st a = Some b" using heap_ok_live[OF h] a(1) by blast
  obtain z k where d: "CRYPTO_refcount_dec_and_test_zero (cb_refs b) = Some (z, k)"
    using f b by (auto simp: CRYPTO_BUFFER_free_def split: option.splits)
  note k = refcount_dec[OF d]
  let ?st = "st\<lparr>cb_heap := set_refs (cb_heap st) a k\<rparr>"
  have t1: "table_ok ?st pend" using table_ok_set_refs[OF t] b by simp
  have refs: "cb_refs b = CRYPTO_REFCOUNT_MAX \<or> unat (cb_refs b) = held a" using h b by (auto simp: heap_ok_def)
  show ?thesis
  proof (cases z)
    case False
    then have "0 < k" using k by (simp add: word_gt_0)
    moreover have "k = CRYPTO_REFCOUNT_MAX \<or> unat k = held a - 1" using k refs by (auto split: if_splits)
    ultimately have "heap_ok (set_refs (cb_heap st) a k) (held(a := held a - 1)) pend"
      using h a(2) b by (auto simp: heap_ok_def set_refs_def)
    moreover have "st' = ?st" using f b d False by (simp add: CRYPTO_BUFFER_free_def Let_def)
    ultimately show ?thesis using t1 by (simp add: pool_inv_def)
  next
    case True
    then have "unat (cb_refs b) = 1" using k by (auto simp: CRYPTO_REFCOUNT_MAX_def split: if_splits)
    then have one: "held a = 1" using refs by (auto simp: CRYPTO_REFCOUNT_MAX_def)
    have up: "crypto_buffer_free_object (set_refs (cb_heap st) a k) a = crypto_buffer_free_object (cb_heap st) a"
      by (simp add: crypto_buffer_free_object_def set_refs_def)
    have rm: "pool_inv (st\<lparr>bufs := lh, cb_heap := crypto_buffer_free_object (cb_heap st) a\<rparr>) (held(a := held a - 1)) pend"
      if "table_ok (st\<lparr>bufs := lh\<rparr>) pend" "Heap a \<notin> elems lh" for lh
      using pool_inv_remove[of "st\<lparr>bufs := lh\<rparr>" held pend a] that h a(2) one by simp
    have ok: "lh_ok (CRYPTO_BUFFER_hash (cb_heap st)) (CRYPTO_BUFFER_cmp (cb_heap st)) (bufs st)" using t by (simp add: table_ok_def)
    let ?found = "OPENSSL_lh_retrieve (CRYPTO_BUFFER_hash (cb_heap st)) (CRYPTO_BUFFER_cmp (cb_heap st)) (bufs st) (Heap a)"
    have out: "Heap a \<notin> elems (bufs st)" if "?found \<noteq> Some (Heap a)"
      using that pool.retrieve_Some[OF ok, of "Heap a" "Heap a"] by (auto simp: CRYPTO_BUFFER_cmp_0)
    consider (own) "\<not> cb_pool b" | (replaced) "cb_pool b" "?found \<noteq> Some (Heap a)" | (shared) "cb_pool b" "?found = Some (Heap a)"
      by blast
    then show ?thesis
    proof cases
      case own
      then have "st' = st\<lparr>bufs := bufs st, cb_heap := crypto_buffer_free_object (cb_heap st) a\<rparr>"
        using f b d True by (simp add: CRYPTO_BUFFER_free_def Let_def up)
      moreover have "Heap a \<notin> elems (bufs st)" using own b t by (force simp: table_ok_def pooled_def)
      ultimately show ?thesis using rm[of "bufs st"] t by simp
    next
      case replaced
      then have "st' = st\<lparr>bufs := bufs st, cb_heap := crypto_buffer_free_object (cb_heap st) a\<rparr>"
        using f b d True by (simp add: CRYPTO_BUFFER_free_def Let_def up)
      then show ?thesis using rm[of "bufs st"] t out[OF replaced(2)] by simp
    next
      case shared
      obtain old lh where l: "OPENSSL_lh_delete (CRYPTO_BUFFER_hash (cb_heap st)) (CRYPTO_BUFFER_cmp (cb_heap st)) m (bufs st) (Heap a) = (old, lh)"
        by fastforce
      note e = pool.elems_delete[OF ok l]
      have "st' = st\<lparr>bufs := lh, cb_heap := crypto_buffer_free_object (cb_heap st) a\<rparr>"
        using f b d True shared l by (simp add: CRYPTO_BUFFER_free_def Let_def up)
      moreover have "table_ok (st\<lparr>bufs := lh\<rparr>) pend" using e t by (auto simp: table_ok_def)
      moreover have "Heap a \<notin> elems lh" using e by (auto simp: CRYPTO_BUFFER_cmp_0)
      ultimately show ?thesis using rm[of lh] by simp
    qed
  qed
qed

lemma free_defined:
  assumes "pool_inv st held pend" "0 < held a" "a \<notin> pend"
  shows "CRYPTO_BUFFER_free m st (Some a) \<noteq> None"
proof -
  obtain b where b: "cb_heap st a = Some b"
    using assms heap_ok_live[of "cb_heap st" held pend a] by (auto simp: pool_inv_def)
  moreover have "0 < cb_refs b" using assms(1) b by (simp add: pool_inv_def heap_ok_def)
  ultimately have b: "cb_heap st a = Some b" "0 < cb_refs b" by simp_all
  then have "CRYPTO_refcount_dec_and_test_zero (cb_refs b) \<noteq> None"
    by (auto simp: CRYPTO_refcount_dec_and_test_zero_def)
  then show ?thesis using b by (auto simp: CRYPTO_BUFFER_free_def Let_def)
qed

section \<open>Threads\<close>

text \<open>A step is a critical section or an operation that one thread runs.\<close>

inductive pool_reach :: "crypto_buffer_pool \<Rightarrow> (nat \<Rightarrow> nat) \<Rightarrow> nat set \<Rightarrow> bool" where
  new: "CRYPTO_BUFFER_POOL_new m (\<lambda>_. None) = Some st \<Longrightarrow> pool_reach st (\<lambda>_. 0) {}"
| find: "pool_reach st held pend \<Longrightarrow> crypto_buffer_find st data stat = (Some d, st') \<Longrightarrow>
    pool_reach st' (held(d := held d + 1)) pend"
| make: "pool_reach st held pend \<Longrightarrow> cb_heap st a = None \<Longrightarrow>
    crypto_buffer_make st (Some a) dup data stat with_pool = (Some a, st') \<Longrightarrow>
    pool_reach st' (held(a := 1)) (if with_pool then insert a pend else pend)"
| add: "pool_reach st held pend \<Longrightarrow> a \<in> pend \<Longrightarrow> crypto_buffer_add m st a stat = (r, st') \<Longrightarrow>
    pool_reach st' (case r of None \<Rightarrow> held(a := 0)
      | Some d \<Rightarrow> if d = a then held else held(a := 0, d := held d + 1)) (pend - {a})"
| alloc: "pool_reach st held pend \<Longrightarrow> cb_heap st a = None \<Longrightarrow>
    CRYPTO_BUFFER_alloc st (Some a) raw len = (Some a, st') \<Longrightarrow> pool_reach st' (held(a := 1)) pend"
| up_ref: "pool_reach st held pend \<Longrightarrow> 0 < held a \<Longrightarrow> a \<notin> pend \<Longrightarrow>
    pool_reach (CRYPTO_BUFFER_up_ref st a) (held(a := held a + 1)) pend"
| free: "pool_reach st held pend \<Longrightarrow> 0 < held a \<Longrightarrow> a \<notin> pend \<Longrightarrow>
    CRYPTO_BUFFER_free m st (Some a) = Some st' \<Longrightarrow> pool_reach st' (held(a := held a - 1)) pend"

lemma pool_inv_new:
  assumes "CRYPTO_BUFFER_POOL_new m (\<lambda>_. None) = Some st"
  shows "pool_inv st (\<lambda>_. 0) {}"
proof -
  obtain lh where "OPENSSL_lh_new m = Some lh" "st = \<lparr>cb_heap = (\<lambda>_. None), bufs = lh\<rparr>"
    using assms by (auto simp: CRYPTO_BUFFER_POOL_new_def split: if_splits option.splits)
  then show ?thesis
    using lh_ok_new[of m lh "CRYPTO_BUFFER_hash (\<lambda>_. None)" "CRYPTO_BUFFER_cmp (\<lambda>_. None)"]
    by (simp add: pool_inv_def heap_ok_def table_ok_def)
qed

lemma pool_reach_inv: "pool_reach st held pend \<Longrightarrow> pool_inv st held pend"
proof (induction rule: pool_reach.induct)
  case (make st held pend a dup data stat with_pool st')
  let ?b = "\<lparr>cb_pool = with_pool, cb_data = data, cb_refs = 1, cb_static = stat\<rparr>"
  have st': "st' = st\<lparr>cb_heap := (cb_heap st)(a := Some ?b)\<rparr>"
    using make.hyps(3) by (auto simp: crypto_buffer_make_def split: if_splits)
  show ?case unfolding st' by (rule pool_inv_fresh[OF make.IH make.hyps(2)]) simp_all
next
  case (alloc st held pend a raw len st')
  then obtain d where st': "st' = st\<lparr>cb_heap := (cb_heap st)(a := Some \<lparr>cb_pool = False, cb_data = d, cb_refs = 1, cb_static = False\<rparr>)\<rparr>"
    by (auto simp: CRYPTO_BUFFER_alloc_def split: if_splits option.splits)
  show ?case unfolding st' by (rule pool_inv_fresh[OF alloc.IH alloc.hyps(2)]) simp_all
next
  case (up_ref st held pend a)
  then show ?case using pool_inv_up_ref heap_ok_live unfolding pool_inv_def by metis
next
  case (find st held pend data stat d st')
  show ?case by (rule pool_inv_find[OF find.IH find.hyps(2)])
next
  case (add st held pend a m stat r st')
  show ?case by (rule pool_inv_add[OF add.IH add.hyps(2,3)])
next
  case (free st held pend a m st')
  show ?case by (rule pool_inv_free[OF free.IH free.hyps(2-4)])
qed (rule pool_inv_new)

section \<open>Properties\<close>

text \<open>C18: The reference counting of pooled buffers is safe, however threads interleave the critical sections
  of \<open>crypto_buffer_new\<close>, \<open>CRYPTO_BUFFER_up_ref\<close>, \<open>CRYPTO_BUFFER_free\<close> and \<open>CRYPTO_BUFFER_alloc\<close> and
  whichever allocations fail: a buffer that a caller holds is live, so nothing is used after it is
  freed or freed twice and \<open>CRYPTO_BUFFER_free\<close> never aborts; the pool's table, which owns no
  reference, has no dangling entry; a live buffer with no holder has a saturated count, so no other buffer
  leaks; and when every reference is gone the assertion of \<open>CRYPTO_BUFFER_POOL_free\<close> holds.\<close>

theorem pool_references_safe:
  assumes "pool_reach st held pend"
  shows "(\<forall>a. 0 < held a \<longrightarrow> (\<exists>b. cb_heap st a = Some b \<and> 0 < cb_refs b)) \<and>
    (\<forall>a m. 0 < held a \<and> a \<notin> pend \<longrightarrow> CRYPTO_BUFFER_free m st (Some a) \<noteq> None) \<and>
    (\<forall>p\<in>elems (bufs st). \<exists>a b. p = Heap a \<and> cb_heap st a = Some b \<and> cb_pool b) \<and>
    (\<forall>a b. cb_heap st a = Some b \<and> held a = 0 \<longrightarrow> cb_refs b = CRYPTO_REFCOUNT_MAX) \<and>
    ((\<forall>a b. cb_heap st a = Some b \<longrightarrow> cb_refs b \<noteq> CRYPTO_REFCOUNT_MAX) \<and> (\<forall>a. held a = 0) \<longrightarrow>
       CRYPTO_BUFFER_POOL_free (Some st) \<noteq> None)"
proof (intro conjI allI ballI impI)
  have inv: "pool_inv st held pend" using pool_reach_inv[OF assms] .
  then have h: "heap_ok (cb_heap st) held pend" and t: "table_ok st pend" by (simp_all add: pool_inv_def)
  show "\<exists>b. cb_heap st a = Some b \<and> 0 < cb_refs b" if ha: "0 < held a" for a
  proof -
    obtain b where "cb_heap st a = Some b" using heap_ok_live[OF h] ha by blast
    moreover from this have "0 < cb_refs b" using h by (simp add: heap_ok_def)
    ultimately show ?thesis by blast
  qed
  show "CRYPTO_BUFFER_free m st (Some a) \<noteq> None" if "0 < held a \<and> a \<notin> pend" for a m
    using free_defined[OF inv] that by blast
  show live: "\<exists>a b. p = Heap a \<and> cb_heap st a = Some b \<and> cb_pool b" if "p \<in> elems (bufs st)" for p
    using t that unfolding table_ok_def pooled_def by blast
  show sat: "cb_refs b = CRYPTO_REFCOUNT_MAX" if ab: "cb_heap st a = Some b \<and> held a = 0" for a b
  proof -
    have "0 < cb_refs b \<and> (cb_refs b = CRYPTO_REFCOUNT_MAX \<or> unat (cb_refs b) = held a)"
      using h ab unfolding heap_ok_def by blast
    then have "0 < cb_refs b" "cb_refs b = CRYPTO_REFCOUNT_MAX \<or> unat (cb_refs b) = 0" using ab by simp_all
    then show ?thesis by (simp add: unat_eq_0 word_gt_0)
  qed
  assume z: "(\<forall>a b. cb_heap st a = Some b \<longrightarrow> cb_refs b \<noteq> CRYPTO_REFCOUNT_MAX) \<and> (\<forall>a. held a = 0)"
  have "elems (bufs st) = {}" using live sat z by blast
  then have "num_items (bufs st) = 0" using pool.num_items_card[of "cb_heap st" "bufs st"] t by (simp add: table_ok_def)
  then show "CRYPTO_BUFFER_POOL_free (Some st) \<noteq> None" by (simp add: CRYPTO_BUFFER_POOL_free_def OPENSSL_lh_num_items_def)
qed

lemma find_duplicate_elem:
  assumes "table_ok st pend" "Heap p \<in> elems (bufs st)" "cb_data (deref (cb_heap st) p) = data"
  shows "find_duplicate st (Tmp data) False = Some p"
proof -
  have "OPENSSL_lh_retrieve (CRYPTO_BUFFER_hash (cb_heap st)) (CRYPTO_BUFFER_cmp (cb_heap st)) (bufs st) (Tmp data) = Some (Heap p)"
    using assms pool.retrieve_Some by (simp add: table_ok_def CRYPTO_BUFFER_cmp_0)
  then show ?thesis by (simp add: find_duplicate_def)
qed

text \<open>What a successful \<open>crypto_buffer_new\<close> leaves.\<close>

definition pooled_as :: "crypto_buffer_pool \<Rightarrow> nat \<Rightarrow> bytes \<Rightarrow> bool \<Rightarrow> bool" where
  "pooled_as st p data stat \<longleftrightarrow>
     Heap p \<in> elems (bufs st) \<and> cb_data (deref (cb_heap st) p) = data \<and>
     (stat \<longrightarrow> cb_static (deref (cb_heap st) p)) \<and> (\<exists>pend. table_ok st pend)"

lemma find_pooled:
  assumes "pool_inv st held pend" "crypto_buffer_find st data stat = (Some d, st')"
  shows "pooled_as st' d data stat"
proof -
  have f: "find_duplicate st (Tmp data) stat = Some d" "st' = CRYPTO_BUFFER_up_ref st d"
    using assms(2) by (auto simp: crypto_buffer_find_def split: option.splits)
  have t: "table_ok st pend" using assms(1) by (simp add: pool_inv_def)
  note d = find_duplicate_Some[OF t f(1)]
  have "table_ok st' pend" using pool_inv_find[OF assms] by (simp add: pool_inv_def)
  then show ?thesis using d f(2) by (auto simp: pooled_as_def CRYPTO_BUFFER_up_ref_def)
qed

lemma add_pooled:
  assumes inv: "pool_inv st held pend" and a: "a \<in> pend" and r: "crypto_buffer_add m st a stat = (Some p, st')"
    and stat: "stat \<longrightarrow> cb_static (deref (cb_heap st) a)"
  shows "pooled_as st' p (cb_data (deref (cb_heap st) a)) stat"
proof -
  have t: "table_ok st pend" using inv by (simp add: pool_inv_def)
  have t': "table_ok st' (pend - {a})" using pool_inv_add[OF inv a r] by (simp add: pool_inv_def)
  show ?thesis
  proof (cases "find_duplicate st (Heap a) stat")
    case (Some d)
    note d = find_duplicate_Some[OF t Some]
    have "d \<noteq> a" using d(2) a by (auto simp: pooled_def)
    moreover have "p = d" "st' = (CRYPTO_BUFFER_up_ref st d)\<lparr>cb_heap := crypto_buffer_free_object (cb_heap (CRYPTO_BUFFER_up_ref st d)) a\<rparr>"
      using r Some by (auto simp: crypto_buffer_add_def Let_def)
    ultimately show ?thesis
      using d t' by (auto simp: pooled_as_def CRYPTO_BUFFER_up_ref_def crypto_buffer_free_object_def set_refs_def deref_def)
  next
    case None
    obtain old lh where l: "OPENSSL_lh_insert (CRYPTO_BUFFER_hash (cb_heap st)) (CRYPTO_BUFFER_cmp (cb_heap st)) m (bufs st) (Heap a) = (True, old, lh)"
      "p = a" "st' = st\<lparr>bufs := lh\<rparr>"
      using r None by (auto simp: crypto_buffer_add_def Let_def split: prod.splits if_splits)
    have "lh_ok (CRYPTO_BUFFER_hash (cb_heap st)) (CRYPTO_BUFFER_cmp (cb_heap st)) (bufs st)" using t by (simp add: table_ok_def)
    then have "Heap a \<in> elems lh" using pool.elems_insert[OF _ l(1)] by simp
    then show ?thesis using l stat t' by (auto simp: pooled_as_def)
  qed
qed


text \<open>A first buffer in an empty pool.\<close>

definition first_buffer :: "bytes \<Rightarrow> crypto_buffer" where
  "first_buffer data = \<lparr>cb_pool = True, cb_data = data, cb_refs = 1, cb_static = False\<rparr>"

lemma pool_example:
  obtains st0 st1 st2 where "CRYPTO_BUFFER_POOL_new (\<lambda>_. True) (\<lambda>_. None) = Some st0" "cb_heap st0 = (\<lambda>_. None)"
    "crypto_buffer_find st0 data False = (None, st0)"
    "crypto_buffer_make st0 (Some 0) True data False True = (Some 0, st1)"
    "crypto_buffer_add (\<lambda>_. True) st1 0 False = (Some 0, st2)"
    "cb_heap st2 = (\<lambda>_. None)(0 := Some (first_buffer data))"
proof -
  obtain lh :: "cb_ptr lhash" where n: "OPENSSL_lh_new (\<lambda>_. True) = Some lh" by (rule lh_new_succeeds)
  note ok = lh_ok_new[OF n]
  have none: "OPENSSL_lh_retrieve (CRYPTO_BUFFER_hash h) (CRYPTO_BUFFER_cmp h) lh p = None" for h p
    using pool.retrieve_None[of h lh p] ok by blast
  let ?st0 = "\<lparr>cb_heap = (\<lambda>_. None), bufs = lh\<rparr>"
  let ?h = "(\<lambda>_. None)(0 := Some (first_buffer data))"
  obtain lh' where i: "OPENSSL_lh_insert (CRYPTO_BUFFER_hash ?h) (CRYPTO_BUFFER_cmp ?h) (\<lambda>_. True) lh (Heap 0) = (True, None, lh')"
    using pool.insert_new[where lh = lh and d = "Heap 0" and m = "\<lambda>_. True" and h = ?h, OF conjunct1[OF ok] none TrueI]
    by metis
  show ?thesis
  proof (rule that[of ?st0 "\<lparr>cb_heap = ?h, bufs = lh\<rparr>" "\<lparr>cb_heap = ?h, bufs = lh'\<rparr>"])
    show "CRYPTO_BUFFER_POOL_new (\<lambda>_. True) (\<lambda>_. None) = Some ?st0" using n by (simp add: CRYPTO_BUFFER_POOL_new_def)
    show "crypto_buffer_find ?st0 data False = (None, ?st0)"
      by (simp add: crypto_buffer_find_def find_duplicate_def none)
    show "crypto_buffer_make ?st0 (Some 0) True data False True = (Some 0, \<lparr>cb_heap = ?h, bufs = lh\<rparr>)"
      by (simp add: crypto_buffer_make_def first_buffer_def)
    show "crypto_buffer_add (\<lambda>_. True) \<lparr>cb_heap = ?h, bufs = lh\<rparr> 0 False = (Some 0, \<lparr>cb_heap = ?h, bufs = lh'\<rparr>)"
      using i none by (simp add: crypto_buffer_add_def find_duplicate_def Let_def)
  qed simp_all
qed

theorem pool_references_safe_witness:
  "\<exists>st held. pool_reach st held {} \<and> held 0 = 1 \<and> (\<forall>a. 0 < held a \<longrightarrow> (\<exists>b. cb_heap st a = Some b \<and> 0 < cb_refs b)) \<and>
    (\<forall>a m. 0 < held a \<and> a \<notin> {} \<longrightarrow> CRYPTO_BUFFER_free m st (Some a) \<noteq> None) \<and>
    (\<forall>p\<in>elems (bufs st). \<exists>a b. p = Heap a \<and> cb_heap st a = Some b \<and> cb_pool b) \<and>
    (\<forall>a b. cb_heap st a = Some b \<and> held a = 0 \<longrightarrow> cb_refs b = CRYPTO_REFCOUNT_MAX) \<and>
    ((\<forall>a b. cb_heap st a = Some b \<longrightarrow> cb_refs b \<noteq> CRYPTO_REFCOUNT_MAX) \<and> (\<forall>a. held a = 0) \<longrightarrow>
       CRYPTO_BUFFER_POOL_free (Some st) \<noteq> None)"
proof -
  obtain st0 st1 st2 where e: "CRYPTO_BUFFER_POOL_new (\<lambda>_. True) (\<lambda>_. None) = Some st0" "cb_heap st0 = (\<lambda>_. None)"
    "crypto_buffer_make st0 (Some 0) True [7] False True = (Some 0, st1)"
    "crypto_buffer_add (\<lambda>_. True) st1 0 False = (Some 0, st2)"
    by (rule pool_example[of "[7]"])
  have "pool_reach st0 (\<lambda>_. 0) {}" by (rule pool_reach.new[OF e(1)])
  from pool_reach.make[OF this _ e(3)] e(2)
  have "pool_reach st1 ((\<lambda>_. 0)(0 := 1)) {0}" by simp
  from pool_reach.add[OF this _ e(4)]
  have r: "pool_reach st2 ((\<lambda>_. 0)(0 := 1)) {}" by simp
  show ?thesis
    by (intro exI[of _ st2] exI[of _ "(\<lambda>_. 0)(0 := 1)"] conjI r pool_references_safe[OF r, THEN conjunct1]
        pool_references_safe[OF r, THEN conjunct2]) simp
qed


section \<open>Every reference is released\<close>

fun release_all :: "(nat \<Rightarrow> bool) \<Rightarrow> crypto_buffer_pool \<Rightarrow> nat list \<Rightarrow> crypto_buffer_pool option" where
  "release_all m st [] = Some st"
| "release_all m st (a # xs) = (case CRYPTO_BUFFER_free m st (Some a) of None \<Rightarrow> None | Some st \<Rightarrow> release_all m st xs)"

definition unsaturated :: "crypto_buffer_pool \<Rightarrow> bool" where
  "unsaturated st \<longleftrightarrow> (\<forall>a b. cb_heap st a = Some b \<longrightarrow> cb_refs b \<noteq> CRYPTO_REFCOUNT_MAX)"

lemma free_unsaturated:
  assumes "CRYPTO_BUFFER_free m st (Some a) = Some st'" "unsaturated st" "cb_heap st a = Some b"
  shows "unsaturated st'"
proof -
  obtain z k where d: "CRYPTO_refcount_dec_and_test_zero (cb_refs b) = Some (z, k)"
    using assms(1,3) by (auto simp: CRYPTO_BUFFER_free_def split: option.splits)
  have n: "cb_refs b \<noteq> CRYPTO_REFCOUNT_MAX" using assms(2,3) by (auto simp: unsaturated_def)
  then have "unat (cb_refs b) = unat k + 1" using refcount_dec[OF d] by simp
  moreover have "unat (cb_refs b) \<le> unat CRYPTO_REFCOUNT_MAX" using refcount_le[of "cb_refs b"] by (simp add: word_le_nat_alt)
  ultimately have k: "k \<noteq> CRYPTO_REFCOUNT_MAX" by auto
  have s: "unsaturated (st\<lparr>cb_heap := set_refs (cb_heap st) a k, bufs := lh\<rparr>)" for lh
    using assms(2,3) k by (auto simp: unsaturated_def set_refs_def)
  then have f: "unsaturated (st\<lparr>cb_heap := crypto_buffer_free_object (set_refs (cb_heap st) a k) a, bufs := lh\<rparr>)" for lh
    by (auto simp: unsaturated_def crypto_buffer_free_object_def)
  show ?thesis
    using assms(1,3) d s[of "bufs st"] f[of "bufs st"] f
    by (auto simp: CRYPTO_BUFFER_free_def Let_def unsaturated_def split: if_splits)
qed

lemma release_all_reach:
  assumes "pool_reach st held {}" "unsaturated st" "\<And>a. count_list xs a = held a"
  shows "\<exists>st'. release_all m st xs = Some st' \<and> pool_reach st' (\<lambda>_. 0) {} \<and> unsaturated st'"
  using assms
proof (induction xs arbitrary: st held)
  case Nil
  then have "held = (\<lambda>_. 0)" by auto
  then show ?case using Nil.prems by simp
next
  case (Cons a xs)
  have h: "0 < held a" using Cons.prems(3)[of a] by (auto split: if_splits)
  have inv: "pool_inv st held {}" by (rule pool_reach_inv[OF Cons.prems(1)])
  obtain st1 where f: "CRYPTO_BUFFER_free m st (Some a) = Some st1" using free_defined[OF inv h, of m] by auto
  obtain b where "cb_heap st a = Some b" using inv h heap_ok_live[of "cb_heap st" held "{}" a] by (auto simp: pool_inv_def)
  note u = free_unsaturated[OF f Cons.prems(2) this]
  have r: "pool_reach st1 (held(a := held a - 1)) {}" by (rule pool_reach.free[OF Cons.prems(1) h _ f]) simp
  have "count_list xs c = (held(a := held a - 1)) c" for c using Cons.prems(3)[of c] by (auto split: if_splits)
  from Cons.IH[OF r u this] show ?case using f by simp
qed

text \<open>C34: Nothing leaks: from every state that the threads can reach with no insertion in progress and no
  saturated count, releasing the references that the callers hold, in any order and however the
  resizing of the table fares, never aborts and ends with every buffer freed and an empty table, so
  that \<open>CRYPTO_BUFFER_POOL_free\<close> succeeds.\<close>

theorem pool_drains:
  assumes "pool_reach st held {}" "\<forall>a b. cb_heap st a = Some b \<longrightarrow> cb_refs b \<noteq> CRYPTO_REFCOUNT_MAX"
    "\<forall>a. count_list xs a = held a"
  shows "\<exists>st'. release_all m st xs = Some st' \<and> (\<forall>a. cb_heap st' a = None) \<and> elems (bufs st') = {} \<and>
    CRYPTO_BUFFER_POOL_free (Some st') \<noteq> None"
proof -
  obtain st' where st': "release_all m st xs = Some st'" "pool_reach st' (\<lambda>_. 0) {}" "unsaturated st'"
    using release_all_reach[OF assms(1), of xs m] assms(2,3) by (auto simp: unsaturated_def)
  have h: "heap_ok (cb_heap st') (\<lambda>_. 0) {}" and t: "table_ok st' {}"
    using pool_reach_inv[OF st'(2)] by (simp_all add: pool_inv_def)
  have none: "cb_heap st' a = None" for a
  proof (rule ccontr)
    assume "cb_heap st' a \<noteq> None"
    then obtain b where b: "cb_heap st' a = Some b" by blast
    then have "0 < cb_refs b" "unat (cb_refs b) = 0" using h st'(3) unfolding heap_ok_def unsaturated_def by blast+
    then show False by (simp add: unat_eq_0)
  qed
  then have e: "elems (bufs st') = {}" using t by (auto simp: table_ok_def pooled_def)
  then have "num_items (bufs st') = 0" using pool.num_items_card[of "cb_heap st'" "bufs st'"] t by (simp add: table_ok_def)
  then have "CRYPTO_BUFFER_POOL_free (Some st') \<noteq> None" by (simp add: CRYPTO_BUFFER_POOL_free_def OPENSSL_lh_num_items_def)
  then show ?thesis using st'(1) none e by blast
qed

theorem pool_drains_witness:
  "\<exists>st st' :: crypto_buffer_pool. cb_heap st 0 \<noteq> None \<and> release_all (\<lambda>_. True) st [0, 0] = Some st' \<and>
    (\<forall>a. cb_heap st' a = None) \<and> elems (bufs st') = {} \<and> CRYPTO_BUFFER_POOL_free (Some st') \<noteq> None"
proof -
  obtain st0 st1 st2 where e: "CRYPTO_BUFFER_POOL_new (\<lambda>_. True) (\<lambda>_. None) = Some st0" "cb_heap st0 = (\<lambda>_. None)"
    "crypto_buffer_make st0 (Some 0) True [7] False True = (Some 0, st1)"
    "crypto_buffer_add (\<lambda>_. True) st1 0 False = (Some 0, st2)" "cb_heap st2 = (\<lambda>_. None)(0 := Some (first_buffer [7]))"
    by (rule pool_example[of "[7]"])
  have "pool_reach st0 (\<lambda>_. 0) {}" by (rule pool_reach.new[OF e(1)])
  from pool_reach.make[OF this _ e(3)] e(2)
  have "pool_reach st1 ((\<lambda>_. 0)(0 := 1)) {0}" by simp
  from pool_reach.add[OF this _ e(4)]
  have "pool_reach st2 ((\<lambda>_. 0)(0 := 1)) {}" by simp
  from pool_reach.up_ref[OF this, of 0]
  have r: "pool_reach (CRYPTO_BUFFER_up_ref st2 0) ((\<lambda>_. 0)(0 := 2)) {}" by (simp add: numeral_2_eq_2)
  have h: "cb_heap (CRYPTO_BUFFER_up_ref st2 0) = (\<lambda>_. None)(0 := Some ((first_buffer [7])\<lparr>cb_refs := 2\<rparr>))"
    by (simp add: CRYPTO_BUFFER_up_ref_def e(5) set_refs_def first_buffer_def CRYPTO_refcount_inc_def CRYPTO_REFCOUNT_MAX_def)
  have "\<exists>st'. release_all (\<lambda>_. True) (CRYPTO_BUFFER_up_ref st2 0) [0, 0] = Some st' \<and> (\<forall>a. cb_heap st' a = None) \<and>
      elems (bufs st') = {} \<and> CRYPTO_BUFFER_POOL_free (Some st') \<noteq> None"
    by (rule pool_drains[OF r]) (simp_all add: h CRYPTO_REFCOUNT_MAX_def)
  then show ?thesis using h by (metis fun_upd_same option.distinct(1))
qed

end
