(* ===== verification/Buf.thy ===== *)
theory Buf
  imports Prelude Mem
begin

text \<open>The growable buffer of \<open>buf/buf.c\<close> over the allocator of \<open>Mem\<close>: the record keeps the raw block, the
  capacity and the length.  A write through the data pointer that would leave the block is \<open>None\<close>;
  the properties show that it does not occur.\<close>

section \<open>Model\<close>

record buf_mem =
  buf_length :: nat
  buf_data :: "bytes option"
  buf_max :: nat

definition BUF_MEM_new :: "(nat \<Rightarrow> bytes option) \<Rightarrow> buf_mem option" where
  "BUF_MEM_new sys_malloc =
     (if OPENSSL_malloc sys_malloc 24 = None then None
      else Some \<lparr>buf_length = 0, buf_data = None, buf_max = 0\<rparr>)"

text \<open>The blocks that go back to the allocator, as they are then.\<close>

definition BUF_MEM_free :: "buf_mem option \<Rightarrow> bytes list" where
  "BUF_MEM_free buf =
     (case buf of
        None \<Rightarrow> []
      | Some buf \<Rightarrow> (case buf_data buf of None \<Rightarrow> [] | Some data \<Rightarrow> [OPENSSL_free data]))"

definition BUF_MEM_reserve :: "(nat \<Rightarrow> bytes option) \<Rightarrow> buf_mem \<Rightarrow> nat \<Rightarrow> bool \<times> buf_mem" where
  "BUF_MEM_reserve sys_malloc buf cap =
     (if cap \<le> buf_max buf then (True, buf)
      else
        (let n = (cap + 3) mod SIZE_MOD
         in if n < cap then (False, buf)
            else
              (let n = n div 3; alloc_size = n * 4 mod SIZE_MOD
               in if alloc_size div 4 \<noteq> n then (False, buf)
                  else case OPENSSL_realloc sys_malloc (buf_data buf) alloc_size of
                         None \<Rightarrow> (False, buf)
                       | Some new_buf \<Rightarrow> (True, buf\<lparr>buf_data := Some new_buf, buf_max := alloc_size\<rparr>))))"

text \<open>A write of \<open>src\<close> at an offset from the data pointer.  \<open>None\<close> is a write through \<open>NULL\<close> or past the
  end of the block.\<close>

definition write_at :: "bytes option \<Rightarrow> nat \<Rightarrow> bytes \<Rightarrow> bytes option" where
  "write_at block off src =
     (case block of
        None \<Rightarrow> None
      | Some p \<Rightarrow>
          if length (user_data p) < off + length src then None
          else Some (take (OPENSSL_MALLOC_PREFIX + off) p @ src @ drop (OPENSSL_MALLOC_PREFIX + off + length src) p))"

definition BUF_MEM_grow :: "(nat \<Rightarrow> bytes option) \<Rightarrow> buf_mem \<Rightarrow> nat \<Rightarrow> (nat \<times> buf_mem) option" where
  "BUF_MEM_grow sys_malloc buf len =
     (case BUF_MEM_reserve sys_malloc buf len of (ok, buf) \<Rightarrow>
        if \<not> ok then Some (0, buf)
        else if buf_length buf < len then
          map_option (\<lambda>p. (len, buf\<lparr>buf_data := Some p, buf_length := len\<rparr>))
            (write_at (buf_data buf) (buf_length buf) (replicate (len - buf_length buf) 0))
        else Some (len, buf\<lparr>buf_length := len\<rparr>))"

definition BUF_MEM_grow_clean :: "(nat \<Rightarrow> bytes option) \<Rightarrow> buf_mem \<Rightarrow> nat \<Rightarrow> (nat \<times> buf_mem) option" where
  "BUF_MEM_grow_clean sys_malloc buf len = BUF_MEM_grow sys_malloc buf len"

definition BUF_MEM_append :: "(nat \<Rightarrow> bytes option) \<Rightarrow> buf_mem \<Rightarrow> bytes \<Rightarrow> (bool \<times> buf_mem) option" where
  "BUF_MEM_append sys_malloc buf inp =
     (let len = length inp
      in if len = 0 then Some (True, buf)
         else
           (let new_len = (buf_length buf + len) mod SIZE_MOD
            in if new_len < len then Some (False, buf)
               else
                 (case BUF_MEM_reserve sys_malloc buf new_len of (ok, buf) \<Rightarrow>
                    if \<not> ok then Some (False, buf)
                    else map_option (\<lambda>p. (True, buf\<lparr>buf_data := Some p, buf_length := new_len\<rparr>))
                           (write_at (buf_data buf) (buf_length buf) inp))))"

section \<open>The buffer is a byte string\<close>

definition buf_ok :: "buf_mem \<Rightarrow> bool" where
  "buf_ok buf \<longleftrightarrow>
     buf_length buf \<le> buf_max buf \<and> buf_max buf < SIZE_MOD \<and>
     (case buf_data buf of
        None \<Rightarrow> buf_max buf = 0
      | Some p \<Rightarrow> \<exists>d. p = block_of d \<and> length d = buf_max buf)"

definition contents :: "buf_mem \<Rightarrow> bytes" where
  "contents buf = (case buf_data buf of None \<Rightarrow> [] | Some p \<Rightarrow> take (buf_length buf) (user_data p))"

lemma block_of_eq [simp]: "block_of d = block_of e \<longleftrightarrow> d = e"
  using user_data_block_of by metis

lemma buf_block:
  assumes "buf_data b = Some (block_of d)"
  shows "buf_ok b \<longleftrightarrow> buf_length b \<le> buf_max b \<and> buf_max b < SIZE_MOD \<and> length d = buf_max b"
    and "contents b = take (buf_length b) d"
  using assms by (auto simp: buf_ok_def contents_def)

lemma length_contents: "buf_ok buf \<Longrightarrow> length (contents buf) = buf_length buf"
  by (auto simp: buf_ok_def contents_def split: option.splits)

lemma write_at_block:
  assumes "off + length src \<le> length d"
  shows "write_at (Some (block_of d)) off src = Some (block_of (take off d @ src @ drop (off + length src) d))"
  using assms by (simp add: write_at_def block_of_def user_data_def OPENSSL_MALLOC_PREFIX_def)

lemma reserve_size:
  assumes "cap < SIZE_MOD" "\<not> (cap + 3) mod SIZE_MOD < cap"
  shows "(cap + 3) mod SIZE_MOD = cap + 3"
  using assms by (cases "cap + 3 < SIZE_MOD") (simp_all add: le_mod_geq)

lemma BUF_MEM_reserve_ok:
  assumes ok: "buf_ok buf" and m: "alloc_contract m" and cap: "cap < SIZE_MOD"
    and r: "BUF_MEM_reserve m buf cap = (b, buf')"
  shows "buf_ok buf' \<and> contents buf' = contents buf \<and> buf_length buf' = buf_length buf \<and>
    (if b then cap \<le> buf_max buf' else buf' = buf)"
proof (cases "cap \<le> buf_max buf")
  case True then show ?thesis using r ok by (simp add: BUF_MEM_reserve_def)
next
  case False
  let ?a = "(cap + 3) div 3 * 4 mod SIZE_MOD"
  show ?thesis
  proof (cases b)
    case False
    then show ?thesis using r ok
      by (auto simp: BUF_MEM_reserve_def Let_def split: if_splits option.splits)
  next
    case b: True
    then have n: "(cap + 3) mod SIZE_MOD = cap + 3"
      using r False reserve_size[OF cap] by (auto simp: BUF_MEM_reserve_def Let_def split: if_splits)
    then obtain p where p: "?a div 4 = (cap + 3) div 3" "OPENSSL_realloc m (buf_data buf) ?a = Some p"
      "buf' = buf\<lparr>buf_data := Some p, buf_max := ?a\<rparr>"
      using r b False by (auto simp: BUF_MEM_reserve_def Let_def split: if_splits option.splits)
    have "cap < (cap + 3) div 3 * 3" by presburger
    then have ge: "cap \<le> ?a" using p(1) by linarith
    have lt: "?a < SIZE_MOD" by simp
    show ?thesis
    proof (cases "buf_data buf")
      case None
      then obtain d where "p = block_of d" "length d = ?a"
        using p(2) OPENSSL_malloc_block[OF m _ lt] by (auto simp: OPENSSL_realloc_def)
      then show ?thesis using p(3) ok ge lt b None by (auto simp: buf_ok_def contents_def)
    next
      case (Some q)
      then obtain d where d: "q = block_of d" "length d = buf_max buf" using ok by (auto simp: buf_ok_def)
      have "length d < SIZE_MOD" using d ok by (simp add: buf_ok_def)
      then obtain e where e: "p = block_of e" "length e = ?a" "take (min (length d) ?a) e = take ?a d"
        using realloc_keeps[OF m lt] p(2) Some d by metis
      have "take (buf_length buf) e = take (buf_length buf) d"
      proof -
        have len: "buf_length buf \<le> length d" "length d \<le> ?a" using ok d(2) ge False by (simp_all add: buf_ok_def)
        then have "take (length d) e = d" using e(3) by (simp only: min.absorb1 take_all)
        then have "take (buf_length buf) d = take (buf_length buf) (take (length d) e)" by (simp only:)
        then show ?thesis using len(1) by (simp only: take_take min.absorb1)
      qed
      moreover have "buf_length buf \<le> ?a" using ok ge False by (simp add: buf_ok_def)
      ultimately have "buf_ok buf'" "contents buf' = contents buf"
        using lt Some d e(2) unfolding p(3) e(1) by (simp_all add: buf_ok_def contents_def)
      then show ?thesis using p(3) b ge by simp
    qed
  qed
qed

text \<open>\<open>BUF_MEM_append\<close> on a buffer that the module made either appends exactly the given bytes to
  the contents or fails and leaves the buffer as it was; it stays well formed (the length within the
  capacity, the capacity the size of the block), no sum of sizes wraps unnoticed, and no write leaves
  the block.\<close>

lemma BUF_MEM_append_correct:
  assumes ok: "buf_ok buf" and m: "alloc_contract sys_malloc" and l: "length inp < SIZE_MOD"
  shows "\<exists>r buf'. BUF_MEM_append sys_malloc buf inp = Some (r, buf') \<and> buf_ok buf' \<and>
    (if r then contents buf' = contents buf @ inp else buf' = buf)"
proof (cases "length inp = 0 \<or> (buf_length buf + length inp) mod SIZE_MOD < length inp")
  case True
  then show ?thesis using ok by (auto simp: BUF_MEM_append_def Let_def)
next
  case False
  let ?n = "buf_length buf + length inp"
  have "buf_length buf < SIZE_MOD" using ok by (simp add: buf_ok_def)
  have n: "?n < SIZE_MOD"
  proof (rule ccontr)
    assume ge: "\<not> ?n < SIZE_MOD"
    then have "?n - SIZE_MOD < length inp" "?n - SIZE_MOD < SIZE_MOD" using \<open>buf_length buf < SIZE_MOD\<close> l by linarith+
    then show False using ge False by (simp add: le_mod_geq)
  qed
  obtain b buf1 where r: "BUF_MEM_reserve sys_malloc buf ?n = (b, buf1)" by fastforce
  note k = BUF_MEM_reserve_ok[OF ok m n r]
  show ?thesis
  proof (cases b)
    case b: True
    then have cap: "?n \<le> buf_max buf1" "buf_length buf1 = buf_length buf" using k by simp_all
    have "inp \<noteq> []" using False by simp
    then obtain d where d: "buf_data buf1 = Some (block_of d)" "length d = buf_max buf1"
      using k cap by (auto simp: buf_ok_def split: option.splits)
    have w: "write_at (buf_data buf1) (buf_length buf1) inp =
        Some (block_of (take (buf_length buf1) d @ inp @ drop ?n d))"
      using write_at_block[of "buf_length buf1" inp d] d cap by simp
    have a: "BUF_MEM_append sys_malloc buf inp =
        Some (True, buf1\<lparr>buf_data := Some (block_of (take (buf_length buf1) d @ inp @ drop ?n d)), buf_length := ?n\<rparr>)"
      using False n r b w by (simp add: BUF_MEM_append_def Let_def)
    have "contents buf1 = take (buf_length buf1) d" using d by (simp add: contents_def)
    then have c: "contents buf = take (buf_length buf1) d" using k by simp
    have "buf_max buf1 < SIZE_MOD" using k by (simp add: buf_ok_def)
    then show ?thesis unfolding a using d(2) cap c by (intro exI[of _ True]) (simp add: buf_block)
  next
    case False
    then show ?thesis using k n r ok \<open>\<not> (length inp = 0 \<or> _)\<close>
      by (intro exI[of _ False]) (simp add: BUF_MEM_append_def Let_def)
  qed
qed

lemma BUF_MEM_append_correct_witness:
  "\<exists>r buf'. BUF_MEM_append (\<lambda>n. Some (replicate n 0)) \<lparr>buf_length = 0, buf_data = None, buf_max = 0\<rparr> [7, 8] = Some (r, buf') \<and>
    buf_ok buf' \<and>
    (if r then contents buf' = contents \<lparr>buf_length = 0, buf_data = None, buf_max = 0\<rparr> @ [7, 8]
     else buf' = \<lparr>buf_length = 0, buf_data = None, buf_max = 0\<rparr>)"
  by (rule BUF_MEM_append_correct) (simp_all add: buf_ok_def alloc_contract_def)

text \<open>C26: \<open>BUF_MEM_grow\<close> and \<open>BUF_MEM_grow_clean\<close> give the buffer the requested length: the contents
  are cut, or kept and followed by zeros, and the result is the length; or the call fails with 0
  and the buffer is as it was.\<close>

theorem BUF_MEM_grow_correct:
  assumes ok: "buf_ok buf" and m: "alloc_contract sys_malloc" and l: "len < SIZE_MOD"
  shows "\<exists>r buf'. BUF_MEM_grow sys_malloc buf len = Some (r, buf') \<and> buf_ok buf' \<and>
    BUF_MEM_grow_clean sys_malloc buf len = Some (r, buf') \<and>
    (r = len \<and> contents buf' = take len (contents buf) @ replicate (len - buf_length buf) 0 \<or> r = 0 \<and> buf' = buf)"
proof -
  obtain b buf1 where r: "BUF_MEM_reserve sys_malloc buf len = (b, buf1)" by fastforce
  note k = BUF_MEM_reserve_ok[OF ok m l r]
  consider (fail) "\<not> b" | (cut) b "len \<le> buf_length buf" | (grow) b "buf_length buf < len" by linarith
  then show ?thesis
  proof cases
    case fail
    then show ?thesis using k r ok by (simp add: BUF_MEM_grow_def BUF_MEM_grow_clean_def)
  next
    case cut
    then have "BUF_MEM_grow sys_malloc buf len = Some (len, buf1\<lparr>buf_length := len\<rparr>)"
      using r k by (simp add: BUF_MEM_grow_def)
    moreover have "buf_ok (buf1\<lparr>buf_length := len\<rparr>)" using k cut by (simp add: buf_ok_def split: option.splits)
    moreover have "contents (buf1\<lparr>buf_length := len\<rparr>) = take len (contents buf)"
    proof -
      have lb: "len \<le> buf_length buf1" using cut k by simp
      have "contents (buf1\<lparr>buf_length := len\<rparr>) = take len (contents buf1)"
        using lb by (simp add: contents_def min_def split: option.splits)
      then show ?thesis using k by simp
    qed
    ultimately show ?thesis using cut by (simp add: BUF_MEM_grow_clean_def)
  next
    case grow
    then have cap: "len \<le> buf_max buf1" "buf_length buf1 = buf_length buf" using k by simp_all
    then obtain d where d: "buf_data buf1 = Some (block_of d)" "length d = buf_max buf1"
      using k grow by (auto simp: buf_ok_def split: option.splits)
    let ?z = "replicate (len - buf_length buf) 0"
    let ?d = "take (buf_length buf1) d @ ?z @ drop len d"
    have w: "write_at (buf_data buf1) (buf_length buf1) ?z = Some (block_of ?d)"
      using write_at_block[of "buf_length buf1" ?z d] d cap grow by simp
    have a: "BUF_MEM_grow sys_malloc buf len = Some (len, buf1\<lparr>buf_data := Some (block_of ?d), buf_length := len\<rparr>)"
      using grow r w cap by (simp add: BUF_MEM_grow_def)
    have "contents buf1 = take (buf_length buf1) d" using d by (simp add: contents_def)
    then have c: "contents buf = take (buf_length buf1) d" using k by simp
    have "buf_max buf1 < SIZE_MOD" using k by (simp add: buf_ok_def)
    then show ?thesis unfolding BUF_MEM_grow_clean_def a using d(2) cap c grow by (simp add: buf_block)
  qed
qed

theorem BUF_MEM_grow_correct_witness:
  "\<exists>r buf'. BUF_MEM_grow (\<lambda>n. Some (replicate n 0)) \<lparr>buf_length = 1, buf_data = Some (block_of [5, 0, 0, 0]), buf_max = 4\<rparr> 9 =
      Some (r, buf') \<and> buf_ok buf' \<and>
    BUF_MEM_grow_clean (\<lambda>n. Some (replicate n 0)) \<lparr>buf_length = 1, buf_data = Some (block_of [5, 0, 0, 0]), buf_max = 4\<rparr> 9 =
      Some (r, buf') \<and>
    (r = 9 \<and> contents buf' =
       take 9 (contents \<lparr>buf_length = 1, buf_data = Some (block_of [5, 0, 0, 0]), buf_max = 4\<rparr>) @
       replicate (9 - buf_length \<lparr>buf_length = 1, buf_data = Some (block_of [5, 0, 0, 0]), buf_max = 4\<rparr>) 0 \<or>
     r = 0 \<and> buf' = \<lparr>buf_length = 1, buf_data = Some (block_of [5, 0, 0, 0]), buf_max = 4\<rparr>)"
  by (rule BUF_MEM_grow_correct) (auto simp: buf_ok_def alloc_contract_def)

end
