(* ===== verification/Rounds.thy ===== *)
theory Rounds
  imports Prelude
begin

text \<open>What the block functions of the digests share: straight-line code that calls a macro with the
  working variables shifted by one place each time, and message schedules kept in a circular buffer
  of sixteen words.\<close>

section \<open>Macro calls on registers\<close>

text \<open>The unrolled rounds of a digest call a macro with the working variables in a different order each
  time.  The variables are a list of registers; a call passes the numbers of the registers for the
  macro's parameters, and the macro is a function from the parameters' values to their values after
  it.\<close>

definition with_regs :: "nat list \<Rightarrow> ('a list \<Rightarrow> 'a list) \<Rightarrow> 'a list \<Rightarrow> 'a list" where
  "with_regs r f v = foldl (\<lambda>v (i, x). v[i := x]) v (zip r (f (map ((!) v) r)))"

text \<open>The order of the \<open>t\<close>-th call when each call shifts the registers by one place.\<close>

definition rotated_args :: "nat \<Rightarrow> nat \<Rightarrow> nat list" where
  "rotated_args n t = map (\<lambda>j. (j + (n - t mod n)) mod n) [0..<n]"

definition shift_right :: "'a list \<Rightarrow> 'a list" where
  "shift_right s = last s # butlast s"

lemma length_updates: "length (foldl (\<lambda>v (i, x). v[i := x]) v us) = length v"
  by (induction us arbitrary: v) (auto split: prod.splits)

lemma nth_updates_other: "i \<notin> set r \<Longrightarrow> foldl (\<lambda>v (i, x). v[i := x]) v (zip r xs) ! i = v ! i"
proof (induction r arbitrary: v xs)
  case (Cons a r)
  then show ?case by (cases xs) simp_all
qed simp

lemma nth_updates:
  "distinct r \<Longrightarrow> length xs = length r \<Longrightarrow> j < length r \<Longrightarrow> r ! j < length v \<Longrightarrow>
   foldl (\<lambda>v (i, x). v[i := x]) v (zip r xs) ! (r ! j) = xs ! j"
proof (induction r arbitrary: v xs j)
  case (Cons a r)
  then obtain x xs' where xs: "xs = x # xs'" by (cases xs) auto
  show ?case
  proof (cases j)
    case 0
    then show ?thesis using Cons.prems xs nth_updates_other[of a r "v[a := x]" xs'] by simp
  next
    case (Suc i)
    then show ?thesis using Cons.prems xs Cons.IH[of xs' i "v[a := x]"] by simp
  qed
qed simp

lemma rotated_args_nth: "j < n \<Longrightarrow> rotated_args n t ! j = (j + (n - t mod n)) mod n"
  by (simp add: rotated_args_def)

lemma rotated_args_inverse:
  assumes "i < n"
  shows "rotated_args n t ! ((t + i) mod n) = i"
proof -
  have n: "0 < n" "t mod n \<le> n" using assms by (auto intro: less_imp_le)
  have "((t + i) mod n + (n - t mod n)) mod n = (t + i + (n - t mod n)) mod n" by (simp add: mod_add_left_eq)
  also have "t + i + (n - t mod n) = i + n + (t - t mod n)" using n(2) by (simp add: mod_less_eq_dividend)
  also have "(i + n + (t - t mod n)) mod n = i"
  proof -
    have "t - t mod n = t div n * n" by (simp add: minus_mod_eq_div_mult)
    then show ?thesis using assms by simp
  qed
  finally show ?thesis using n(1) by (simp add: rotated_args_nth)
qed

lemma rotated_args_value:
  assumes "j < n"
  shows "(t + rotated_args n t ! j) mod n = j"
proof -
  have n: "t mod n \<le> n" using assms by (auto intro: less_imp_le)
  have "(t + (j + (n - t mod n))) mod n = (t mod n + (j + (n - t mod n))) mod n" by (simp add: mod_add_left_eq)
  also have "t mod n + (j + (n - t mod n)) = j + n" using n by simp
  finally show ?thesis using assms by (simp add: rotated_args_nth mod_add_right_eq)
qed

lemma distinct_rotated_args: "distinct (rotated_args n t)"
proof -
  have l: "length (rotated_args n t) = n" by (simp add: rotated_args_def)
  show ?thesis
    unfolding distinct_conv_nth l
  proof (intro allI impI notI)
    fix i j assume ij: "i < n" "j < n" "i \<noteq> j" "rotated_args n t ! i = rotated_args n t ! j"
    then have "(t + rotated_args n t ! i) mod n = (t + rotated_args n t ! j) mod n" by simp
    then show False using rotated_args_value[OF ij(1)] rotated_args_value[OF ij(2)] ij(3) by simp
  qed
qed

text \<open>A call on rotated registers is the function on the values in the macro's own order.\<close>

lemma with_regs_rotated:
  assumes n: "length s = n" "length (f s) = n" "0 < n"
  shows "with_regs (rotated_args n t) f (rotate t s) = rotate t (f s)"
proof (rule nth_equalityI)
  let ?r = "rotated_args n t"
  have r: "length ?r = n" "\<And>j. j < n \<Longrightarrow> ?r ! j < n" using n(3) by (simp_all add: rotated_args_def)
  have m: "map ((!) (rotate t s)) ?r = s"
    by (rule nth_equalityI) (simp_all add: r n nth_rotate rotated_args_value)
  show l: "length (with_regs ?r f (rotate t s)) = length (rotate t (f s))"
    using n by (simp add: with_regs_def length_updates)
  fix i assume "i < length (with_regs ?r f (rotate t s))"
  then have i: "i < n" using l n by simp
  let ?j = "(t + i) mod n"
  have j: "?j < n" "?r ! ?j = i" using n(3) rotated_args_inverse[OF i] by simp_all
  have "with_regs ?r f (rotate t s) ! (?r ! ?j) = f s ! ?j"
    unfolding with_regs_def m using j(1) i by (intro nth_updates distinct_rotated_args) (simp_all only: r j n length_rotate)
  then show "with_regs ?r f (rotate t s) ! i = rotate t (f s) ! i" using i n j by (simp add: nth_rotate)
qed

lemma rotate_shift_right: "s \<noteq> [] \<Longrightarrow> rotate (Suc t) (shift_right s) = rotate t s"
  unfolding shift_right_def rotate_Suc rotate1_rotate_swap by simp

lemma with_regs_step:
  assumes "length s = n" "length (f s) = n" "0 < n"
  shows "with_regs (rotated_args n t) f (rotate t s) = rotate (Suc t) (shift_right (f s))"
  using with_regs_rotated[of s n f t, OF assms] rotate_shift_right[of "f s" t] assms by fastforce

section \<open>Registers by name\<close>

lemma length_cases_4:
  assumes "length (s :: 'a list) = 4"
  obtains a b c d where "s = [a, b, c, d]"
  using assms by (auto simp: numeral_eq_Suc length_Suc_conv)

lemma length_cases_5:
  assumes "length (s :: 'a list) = 5"
  obtains a b c d e where "s = [a, b, c, d, e]"
  using assms by (auto simp: numeral_eq_Suc length_Suc_conv)

lemma length_cases_6:
  assumes "length (s :: 'a list) = 6"
  obtains a b c d e f where "s = [a, b, c, d, e, f]"
  using assms by (auto simp: numeral_eq_Suc length_Suc_conv)

lemma length_cases_8:
  assumes "length (s :: 'a list) = 8"
  obtains a b c d e f g h where "s = [a, b, c, d, e, f, g, h]"
  using assms by (auto simp: numeral_eq_Suc length_Suc_conv)

section \<open>Constants\<close>

text \<open>\<open>frac_root b k p x\<close>: the first \<open>b\<close> bits of the fractional part of the \<open>k\<close>-th root of \<open>p\<close> are \<open>x\<close>.\<close>

definition int_root :: "nat \<Rightarrow> nat \<Rightarrow> nat" where
  "int_root k p = length (filter (\<lambda>n. n ^ k \<le> p) [1, 2, 3, 4, 5, 6, 7])"

definition frac_root :: "nat \<Rightarrow> nat \<Rightarrow> nat \<Rightarrow> nat \<Rightarrow> bool" where
  "frac_root b k p x =
     (let y = int_root k p * 2 ^ b + x in x < 2 ^ b \<and> y ^ k \<le> p * 2 ^ (b * k) \<and> p * 2 ^ (b * k) < (y + 1) ^ k)"

definition first_primes :: "nat list" where
  "first_primes =
    [2, 3, 5, 7, 11, 13, 17, 19, 23, 29, 31, 37, 41, 43, 47, 53,
     59, 61, 67, 71, 73, 79, 83, 89, 97, 101, 103, 107, 109, 113, 127, 131,
     137, 139, 149, 151, 157, 163, 167, 173, 179, 181, 191, 193, 197, 199, 211, 223,
     227, 229, 233, 239, 241, 251, 257, 263, 269, 271, 277, 281, 283, 293, 307, 311,
     313, 317, 331, 337, 347, 349, 353, 359, 367, 373, 379, 383, 389, 397, 401, 409]"

section \<open>Message schedules\<close>

primrec schedule :: "('a list \<Rightarrow> 'a) \<Rightarrow> nat \<Rightarrow> 'a list \<Rightarrow> 'a list" where
  "schedule f 0 xs = xs"
| "schedule f (Suc n) xs = (let ys = schedule f n xs in ys @ [f ys])"

lemma length_schedule [simp]: "length (schedule f n xs) = length xs + n"
  by (induction n) (simp_all add: Let_def)

lemma take_schedule: "t \<le> n \<Longrightarrow> take (length xs + t) (schedule f n xs) = schedule f t xs"
proof (induction n)
  case (Suc n)
  then show ?case by (cases "t = Suc n") (simp_all add: Let_def)
qed simp

lemma schedule_nth: "t < n \<Longrightarrow> schedule f n xs ! (length xs + t) = f (take (length xs + t) (schedule f n xs))"
proof (induction n)
  case (Suc n)
  then show ?case by (cases "t = n") (simp_all add: Let_def nth_append)
qed simp

lemma schedule_nth_old: "i < length xs \<Longrightarrow> schedule f n xs ! i = xs ! i"
  by (induction n) (simp_all add: Let_def nth_append)

text \<open>The last sixteen words of a schedule in a circular buffer, before the word \<open>t\<close> is made.\<close>

definition window :: "'a list \<Rightarrow> 'a list \<Rightarrow> nat \<Rightarrow> bool" where
  "window X W t \<longleftrightarrow> length X = 16 \<and> (\<forall>s. s < t \<and> t \<le> s + 16 \<longrightarrow> X ! (s mod 16) = W ! s)"

lemma window_nth: "window X W t \<Longrightarrow> 16 \<le> t \<Longrightarrow> d < 16 \<Longrightarrow> X ! ((t + d) mod 16) = W ! (t + d - 16)"
proof -
  assume w: "window X W t" "16 \<le> t" "d < 16"
  then have "(t + d) mod 16 = (t + d - 16) mod 16" by (simp add: le_mod_geq)
  then show ?thesis using w by (simp add: window_def)
qed

lemma window_step: "window X W t \<Longrightarrow> window (X[t mod 16 := W ! t]) W (Suc t)"
proof -
  assume w: "window X W t"
  have "X[t mod 16 := W ! t] ! (s mod 16) = W ! s" if "s < Suc t" "Suc t \<le> s + 16" for s
  proof (cases "s = t")
    case False
    then have d: "0 < t - s" "t - s < 16" using that by simp_all
    have "s mod 16 \<noteq> t mod 16"
    proof
      assume "s mod 16 = t mod 16"
      then have "16 dvd t - s" using that(1) by (metis mod_eq_dvd_iff_nat less_Suc_eq_le)
      then show False using d dvd_imp_le by fastforce
    qed
    then show ?thesis using w that False by (simp add: window_def)
  qed (use w in \<open>simp add: window_def\<close>)
  then show ?thesis using w by (simp add: window_def)
qed

lemma window_0: "length X = 16 \<Longrightarrow> window X W 0"
  by (simp add: window_def)

lemma and_15: "(n :: nat) AND 15 = n mod 16"
  using take_bit_eq_mask[of 4 n] by (simp add: take_bit_eq_mod mask_eq_exp_minus_1)

section \<open>A block in progress\<close>

text \<open>Before round \<open>t\<close> the registers hold the state of the reference rounds, shifted \<open>t\<close> times.\<close>

definition regs_at :: "(nat \<Rightarrow> 's list \<Rightarrow> 's list) \<Rightarrow> 's list \<Rightarrow> nat \<Rightarrow> 's list \<Rightarrow> bool" where
  "regs_at step s t v \<longleftrightarrow> v = rotate t (foldl (\<lambda>s t. step t s) s [0..<t])"

lemma regs_at_0: "regs_at step s 0 s"
  by (simp add: regs_at_def)

lemma length_rounds:
  "(\<And>t s. length s = n \<Longrightarrow> length (step t s) = n) \<Longrightarrow> length s = n \<Longrightarrow> length (foldl (\<lambda>s t. step t s) s ts) = n"
  by (induction ts arbitrary: s) simp_all

lemma rotated_args_mod: "rotated_args n (t mod n) = rotated_args n t"
  by (simp add: rotated_args_def)

lemma regs_at_step:
  assumes "regs_at step s t v" "length s = n" "0 < n" "r = rotated_args n t"
    and "\<And>t s. length s = n \<Longrightarrow> length (step t s) = n"
    and "\<And>s. length s = n \<Longrightarrow> length (f s) = n \<and> shift_right (f s) = step t s"
  shows "regs_at step s (Suc t) (with_regs r f v)"
proof -
  let ?s = "foldl (\<lambda>s t. step t s) s [0..<t]"
  have l: "length ?s = n" using length_rounds[of n step s "[0..<t]"] assms by blast
  have v: "v = rotate t ?s" using assms(1) by (simp add: regs_at_def)
  have "with_regs r f v = rotate (Suc t) (step t ?s)"
    unfolding v assms(4) using with_regs_step[of ?s n f t] l assms(3) assms(6)[OF l] by simp
  then show ?thesis by (simp add: regs_at_def)
qed

text \<open>After a multiple of their number of rounds the registers are in order again.\<close>

lemma regs_at_end:
  assumes "regs_at step s t v" "length s = n" "t mod n = 0" "\<And>t s. length s = n \<Longrightarrow> length (step t s) = n"
  shows "v = foldl (\<lambda>s t. step t s) s [0..<t]"
  using assms length_rounds[of n step s "[0..<t]"] by (simp add: regs_at_def rotate_id)

lemma rounds_upt:
  assumes "P a x" "a \<le> b" "\<And>t x. a \<le> t \<Longrightarrow> t < b \<Longrightarrow> P t x \<Longrightarrow> P (Suc t) (F x t)"
  shows "P b (foldl F x [a..<b])"
  using assms(2,3)
proof (induction b)
  case (Suc b)
  then show ?case
  proof (cases "a = Suc b")
    case False
    then have "P b (foldl F x [a..<b])" using Suc by simp
    then show ?thesis using Suc.prems(2)[of b] Suc.prems(1) False by simp
  qed (use assms(1) in simp)
qed (use assms(1) in simp)

text \<open>Registers and buffer together.\<close>

definition at_round :: "(nat \<Rightarrow> 's list \<Rightarrow> 's list) \<Rightarrow> 'w list \<Rightarrow> 's list \<Rightarrow> nat \<Rightarrow> 's list \<times> 'w list \<Rightarrow> bool" where
  "at_round step W s t vX \<longleftrightarrow> regs_at step s t (fst vX) \<and> window (snd vX) W t"

lemma at_round_0: "length X = 16 \<Longrightarrow> at_round step W s 0 (s, X)"
  by (simp add: at_round_def window_0 regs_at_0)

text \<open>The first words are loaded one call ahead of their use.\<close>

definition load_ahead :: "('b list \<Rightarrow> 'w) \<Rightarrow> 'b list \<Rightarrow> nat \<Rightarrow> 'w list \<Rightarrow> 'w list" where
  "load_ahead load inp i X = (if i < 15 then X[Suc i := load (drop (4 * Suc i) inp)] else X)"

definition loaded :: "'w list \<Rightarrow> 'w list \<Rightarrow> nat \<Rightarrow> bool" where
  "loaded X W n \<longleftrightarrow> length X = 16 \<and> (\<forall>s. s < n \<and> s < 16 \<longrightarrow> X ! s = W ! s)"

lemma loaded_first: "length X = 16 \<Longrightarrow> W ! 0 = load inp \<Longrightarrow> loaded (X[0 := load inp]) W (Suc 0)"
  by (simp add: loaded_def)

lemma loaded_ahead:
  assumes "loaded X W (Suc t)" "\<And>s. s < 16 \<Longrightarrow> W ! s = load (drop (4 * s) inp)"
  shows "loaded (load_ahead load inp t X) W (Suc (Suc t))"
  using assms by (auto simp: loaded_def load_ahead_def nth_list_update less_Suc_eq)

lemma loaded_all: "loaded X W n \<Longrightarrow> 16 \<le> n \<Longrightarrow> loaded X W m"
  by (simp add: loaded_def)

lemma loaded_nth: "loaded X W (Suc n) \<Longrightarrow> k < 16 \<Longrightarrow> k \<le> n \<or> 15 \<le> n \<Longrightarrow> X ! k = W ! k"
  by (auto simp: loaded_def)

lemma loaded_window: "loaded X W n \<Longrightarrow> 16 \<le> n \<Longrightarrow> window X W 16"
  by (auto simp: loaded_def window_def)

end
