(* ===== verification/Md32.thy ===== *)
theory Md32
  imports Prelude Endian
begin

text \<open>The collector of \<open>fipsmodule/digest/md32_common.h\<close>, on which MD4, MD5, SHA-1 and SHA-256 are built:
  it cuts a stream of bytes into blocks for a block function, counts bits in two 32-bit words and
  pads at the end.  The locale \<open>block_function\<close> is the contract with the block function: that it folds a
  compression function over the blocks.  In its extension \<open>md32_hash\<close> the stream is proved equal to
  the fold over the padded message.\<close>

section \<open>Model\<close>

record md32_ctx =
  md_h :: "u32 list"
  Nl :: u32
  Nh :: u32
  md_data :: bytes
  md_num :: nat

type_synonym md32_block_func = "u32 list \<Rightarrow> bytes \<Rightarrow> nat \<Rightarrow> u32 list"

definition md32_blocks :: "md32_block_func \<Rightarrow> nat \<Rightarrow> bytes \<Rightarrow> 'a md32_ctx_scheme \<Rightarrow> 'a md32_ctx_scheme" where
  "md32_blocks block_func block_size inp c =
     (let n = length inp div block_size;
          c = (if n > 0 then c\<lparr>md_h := block_func (md_h c) inp n\<rparr> else c);
          inp = drop (n * block_size) inp;
          len = length inp
      in if len \<noteq> 0 then c\<lparr>md_num := len, md_data := inp @ drop len (md_data c)\<rparr> else c)"

definition crypto_md32_update :: "md32_block_func \<Rightarrow> nat \<Rightarrow> bytes \<Rightarrow> 'a md32_ctx_scheme \<Rightarrow> 'a md32_ctx_scheme" where
  "crypto_md32_update block_func block_size inp c =
     (let len = length inp
      in if len = 0 then c
         else
           (let l = Nl c + push_bit 3 (word_of_nat len);
                nh = (if l < Nl c then Nh c + 1 else Nh c) + word_of_nat (len div 2 ^ 29);
                c = c\<lparr>Nh := nh, Nl := l\<rparr>;
                n = md_num c
            in if n \<noteq> 0 then
                 if len \<ge> block_size \<or> (len + n) mod SIZE_MOD \<ge> block_size then
                   (let data = take n (md_data c) @ take (block_size - n) inp;
                        c = c\<lparr>md_h := block_func (md_h c) data 1, md_num := 0, md_data := replicate block_size 0\<rparr>
                    in md32_blocks block_func block_size (drop (block_size - n) inp) c)
                 else c\<lparr>md_data := take n (md_data c) @ inp @ drop (n + len) (md_data c), md_num := n + len\<rparr>
               else md32_blocks block_func block_size inp c))"

definition crypto_md32_final :: "md32_block_func \<Rightarrow> nat \<Rightarrow> bool \<Rightarrow> 'a md32_ctx_scheme \<Rightarrow> 'a md32_ctx_scheme" where
  "crypto_md32_final block_func block_size is_big_endian c =
     (let n = md_num c;
          data = (md_data c)[n := 0x80];
          n = n + 1;
          (n, data, h) =
            (if n > block_size - 8
             then (let data = take n data @ replicate (block_size - n) 0 in (0, data, block_func (md_h c) data 1))
             else (n, data, md_h c));
          data = take n data @ replicate (block_size - 8 - n) 0 @
            (if is_big_endian then CRYPTO_store_u32_be (Nh c) @ CRYPTO_store_u32_be (Nl c)
             else CRYPTO_store_u32_le (Nl c) @ CRYPTO_store_u32_le (Nh c))
      in c\<lparr>md_h := block_func h data 1, md_num := 0, md_data := replicate block_size 0\<rparr>)"

section \<open>Words and bytes\<close>

definition be_words :: "bytes \<Rightarrow> u32 list" where
  "be_words b = map (\<lambda>i. word_of_nat (be_val (take 4 (drop (4 * i) b)))) [0..<length b div 4]"

definition le_words :: "bytes \<Rightarrow> u32 list" where
  "le_words b = map (\<lambda>i. word_of_nat (le_val (take 4 (drop (4 * i) b)))) [0..<length b div 4]"

definition be_digest :: "u32 list \<Rightarrow> bytes" where
  "be_digest ws = concat (map (\<lambda>w. be_bytes 4 (unat w)) ws)"

definition le_digest :: "u32 list \<Rightarrow> bytes" where
  "le_digest ws = concat (map (\<lambda>w. le_bytes 4 (unat w)) ws)"

lemma length_words [simp]: "length (be_words b) = length b div 4" "length (le_words b) = length b div 4"
  by (simp_all add: be_words_def le_words_def)

lemma words_nth:
  assumes "n \<le> length m" "4 * t + 4 \<le> n"
  shows "be_words (take n m) ! t = CRYPTO_load_u32_be (drop (4 * t) m)"
    and "le_words (take n m) ! t = CRYPTO_load_u32_le (drop (4 * t) m)"
proof -
  have "take 4 (drop (4 * t) (take n m)) = take 4 (drop (4 * t) m)"
    using assms by (simp add: drop_take take_take min_def)
  moreover have "t < n div 4" "4 \<le> length (drop (4 * t) m)" using assms by simp_all
  ultimately show "be_words (take n m) ! t = CRYPTO_load_u32_be (drop (4 * t) m)"
    "le_words (take n m) ! t = CRYPTO_load_u32_le (drop (4 * t) m)"
    using assms by (simp_all add: be_words_def le_words_def CRYPTO_load_u32_be CRYPTO_load_u32_le_def)
qed

lemma stored_words:
  "n \<le> length ws \<Longrightarrow> concat (map (\<lambda>i. CRYPTO_store_u32_be (ws ! i)) [0..<n]) = be_digest (take n ws)"
  by (induction n) (simp_all add: be_digest_def CRYPTO_store_u32_be take_Suc_conv_app_nth)

section \<open>The specification\<close>

text \<open>A message is padded to whole blocks, with its length in bits at the end, and the blocks are
  folded into the chaining value.\<close>

fun compress_blocks :: "('h \<Rightarrow> bytes \<Rightarrow> 'h) \<Rightarrow> nat \<Rightarrow> bytes \<Rightarrow> nat \<Rightarrow> 'h \<Rightarrow> 'h" where
  "compress_blocks f bs m 0 h = h"
| "compress_blocks f bs m (Suc n) h = compress_blocks f bs (drop bs m) n (f h (take bs m))"

definition fold_blocks :: "('h \<Rightarrow> bytes \<Rightarrow> 'h) \<Rightarrow> nat \<Rightarrow> 'h \<Rightarrow> bytes \<Rightarrow> 'h" where
  "fold_blocks f bs h m = compress_blocks f bs m (length m div bs) h"

definition md32_pad :: "nat \<Rightarrow> bool \<Rightarrow> bytes \<Rightarrow> bytes" where
  "md32_pad bs be m =
     m @ [0x80] @ replicate ((bs - (length m + 9) mod bs) mod bs) 0 @
     (if be then be_bytes 8 (8 * length m) else le_bytes 8 (8 * length m))"

lemma compress_blocks_add:
  "compress_blocks f bs m (a + b) h = compress_blocks f bs (drop (a * bs) m) b (compress_blocks f bs m a h)"
  by (induction a arbitrary: m h) (simp_all add: add.commute)

lemma compress_blocks_append:
  "n * bs \<le> length m \<Longrightarrow> compress_blocks f bs (m @ x) n h = compress_blocks f bs m n h"
  by (induction n arbitrary: m h) simp_all

lemma fold_blocks_append:
  assumes "length m mod bs = 0" "0 < bs"
  shows "fold_blocks f bs h (m @ x) = fold_blocks f bs (fold_blocks f bs h m) x"
proof -
  let ?a = "length m div bs"
  have a: "?a * bs = length m" using assms(1) by (metis add.right_neutral div_mult_mod_eq)
  have "length (m @ x) div bs = ?a + length x div bs"
    using a assms(2) by (metis div_mult_self3 length_append neq0_conv)
  then show ?thesis
    using compress_blocks_append[of ?a bs m f x] a by (simp add: fold_blocks_def compress_blocks_add)
qed

lemma fold_blocks_one: "length b = bs \<Longrightarrow> 0 < bs \<Longrightarrow> fold_blocks f bs h b = f h b"
  by (simp add: fold_blocks_def)

lemma fold_blocks_short: "length b < bs \<Longrightarrow> fold_blocks f bs h b = h"
  by (simp add: fold_blocks_def)

text \<open>The part of a message that does not fill a block.\<close>

definition whole :: "nat \<Rightarrow> bytes \<Rightarrow> bytes" where "whole bs m = take (length m div bs * bs) m"
definition rest :: "nat \<Rightarrow> bytes \<Rightarrow> bytes" where "rest bs m = drop (length m div bs * bs) m"

lemma whole_rest: "whole bs m @ rest bs m = m"
  by (simp add: whole_def rest_def)

lemma length_whole: "length (whole bs m) = length m div bs * bs"
  by (simp add: whole_def)

lemma length_rest: "length (rest bs m) = length m mod bs"
  by (simp add: rest_def minus_div_mult_eq_mod)

lemma fold_blocks_whole: "0 < bs \<Longrightarrow> fold_blocks f bs h m = fold_blocks f bs h (whole bs m)"
  using fold_blocks_append[of "whole bs m" bs f h "rest bs m"] fold_blocks_short[of "rest bs m" bs f]
  by (simp add: whole_rest length_whole length_rest)

text \<open>The contract of a block function: it folds a compression function over the blocks that it is given.\<close>

locale block_function =
  fixes block_func :: "'w list \<Rightarrow> bytes \<Rightarrow> nat \<Rightarrow> 'w list" and compress :: "'w list \<Rightarrow> bytes \<Rightarrow> 'w list" and bs k :: nat
  assumes block: "length h = k \<Longrightarrow> 0 < n \<Longrightarrow> n * bs \<le> length m \<Longrightarrow> block_func h m n = compress_blocks compress bs m n h"
    and compress: "length h = k \<Longrightarrow> length b = bs \<Longrightarrow> length (compress h b) = k"
    and bs_pos: "0 < bs"
begin

lemma length_compress_blocks: "length h = k \<Longrightarrow> n * bs \<le> length m \<Longrightarrow> length (compress_blocks compress bs m n h) = k"
  by (induction n arbitrary: m h) (simp_all add: compress)

lemma length_fold_blocks: "length h = k \<Longrightarrow> length (fold_blocks compress bs h m) = k"
  unfolding fold_blocks_def by (intro length_compress_blocks) simp_all

lemma block_one: "length h = k \<Longrightarrow> length b = bs \<Longrightarrow> block_func h b 1 = fold_blocks compress bs h b"
  using block[of h 1 b] bs_pos by (simp add: fold_blocks_one)

text \<open>Whole blocks of the input after whole blocks.\<close>

lemma aligned:
  fixes m inp :: bytes and h0 :: "'w list"
  assumes h: "length h0 = k" and m: "length m mod bs = 0"
  defines "n \<equiv> length inp div bs" and "h \<equiv> fold_blocks compress bs h0 m"
  shows "(if n > 0 then block_func h inp n else h) = fold_blocks compress bs h0 (m @ inp)"
    and "rest bs (m @ inp) = drop (n * bs) inp"
    and "length (m @ inp) mod bs = length (drop (n * bs) inp)"
proof -
  show "(if n > 0 then block_func h inp n else h) = fold_blocks compress bs h0 (m @ inp)"
  proof -
    have f: "fold_blocks compress bs h inp = compress_blocks compress bs inp n h" by (simp add: fold_blocks_def n_def)
    have "length h = k" unfolding h_def by (rule length_fold_blocks[OF h])
    from block[OF this, of n inp] have "(if n > 0 then block_func h inp n else h) = fold_blocks compress bs h inp"
      unfolding f by (cases "n = 0") (simp_all add: n_def)
    then show ?thesis unfolding fold_blocks_append[OF m bs_pos] h_def .
  qed
  have d: "(length m + length inp) div bs * bs = length m + n * bs"
  proof -
    have "length m div bs * bs = length m" using m by (metis add.right_neutral div_mult_mod_eq)
    then show ?thesis using bs_pos unfolding n_def by (metis add_mult_distrib div_mult_self3 neq0_conv)
  qed
  show r: "rest bs (m @ inp) = drop (n * bs) inp" by (simp add: rest_def d)
  show "length (m @ inp) mod bs = length (drop (n * bs) inp)" using length_rest[of bs "m @ inp"] unfolding r ..
qed

text \<open>Input that fills the block in progress.\<close>

lemma fill:
  fixes m inp :: bytes and h0 :: "'w list"
  assumes h: "length h0 = k" and l: "bs \<le> length inp + length m mod bs"
  defines "p \<equiv> take (bs - length m mod bs) inp"
  shows "block_func (fold_blocks compress bs h0 m) (rest bs m @ p) 1 = fold_blocks compress bs h0 (m @ p)"
    and "length (m @ p) mod bs = 0" and "rest bs (m @ p) = []"
proof -
  have n: "length m mod bs < bs" using bs_pos by simp
  have len: "length (rest bs m @ p) = bs" using l n unfolding p_def by (auto simp: length_rest)
  have "length (m @ p) = length (whole bs m) + bs" using len by (metis append.assoc length_append whole_rest)
  then show m1: "length (m @ p) mod bs = 0" by (simp add: length_whole)
  then show "rest bs (m @ p) = []" using length_rest[of bs "m @ p"] by simp
  have "fold_blocks compress bs h0 (m @ p) = fold_blocks compress bs (fold_blocks compress bs h0 (whole bs m)) (rest bs m @ p)"
    using fold_blocks_append[of "whole bs m" bs compress h0 "rest bs m @ p"] bs_pos
    by (simp add: length_whole whole_rest flip: append_assoc)
  also have "fold_blocks compress bs h0 (whole bs m) = fold_blocks compress bs h0 m"
    using fold_blocks_whole[OF bs_pos, of compress h0 m] by simp
  finally show "block_func (fold_blocks compress bs h0 m) (rest bs m @ p) 1 = fold_blocks compress bs h0 (m @ p)"
    using block_one[OF length_fold_blocks[OF h] len] by simp
qed

text \<open>Input that does not.\<close>

lemma keep:
  assumes l: "length inp + length m mod bs < bs"
  shows "fold_blocks compress bs h0 (m @ inp) = fold_blocks compress bs h0 m" "rest bs (m @ inp) = rest bs m @ inp"
    "length (m @ inp) mod bs = length m mod bs + length inp"
proof -
  let ?n = "length m mod bs"
  have q: "(length m + length inp) div bs = length m div bs"
  proof -
    have e: "length m + length inp = length inp + ?n + length m div bs * bs"
      by (metis add.assoc add.commute mod_div_mult_eq)
    have "(length inp + ?n + length m div bs * bs) div bs = length m div bs + (length inp + ?n) div bs"
      using bs_pos by (intro div_mult_self1) simp
    then show ?thesis unfolding e by (simp only: div_less[OF l] add_0_right)
  qed
  show "length (m @ inp) mod bs = ?n + length inp"
    using l unfolding length_append by (metis add.commute mod_add_left_eq mod_less)
  show "rest bs (m @ inp) = rest bs m @ inp" by (simp add: rest_def q)
  have "whole bs (m @ inp) = whole bs m" by (simp add: whole_def q)
  then show "fold_blocks compress bs h0 (m @ inp) = fold_blocks compress bs h0 m"
    using fold_blocks_whole[OF bs_pos, of compress h0 m] fold_blocks_whole[OF bs_pos, of compress h0 "m @ inp"] by simp
qed

text \<open>One or two blocks after the whole blocks of a message.\<close>

lemma fold_blocks_two:
  assumes "length a = bs" "length b = bs" "length h0 = k"
  shows "fold_blocks compress bs h0 (whole bs m @ a @ b) =
    block_func (block_func (fold_blocks compress bs h0 m) a 1) b 1"
    and "fold_blocks compress bs h0 (whole bs m @ a) = block_func (fold_blocks compress bs h0 m) a 1"
proof -
  have w: "fold_blocks compress bs h0 (whole bs m @ x) = fold_blocks compress bs (fold_blocks compress bs h0 m) x" for x
    using fold_blocks_append[of "whole bs m" bs compress h0 x] fold_blocks_whole[OF bs_pos, of compress h0 m] bs_pos
    by (simp add: length_whole)
  have k: "length (fold_blocks compress bs h0 x) = k" for x using length_fold_blocks[OF assms(3)] .
  have 1: "block_func (fold_blocks compress bs h0 m) a 1 = fold_blocks compress bs (fold_blocks compress bs h0 m) a"
    using block_one[OF k assms(1)] .
  then have k1: "length (block_func (fold_blocks compress bs h0 m) a 1) = k" using length_fold_blocks[OF k] by simp
  show "fold_blocks compress bs h0 (whole bs m @ a) = block_func (fold_blocks compress bs h0 m) a 1"
    unfolding w 1 ..
  show "fold_blocks compress bs h0 (whole bs m @ a @ b) = block_func (block_func (fold_blocks compress bs h0 m) a 1) b 1"
    unfolding w block_one[OF k1 assms(2)] unfolding 1 using fold_blocks_append[of a bs] assms(1) bs_pos by simp
qed

end

section \<open>The collector\<close>

text \<open>A context after the bytes \<open>m\<close>.\<close>

definition ctx_partial :: "(u32 list \<Rightarrow> bytes \<Rightarrow> u32 list) \<Rightarrow> nat \<Rightarrow> u32 list \<Rightarrow> 'a md32_ctx_scheme \<Rightarrow> bytes \<Rightarrow> bool" where
  "ctx_partial f bs h0 c m \<longleftrightarrow>
     md_h c = fold_blocks f bs h0 m \<and> length (md_data c) = bs \<and>
     md_num c = length m mod bs \<and> take (md_num c) (md_data c) = rest bs m"

definition ctx_count :: "'a md32_ctx_scheme \<Rightarrow> bytes \<Rightarrow> bool" where
  "ctx_count c m \<longleftrightarrow> 2 ^ 32 * unat (Nh c) + unat (Nl c) = 8 * length m mod 2 ^ 64"

locale md32_hash = block_function block_func compress bs k
  for block_func :: md32_block_func and compress :: "u32 list \<Rightarrow> bytes \<Rightarrow> u32 list" and bs k :: nat +
  assumes bs: "8 < bs" "bs < 2 ^ 32"
begin

lemma md32_blocks_partial:
  assumes c: "ctx_partial compress bs h0 c m" and h0: "length h0 = k" and m: "length m mod bs = 0"
  shows "ctx_partial compress bs h0 (md32_blocks block_func bs inp c) (m @ inp)"
proof -
  let ?n = "length inp div bs" let ?r = "drop (?n * bs) inp"
  note al = aligned[OF h0 m, where inp = inp]
  have "length ?r < bs" using al(3) bs_pos by (metis mod_less_divisor)
  then have dat: "length (?r @ drop (length ?r) (md_data c)) = bs" using c by (simp add: ctx_partial_def)
  have h2: "md_h (if ?n > 0 then c\<lparr>md_h := block_func (md_h c) inp ?n\<rparr> else c) = fold_blocks compress bs h0 (m @ inp)"
    using al(1) c by (simp add: ctx_partial_def split: if_splits)
  show ?thesis
  proof (cases "length ?r = 0")
    case True
    then have "md32_blocks block_func bs inp c = (if ?n > 0 then c\<lparr>md_h := block_func (md_h c) inp ?n\<rparr> else c)"
      by (simp only: md32_blocks_def Let_def if_False not_not refl) simp
    moreover have "md_num c = 0" using c m by (simp add: ctx_partial_def)
    ultimately show ?thesis
      using c h2 True unfolding ctx_partial_def al by (simp split: if_splits)
  next
    case False
    then have "md32_blocks block_func bs inp c = (if ?n > 0 then c\<lparr>md_h := block_func (md_h c) inp ?n\<rparr> else c)
        \<lparr>md_num := length ?r, md_data := ?r @ drop (length ?r) (md_data c)\<rparr>"
      by (simp add: md32_blocks_def Let_def)
    then show ?thesis
      using h2 dat unfolding ctx_partial_def al by (simp split: if_splits)
  qed
qed

lemma update_partial:
  assumes c: "ctx_partial compress bs h0 c m" and h0: "length h0 = k" and l: "length inp < SIZE_MOD"
  shows "ctx_partial compress bs h0 (crypto_md32_update block_func bs inp c) (m @ inp)"
proof -
  let ?n = "length m mod bs"
  have n: "md_num c = ?n" "?n < bs" using c bs_pos by (simp_all add: ctx_partial_def)
  have same: "ctx_partial compress bs h0 (c\<lparr>Nh := x, Nl := y\<rparr>) m = ctx_partial compress bs h0 c m" for x y
    by (simp add: ctx_partial_def)
  consider (none) "inp = []" | (start) "inp \<noteq> []" "?n = 0"
    | (fill) "inp \<noteq> []" "?n \<noteq> 0" "bs \<le> length inp + ?n"
    | (keep) "inp \<noteq> []" "?n \<noteq> 0" "length inp + ?n < bs" by fastforce
  then show ?thesis
  proof cases
    case none then show ?thesis using c by (simp add: crypto_md32_update_def)
  next
    case start
    then show ?thesis
      using n md32_blocks_partial[of h0 "c\<lparr>Nh := _, Nl := _\<rparr>" m inp, unfolded same, OF c h0]
      by (simp add: crypto_md32_update_def Let_def)
  next
    case fill
    have t: "bs \<le> length inp \<or> bs \<le> (length inp + ?n) mod SIZE_MOD"
    proof (cases "bs \<le> length inp")
      case False
      then have "length inp + ?n < 2 * bs" using n(2) by linarith
      then have "length inp + ?n < SIZE_MOD" using bs(2) by simp
      then show ?thesis using fill(3) False by simp
    qed simp
    let ?p = "take (bs - ?n) inp"
    let ?d = "rest bs m @ ?p"
    note fi = block_function.fill[OF block_function_axioms h0 fill(3)]
    have c1: "ctx_partial compress bs h0
        (c\<lparr>Nh := x, Nl := y, md_h := block_func (md_h c) ?d 1, md_num := 0, md_data := replicate bs 0\<rparr>) (m @ ?p)" for x y
      using fi c unfolding ctx_partial_def by simp
    have d: "take ?n (md_data c) = rest bs m" using c unfolding ctx_partial_def by metis
    show ?thesis
      using md32_blocks_partial[OF c1 h0 fi(2), of "drop (bs - ?n) inp"] fill(1,2) t d
      by (simp add: crypto_md32_update_def Let_def n)
  next
    case keep
    note ke = block_function.keep[OF block_function_axioms keep(3)]
    have nm: "(length inp + ?n) mod SIZE_MOD = length inp + ?n" "\<not> bs \<le> length inp" using keep bs by simp_all
    show ?thesis
      using c keep nm n ke by (simp add: crypto_md32_update_def Let_def ctx_partial_def length_rest)
  qed
qed

end

text \<open>The two counters together count bits modulo the square of their range.\<close>

lemma unat_push_bit_3: "unat (push_bit 3 (word_of_nat len) :: 'a::len word) = 8 * len mod 2 ^ LENGTH('a)"
proof -
  have "(push_bit 3 (word_of_nat len) :: 'a word) = word_of_nat (8 * len)" by (simp add: push_bit_eq_mult mult.commute)
  then show ?thesis by (simp only: unat_of_nat)
qed

lemma high_low:
  fixes len :: nat
  assumes "3 \<le> w"
  shows "8 * len = 2 ^ w * (len div 2 ^ (w - 3)) + 8 * len mod 2 ^ w"
proof -
  have w: "(2::nat) ^ w = 8 * 2 ^ (w - 3)" using assms power_add[of "2::nat" 3 "w - 3"] by simp
  have m: "8 * len mod 2 ^ w = 8 * (len mod 2 ^ (w - 3))" unfolding w by (simp only: mult_mod_right)
  have "8 * len = 8 * (2 ^ (w - 3) * (len div 2 ^ (w - 3)) + len mod 2 ^ (w - 3))" by (simp only: mult_div_mod_eq)
  also have "\<dots> = 8 * 2 ^ (w - 3) * (len div 2 ^ (w - 3)) + 8 * (len mod 2 ^ (w - 3))"
    by (simp only: distrib_left mult.assoc)
  finally show ?thesis unfolding m w[symmetric] .
qed

lemma count_step:
  fixes nl nh :: "'a::len word"
  defines "w \<equiv> LENGTH('a)"
  assumes c: "2 ^ w * unat nh + unat nl = 8 * n mod 2 ^ (2 * w)" and l: "l = nl + push_bit 3 (word_of_nat len)"
    and h: "h = (if l < nl then nh + 1 else nh) + word_of_nat (len div 2 ^ (w - 3))" and w: "3 \<le> w"
  shows "2 ^ w * unat h + unat l = 8 * (n + len) mod 2 ^ (2 * w)"
proof -
  let ?B = "(2::nat) ^ w" let ?lo = "8 * len mod ?B" let ?hi = "len div 2 ^ (w - 3)"
  let ?s = "unat nl + ?lo" let ?c = "?s div ?B"
  have b: "unat nl < ?B" "?lo < ?B" unfolding w_def by simp_all
  have ul: "unat l = ?s mod ?B"
    unfolding l w_def by (simp add: unat_word_ariths unat_push_bit_3)
  have carry: "(if l < nl then 1 else 0) = ?c"
  proof (cases "?s < ?B")
    case True then show ?thesis using ul by (simp add: word_less_nat_alt)
  next
    case False
    moreover have "?s < ?B + ?B" using b by linarith
    moreover have "x div ?B = 1 \<and> x mod ?B = x - ?B" if "\<not> x < ?B" "x < ?B + ?B" for x :: nat
    proof -
      have "x div ?B = 1" by (rule div_nat_eqI) (use that in simp_all)
      then show ?thesis using minus_div_mult_eq_mod[of x ?B] by simp
    qed
    ultimately have "?c = 1" "?s mod ?B = ?s - ?B" by blast+
    moreover have "?s - ?B < unat nl" using b False by linarith
    ultimately show ?thesis using ul by (simp add: word_less_nat_alt)
  qed
  have uh: "unat h = (unat nh + ?c + ?hi) mod ?B"
    unfolding carry[symmetric] unfolding w_def
    by (simp add: h[unfolded w_def] unat_word_ariths unat_of_nat mod_add_left_eq mod_add_right_eq add.assoc)
  have sq: "(2::nat) ^ (2 * w) = ?B * ?B" by (simp add: mult_2 power_add)
  have "?B * unat h + unat l = (?B * (unat nh + ?c + ?hi) + ?s mod ?B) mod 2 ^ (2 * w)"
  proof -
    have g: "(?B * x + y) mod (?B * ?B) = ?B * (x mod ?B) + y" if "y < ?B" for x y :: nat
    proof -
      have "(?B * x + y) mod (?B * ?B) = ?B * ((?B * x + y) div ?B mod ?B) + (?B * x + y) mod ?B" by (rule mod_mult2_eq)
      moreover have "(?B * x + y) div ?B = x" "(?B * x + y) mod ?B = y" using that by simp_all
      ultimately show ?thesis by simp
    qed
    show ?thesis unfolding uh ul sq by (rule g[symmetric]) simp
  qed
  also have "?B * (unat nh + ?c + ?hi) + ?s mod ?B = ?B * unat nh + unat nl + 8 * len"
  proof -
    have "?B * (unat nh + ?c + ?hi) + ?s mod ?B = ?B * unat nh + (?B * ?c + ?s mod ?B) + ?B * ?hi"
      by (simp only: distrib_left add_ac)
    also have "?B * ?c + ?s mod ?B = ?s" by (rule mult_div_mod_eq)
    finally show ?thesis using high_low[OF w, of len] by linarith
  qed
  also have "(?B * unat nh + unat nl + 8 * len) mod 2 ^ (2 * w) = (8 * n + 8 * len) mod 2 ^ (2 * w)"
    unfolding c by (rule mod_add_left_eq)
  finally show ?thesis by (simp add: distrib_left)
qed

lemma count_step_32:
  fixes nl nh :: u32
  assumes "2 ^ 32 * unat nh + unat nl = 8 * n mod 2 ^ 64" "l = nl + push_bit 3 (word_of_nat len)"
    "h = (if l < nl then nh + 1 else nh) + word_of_nat (len div 2 ^ 29)"
  shows "2 ^ 32 * unat h + unat l = 8 * (n + len) mod 2 ^ 64"
  using count_step[of nh nl n l len h] assms by simp

lemma count_step_64:
  fixes nl nh :: u64
  assumes "2 ^ 64 * unat nh + unat nl = 8 * n mod 2 ^ 128" "l = nl + push_bit 3 (word_of_nat len)"
    "h = (if l < nl then nh + 1 else nh) + word_of_nat (len div 2 ^ 61)"
  shows "2 ^ 64 * unat h + unat l = 8 * (n + len) mod 2 ^ 128"
  using count_step[of nh nl n l len h] assms by simp

lemma be_bytes_split: "be_bytes (a + b) v = be_bytes a (v div 256 ^ b) @ be_bytes b v"
  by (induction a) (simp_all add: div_mult2_eq[symmetric] power_add[symmetric] mult.commute add.commute)

text \<open>The length field that the final call writes.\<close>

definition length_field :: "bool \<Rightarrow> nat \<Rightarrow> bytes" where
  "length_field be n = (if be then be_bytes 8 (8 * n) else le_bytes 8 (8 * n))"

lemma length_length_field [simp]: "length (length_field be n) = 8"
  by (simp add: length_field_def)

lemma stored_length:
  assumes "ctx_count c m"
  shows "(if be then CRYPTO_store_u32_be (Nh c) @ CRYPTO_store_u32_be (Nl c)
      else CRYPTO_store_u32_le (Nl c) @ CRYPTO_store_u32_le (Nh c)) = length_field be (length m)"
proof -
  have l: "unat (Nl c) < 2 ^ 32" using unat_u32_less[of "Nl c"] by simp
  have "be_bytes 8 (8 * length m) = be_bytes 8 (8 * length m mod 2 ^ 64)"
    using be_bytes_mod[of 8 8 "8 * length m"] by simp
  also have "\<dots> = be_bytes (4 + 4) (2 ^ 32 * unat (Nh c) + unat (Nl c))" using assms by (simp add: ctx_count_def)
  also have "\<dots> = be_bytes 4 (unat (Nh c)) @ be_bytes 4 (2 ^ 32 * unat (Nh c) + unat (Nl c))"
    using l unfolding be_bytes_split by simp
  also have "be_bytes 4 (2 ^ 32 * unat (Nh c) + unat (Nl c)) = be_bytes 4 (unat (Nl c))"
    using be_bytes_mod[of 4 4 "2 ^ 32 * unat (Nh c) + unat (Nl c)"] l by simp
  finally have b: "be_bytes 8 (8 * length m) = be_bytes 4 (unat (Nh c)) @ be_bytes 4 (unat (Nl c))" .
  show ?thesis
    by (simp add: length_field_def CRYPTO_store_u32_be CRYPTO_store_u32_le_def b le_bytes_eq_rev)
qed

definition zeros_for :: "nat \<Rightarrow> nat \<Rightarrow> nat \<Rightarrow> nat" where
  "zeros_for bs l n = (bs - (n + 1 + l) mod bs) mod bs"

lemma zeros_for_cases:
  assumes "l < bs"
  shows "n mod bs + 1 > bs - l \<Longrightarrow> zeros_for bs l n = (bs - (n mod bs + 1)) + (bs - l)"
    and "\<not> n mod bs + 1 > bs - l \<Longrightarrow> zeros_for bs l n = bs - l - (n mod bs + 1)"
proof -
  let ?r = "n mod bs"
  have r: "?r < bs" using assms by simp
  have m: "(n + 1 + l) mod bs = (?r + 1 + l) mod bs" by (metis add.assoc mod_add_left_eq)
  show "zeros_for bs l n = (bs - (?r + 1)) + (bs - l)" if "?r + 1 > bs - l"
  proof -
    have "bs \<le> ?r + 1 + l" "?r + 1 + l - bs < bs" using that r assms by linarith+
    then have "(?r + 1 + l) mod bs = ?r + 1 + l - bs" using le_mod_geq[of bs "?r + 1 + l"] by (simp only: mod_less)
    then have "bs - (n + 1 + l) mod bs = (bs - (?r + 1)) + (bs - l)" using m that r assms by linarith
    moreover have "(bs - (?r + 1)) + (bs - l) < bs" using that r assms by linarith
    ultimately show ?thesis by (simp add: zeros_for_def)
  qed
  show "zeros_for bs l n = bs - l - (?r + 1)" if "\<not> ?r + 1 > bs - l"
  proof (cases "?r + 1 + l = bs")
    case True
    then have "(n + 1 + l) mod bs = 0" using m by simp
    then show ?thesis using True by (simp add: zeros_for_def)
  next
    case False
    then have "(n + 1 + l) mod bs = ?r + 1 + l" using m that assms by simp
    then show ?thesis using that False assms by (simp add: zeros_for_def)
  qed
qed

lemma md32_pad_eq: "md32_pad bs be m = m @ [0x80] @ replicate (zeros_for bs 8 (length m)) 0 @ length_field be (length m)"
  by (simp add: md32_pad_def zeros_for_def length_field_def add.commute)

context md32_hash
begin

lemma final_partial:
  assumes c: "ctx_partial compress bs h0 c m" "ctx_count c m" and h0: "length h0 = k"
  shows "md_h (crypto_md32_final block_func bs be c) = fold_blocks compress bs h0 (md32_pad bs be m)"
    and "md_num (crypto_md32_final block_func bs be c) = 0"
    and "md_data (crypto_md32_final block_func bs be c) = replicate bs 0"
proof -
  let ?n = "length m mod bs" let ?L = "length_field be (length m)"
  have n: "md_num c = ?n" "?n < bs" "length (md_data c) = bs" using c bs_pos by (simp_all add: ctx_partial_def)
  have r: "take ?n (md_data c) = rest bs m" using c(1) unfolding ctx_partial_def by metis
  have t: "take (?n + 1) ((md_data c)[?n := 0x80]) = rest bs m @ [0x80]"
    using n r by (simp add: take_Suc_conv_app_nth)
  have h: "md_h c = fold_blocks compress bs h0 m" using c by (simp add: ctx_partial_def)
  have m: "m @ x = whole bs m @ rest bs m @ x" for x by (metis append.assoc whole_rest)
  have "md_h (crypto_md32_final block_func bs be c) = fold_blocks compress bs h0 (md32_pad bs be m)"
  proof (cases "?n + 1 > bs - 8")
    case True
    let ?a = "rest bs m @ [0x80] @ replicate (bs - (?n + 1)) 0" let ?b = "replicate (bs - 8) 0 @ ?L"
    have hh: "md_h (crypto_md32_final block_func bs be c) = block_func (block_func (md_h c) ?a 1) ?b 1"
      using True t by (simp add: crypto_md32_final_def Let_def n stored_length[OF c(2)])
    have pp: "md32_pad bs be m = whole bs m @ ?a @ ?b"
      unfolding md32_pad_eq m zeros_for_cases(1)[OF bs(1) True] by (simp add: replicate_add)
    have ll: "length ?a = bs" "length ?b = bs"
      using n(2) bs unfolding length_append length_rest length_replicate list.size length_length_field by linarith+
    show ?thesis unfolding hh pp h by (rule fold_blocks_two(1)[OF ll h0, symmetric])
  next
    case False
    let ?b = "rest bs m @ [0x80] @ replicate (bs - 8 - (?n + 1)) 0 @ ?L"
    have hh: "md_h (crypto_md32_final block_func bs be c) = block_func (md_h c) ?b 1"
      using False t by (simp add: crypto_md32_final_def Let_def n stored_length[OF c(2)])
    have pp: "md32_pad bs be m = whole bs m @ ?b"
      unfolding md32_pad_eq m zeros_for_cases(2)[OF bs(1) False] by simp
    have ll: "length ?b = bs"
      using False bs unfolding length_append length_rest length_replicate list.size length_length_field by linarith
    show ?thesis unfolding hh pp h by (rule fold_blocks_two(2)[OF ll _ h0, symmetric]) (rule ll)
  qed
  then show "md_h (crypto_md32_final block_func bs be c) = fold_blocks compress bs h0 (md32_pad bs be m)" .
qed (simp_all add: crypto_md32_final_def Let_def split: prod.splits)

lemma md32_blocks_counts [simp]: "Nl (md32_blocks f bs inp c) = Nl c" "Nh (md32_blocks f bs inp c) = Nh c"
  by (simp_all add: md32_blocks_def Let_def)

lemma update_count:
  assumes "ctx_count c m"
  shows "ctx_count (crypto_md32_update f bs inp c) (m @ inp)"
proof (cases "inp = []")
  case False
  have "Nl (crypto_md32_update f bs inp c) = Nl c + push_bit 3 (word_of_nat (length inp))"
    "Nh (crypto_md32_update f bs inp c) =
      (if Nl c + push_bit 3 (word_of_nat (length inp)) < Nl c then Nh c + 1 else Nh c) + word_of_nat (length inp div 2 ^ 29)"
    using False by (simp_all add: crypto_md32_update_def Let_def)
  then show ?thesis using count_step_32[OF assms[unfolded ctx_count_def]] by (simp add: ctx_count_def)
qed (use assms in \<open>simp add: crypto_md32_update_def\<close>)

text \<open>Any sequence of updates and the final call.\<close>

lemma stream_ok:
  assumes "ctx_partial compress bs h0 c m" "ctx_count c m" "length h0 = k" "\<forall>p\<in>set ps. length p < SIZE_MOD"
  shows "ctx_partial compress bs h0 (foldl (\<lambda>c p. crypto_md32_update block_func bs p c) c ps) (m @ concat ps) \<and>
    ctx_count (foldl (\<lambda>c p. crypto_md32_update block_func bs p c) c ps) (m @ concat ps)"
  using assms
proof (induction ps arbitrary: c m)
  case (Cons p ps)
  then show ?case
    using update_partial[OF Cons.prems(1,3), of p] update_count[OF Cons.prems(2), of block_func p]
      Cons.IH[of "crypto_md32_update block_func bs p c" "m @ p"] by simp
qed simp

lemma stream_hash:
  assumes "md_h c = h0" "md_num c = 0" "length (md_data c) = bs" "Nl c = 0" "Nh c = 0" "length h0 = k"
    "\<forall>p\<in>set ps. length p < SIZE_MOD"
  shows "md_h (crypto_md32_final block_func bs be (foldl (\<lambda>c p. crypto_md32_update block_func bs p c) c ps)) =
    fold_blocks compress bs h0 (md32_pad bs be (concat ps))"
proof -
  have "ctx_partial compress bs h0 c []" "ctx_count c []"
    using assms(1-5) bs_pos by (simp_all add: ctx_partial_def ctx_count_def fold_blocks_def rest_def)
  from stream_ok[OF this assms(6,7)] show ?thesis by (simp add: final_partial(1) assms(6))
qed

end

end
