(* ===== verification/Sha256.thy ===== *)
theory Sha256
  imports Rounds Md32
begin

text \<open>SHA-224 and SHA-256: \<open>fipsmodule/sha/sha256.c\<close>.  The block function keeps its message schedule
  in sixteen words and shifts the roles of its eight variables instead of moving them; it is proved to
  fold the compression function of FIPS 180-4, and so the stream interface hashes what it was given.\<close>

section \<open>Model\<close>

text \<open>\<open>SHA256_CTX\<close>.\<close>

record sha256_ctx = md32_ctx +
  md_len :: nat

definition SHA256_CBLOCK :: nat where "SHA256_CBLOCK = 64"
definition SHA224_DIGEST_LENGTH :: nat where "SHA224_DIGEST_LENGTH = 28"
definition SHA256_DIGEST_LENGTH :: nat where "SHA256_DIGEST_LENGTH = 32"

definition SHA224_Init :: "sha256_ctx" where
  "SHA224_Init =
     \<lparr>md_h = [0xc1059ed8, 0x367cd507, 0x3070dd17, 0xf70e5939, 0xffc00b31, 0x68581511, 0x64f98fa7, 0xbefa4fa4],
      Nl = 0, Nh = 0, md_data = replicate SHA256_CBLOCK 0, md_num = 0, md_len = SHA224_DIGEST_LENGTH\<rparr>"

definition SHA256_Init :: "sha256_ctx" where
  "SHA256_Init =
     \<lparr>md_h = [0x6a09e667, 0xbb67ae85, 0x3c6ef372, 0xa54ff53a, 0x510e527f, 0x9b05688c, 0x1f83d9ab, 0x5be0cd19],
      Nl = 0, Nh = 0, md_data = replicate SHA256_CBLOCK 0, md_num = 0, md_len = SHA256_DIGEST_LENGTH\<rparr>"

definition K256 :: "u32 list" where
  "K256 = concat
      [[0x428a2f98, 0x71374491, 0xb5c0fbcf, 0xe9b5dba5, 0x3956c25b],
       [0x59f111f1, 0x923f82a4, 0xab1c5ed5, 0xd807aa98, 0x12835b01],
       [0x243185be, 0x550c7dc3, 0x72be5d74, 0x80deb1fe, 0x9bdc06a7],
       [0xc19bf174, 0xe49b69c1, 0xefbe4786, 0x0fc19dc6, 0x240ca1cc],
       [0x2de92c6f, 0x4a7484aa, 0x5cb0a9dc, 0x76f988da, 0x983e5152],
       [0xa831c66d, 0xb00327c8, 0xbf597fc7, 0xc6e00bf3, 0xd5a79147],
       [0x06ca6351, 0x14292967, 0x27b70a85, 0x2e1b2138, 0x4d2c6dfc],
       [0x53380d13, 0x650a7354, 0x766a0abb, 0x81c2c92e, 0x92722c85],
       [0xa2bfe8a1, 0xa81a664b, 0xc24b8b70, 0xc76c51a3, 0xd192e819],
       [0xd6990624, 0xf40e3585, 0x106aa070, 0x19a4c116, 0x1e376c08],
       [0x2748774c, 0x34b0bcb5, 0x391c0cb3, 0x4ed8aa4a, 0x5b9cca4f],
       [0x682e6ff3, 0x748f82ee, 0x78a5636f, 0x84c87814, 0x8cc70208],
       [0x90befffa, 0xa4506ceb, 0xbef9a3f7, 0xc67178f2]]"

definition sha256_Sigma0 :: "u32 \<Rightarrow> u32" where
  "sha256_Sigma0 x = CRYPTO_rotr_u32 x 2 XOR CRYPTO_rotr_u32 x 13 XOR CRYPTO_rotr_u32 x 22"
definition sha256_Sigma1 :: "u32 \<Rightarrow> u32" where
  "sha256_Sigma1 x = CRYPTO_rotr_u32 x 6 XOR CRYPTO_rotr_u32 x 11 XOR CRYPTO_rotr_u32 x 25"
definition sha256_sigma0 :: "u32 \<Rightarrow> u32" where
  "sha256_sigma0 x = CRYPTO_rotr_u32 x 7 XOR CRYPTO_rotr_u32 x 18 XOR drop_bit 3 x"
definition sha256_sigma1 :: "u32 \<Rightarrow> u32" where
  "sha256_sigma1 x = CRYPTO_rotr_u32 x 17 XOR CRYPTO_rotr_u32 x 19 XOR drop_bit 10 x"
definition sha256_Ch :: "u32 \<Rightarrow> u32 \<Rightarrow> u32 \<Rightarrow> u32" where
  "sha256_Ch x y z = (x AND y) XOR (NOT x AND z)"
definition sha256_Maj :: "u32 \<Rightarrow> u32 \<Rightarrow> u32 \<Rightarrow> u32" where
  "sha256_Maj x y z = (x AND y) XOR (x AND z) XOR (y AND z)"

text \<open>The macro \<open>ROUND_00_15\<close>, with \<open>T1\<close> as it is on entry and the parameters \<open>a\<close> to \<open>h\<close> as a list.\<close>

fun ROUND_00_15 :: "nat \<Rightarrow> u32 \<Rightarrow> u32 list \<Rightarrow> u32 list" where
  "ROUND_00_15 i T1 [a, b, c, d, e, f, g, h] =
     (let T1 = T1 + (h + sha256_Sigma1 e + sha256_Ch e f g + K256 ! i);
          h = sha256_Sigma0 a + sha256_Maj a b c;
          d = d + T1;
          h = h + T1
      in [a, b, c, d, e, f, g, h])"
| "ROUND_00_15 i T1 v = v"

text \<open>The calls pass the variables \<open>a\<close> to \<open>h\<close> (0 to 7) in these orders.\<close>

definition sha256_args :: "nat list list" where
  "sha256_args =
     [[0, 1, 2, 3, 4, 5, 6, 7],
      [7, 0, 1, 2, 3, 4, 5, 6],
      [6, 7, 0, 1, 2, 3, 4, 5],
      [5, 6, 7, 0, 1, 2, 3, 4],
      [4, 5, 6, 7, 0, 1, 2, 3],
      [3, 4, 5, 6, 7, 0, 1, 2],
      [2, 3, 4, 5, 6, 7, 0, 1],
      [1, 2, 3, 4, 5, 6, 7, 0]]"

text \<open>One of the first sixteen calls, with the load before it, and one call of \<open>ROUND_16_63\<close> with the
  argument order \<open>args\<close>.\<close>

definition sha256_load_round :: "bytes \<Rightarrow> u32 list \<times> u32 list \<Rightarrow> nat \<Rightarrow> u32 list \<times> u32 list" where
  "sha256_load_round inp = (\<lambda>(v, X) i.
     let T1 = CRYPTO_load_u32_be (drop (4 * i) inp)
     in (with_regs (sha256_args ! (i mod 8)) (ROUND_00_15 i T1) v, X[i := T1]))"

definition ROUND_16_63 :: "nat \<Rightarrow> nat list \<Rightarrow> u32 list \<times> u32 list \<Rightarrow> u32 list \<times> u32 list" where
  "ROUND_16_63 i args = (\<lambda>(v, X).
     let s0 = sha256_sigma0 (X ! ((i + 1) AND 0x0f));
         s1 = sha256_sigma1 (X ! ((i + 14) AND 0x0f));
         T1 = X ! (i AND 0x0f) + (s0 + s1 + X ! ((i + 9) AND 0x0f))
     in (with_regs args (ROUND_00_15 i T1) v, X[i AND 0x0f := T1]))"

primrec sha256_block_data_order :: md32_block_func where
  "sha256_block_data_order state inp 0 = state"
| "sha256_block_data_order state inp (Suc n) =
     (let vX = foldl (sha256_load_round inp) (state, replicate 16 0) [0..<16];
          vX = foldl (\<lambda>vX i. foldl (\<lambda>vX j. ROUND_16_63 (i + j) (sha256_args ! j) vX) vX [0..<8]) vX
                 [16, 24, 32, 40, 48, 56]
      in sha256_block_data_order (map2 (+) state (fst vX)) (drop 64 inp) n)"

definition SHA256_Transform :: "sha256_ctx \<Rightarrow> bytes \<Rightarrow> sha256_ctx" where
  "SHA256_Transform c inp = c\<lparr>md_h := sha256_block_data_order (md_h c) inp 1\<rparr>"

definition SHA256_TransformBlocks :: "u32 list \<Rightarrow> bytes \<Rightarrow> nat \<Rightarrow> u32 list" where
  "SHA256_TransformBlocks state inp num_blocks = sha256_block_data_order state inp num_blocks"

definition SHA256_Update :: "sha256_ctx \<Rightarrow> bytes \<Rightarrow> sha256_ctx" where
  "SHA256_Update c inp = crypto_md32_update sha256_block_data_order SHA256_CBLOCK inp c"

definition SHA224_Update :: "sha256_ctx \<Rightarrow> bytes \<Rightarrow> sha256_ctx" where
  "SHA224_Update c inp = SHA256_Update c inp"

text \<open>The result: the bytes written, none when the call fails.\<close>

definition sha256_final_impl :: "sha256_ctx \<Rightarrow> bytes option \<times> sha256_ctx" where
  "sha256_final_impl c =
     (let c = crypto_md32_final sha256_block_data_order SHA256_CBLOCK True c
      in if md_len c > SHA256_DIGEST_LENGTH then (None, c)
         else (Some (concat (map (\<lambda>i. CRYPTO_store_u32_be (md_h c ! i)) [0..<md_len c div 4])), c))"

definition SHA256_Final :: "sha256_ctx \<Rightarrow> bytes option \<times> sha256_ctx" where
  "SHA256_Final c = sha256_final_impl c"

definition SHA224_Final :: "sha256_ctx \<Rightarrow> bytes option \<times> sha256_ctx" where
  "SHA224_Final c = sha256_final_impl c"

definition SHA224 :: "bytes \<Rightarrow> bytes option" where
  "SHA224 inp = fst (SHA224_Final (SHA224_Update SHA224_Init inp))"

definition SHA256 :: "bytes \<Rightarrow> bytes option" where
  "SHA256 inp = fst (SHA256_Final (SHA256_Update SHA256_Init inp))"

section \<open>FIPS 180-4\<close>

definition fips_Sigma0 :: "u32 \<Rightarrow> u32" where
  "fips_Sigma0 x = word_rotr 2 x XOR word_rotr 13 x XOR word_rotr 22 x"
definition fips_Sigma1 :: "u32 \<Rightarrow> u32" where
  "fips_Sigma1 x = word_rotr 6 x XOR word_rotr 11 x XOR word_rotr 25 x"
definition fips_sigma0 :: "u32 \<Rightarrow> u32" where
  "fips_sigma0 x = word_rotr 7 x XOR word_rotr 18 x XOR drop_bit 3 x"
definition fips_sigma1 :: "u32 \<Rightarrow> u32" where
  "fips_sigma1 x = word_rotr 17 x XOR word_rotr 19 x XOR drop_bit 10 x"

definition fips_schedule :: "bytes \<Rightarrow> u32 list" where
  "fips_schedule b = schedule (\<lambda>W. fips_sigma1 (W ! (length W - 2)) + W ! (length W - 7) +
      fips_sigma0 (W ! (length W - 15)) + W ! (length W - 16)) 48 (be_words b)"

fun fips_round :: "u32 list \<Rightarrow> nat \<Rightarrow> u32 list \<Rightarrow> u32 list" where
  "fips_round W t [a, b, c, d, e, f, g, h] =
     (let T1 = h + fips_Sigma1 e + ((e AND f) XOR (NOT e AND g)) + K256 ! t + W ! t;
          T2 = fips_Sigma0 a + ((a AND b) XOR (a AND c) XOR (b AND c))
      in [T1 + T2, a, b, c, d + T1, e, f, g])"
| "fips_round W t v = v"

definition sha256_compress :: "u32 list \<Rightarrow> bytes \<Rightarrow> u32 list" where
  "sha256_compress H b = map2 (+) H (foldl (\<lambda>s t. fips_round (fips_schedule b) t s) H [0..<64])"

definition fips_hash :: "u32 list \<Rightarrow> bytes \<Rightarrow> u32 list" where
  "fips_hash H m = fold_blocks sha256_compress 64 H (md32_pad 64 True m)"

section \<open>The block function\<close>

lemma rot_simps:
  "sha256_Sigma0 x = fips_Sigma0 x" "sha256_Sigma1 x = fips_Sigma1 x"
  "sha256_sigma0 x = fips_sigma0 x" "sha256_sigma1 x = fips_sigma1 x"
  by (simp_all add: CRYPTO_rotr_u32_eq sha256_Sigma0_def sha256_Sigma1_def sha256_sigma0_def sha256_sigma1_def
      fips_Sigma0_def fips_Sigma1_def fips_sigma0_def fips_sigma1_def)

lemma ROUND_00_15_step:
  assumes "length s = 8" "T1 = W ! t"
  shows "length (ROUND_00_15 t T1 s) = 8 \<and> shift_right (ROUND_00_15 t T1 s) = fips_round W t s"
proof -
  obtain a b c d e f g h where "s = [a, b, c, d, e, f, g, h]" using assms(1) by (rule length_cases_8)
  then show ?thesis
    by (simp add: assms(2) shift_right_def Let_def rot_simps sha256_Ch_def sha256_Maj_def ac_simps)
qed

lemma length_fips_round: "length s = 8 \<Longrightarrow> length (fips_round W t s) = 8"
  by (elim length_cases_8) (simp add: Let_def)

lemma sha256_args_nth:
  assumes "j < 8"
  shows "sha256_args ! j = rotated_args 8 j"
proof -
  have "sha256_args = map (rotated_args 8) [0..<8]" by (simp add: sha256_args_def rotated_args_def upt_rec)
  then have "sha256_args ! j = map (rotated_args 8) [0..<8] ! j" by (simp only:)
  also have "\<dots> = rotated_args 8 j" using assms by (simp del: upt_rec_numeral)
  finally show ?thesis .
qed

lemma fips_schedule_load:
  assumes "64 \<le> length m" "t < 16"
  shows "fips_schedule (take 64 m) ! t = CRYPTO_load_u32_be (drop (4 * t) m)"
  unfolding fips_schedule_def using assms words_nth(1)[of 64 m t] by (subst schedule_nth_old) simp_all

lemma fips_schedule_nth:
  assumes "length b = 64" "16 \<le> t" "t < 64"
  defines "W \<equiv> fips_schedule b"
  shows "W ! t = fips_sigma1 (W ! (t - 2)) + W ! (t - 7) + fips_sigma0 (W ! (t - 15)) + W ! (t - 16)"
proof -
  let ?f = "\<lambda>W. fips_sigma1 (W ! (length W - 2)) + W ! (length W - 7) + fips_sigma0 (W ! (length W - 15)) + W ! (length W - 16)"
  have l: "length (be_words b) = 16" "length W = 64" using assms by (simp_all add: fips_schedule_def)
  have "W ! (16 + (t - 16)) = ?f (take (16 + (t - 16)) W)"
    using schedule_nth[of "t - 16" 48 ?f "be_words b"] assms(2,3) l by (simp add: W_def fips_schedule_def)
  then show ?thesis using assms(2,3) l by simp
qed

text \<open>The optimised rounds are the rounds of the standard.\<close>

abbreviation at256 where "at256 W \<equiv> at_round (fips_round W) W"

lemma sha256_call:
  assumes "at256 W s t (v, X)" "length s = 8" "r = rotated_args 8 t"
  shows "at256 W s (Suc t) (with_regs r (ROUND_00_15 t (W ! t)) v, X[t mod 16 := W ! t])"
  using assms(1) window_step[of X W t]
    regs_at_step[OF _ assms(2) _ assms(3), of "fips_round W" v "ROUND_00_15 t (W ! t)"]
  by (simp add: at_round_def length_fips_round ROUND_00_15_step)

lemma sha256_load_round_step:
  assumes "at256 W s t vX" "length s = 8" "t < 16" "W ! t = CRYPTO_load_u32_be (drop (4 * t) m)"
  shows "at256 W s (Suc t) (sha256_load_round m vX t)"
  using sha256_call[OF _ assms(2), of W t "fst vX" "snd vX" "sha256_args ! (t mod 8)"] assms
  by (cases vX) (simp add: sha256_load_round_def sha256_args_nth rotated_args_mod Let_def)

lemma ROUND_16_63_step:
  assumes "at256 W s t (v, X)" "length s = 8" "16 \<le> t" "r = rotated_args 8 t"
    and w: "W ! t = fips_sigma1 (W ! (t - 2)) + W ! (t - 7) + fips_sigma0 (W ! (t - 15)) + W ! (t - 16)"
  shows "at256 W s (Suc t) (ROUND_16_63 t r (v, X))"
proof -
  have win: "X ! ((t + d) mod 16) = W ! (t + d - 16)" if "d < 16" for d
    using assms(1) window_nth[OF _ assms(3) that, of X W] by (simp add: at_round_def)
  have T: "X ! (t AND 0x0f) + (sha256_sigma0 (X ! ((t + 1) AND 0x0f)) + sha256_sigma1 (X ! ((t + 14) AND 0x0f)) +
      X ! ((t + 9) AND 0x0f)) = W ! t"
  proof -
    have "X ! (t mod 16) = W ! (t - 16)" "X ! ((t + 1) mod 16) = W ! (t - 15)" "X ! ((t + 14) mod 16) = W ! (t - 2)"
      "X ! ((t + 9) mod 16) = W ! (t - 7)"
      using win[of 0] win[of 1] win[of 14] win[of 9] assms(3) by simp_all
    then show ?thesis by (simp only: and_15 rot_simps w add_ac)
  qed
  show ?thesis
    using sha256_call[OF assms(1,2,4)] by (simp only: ROUND_16_63_def prod.case Let_def T) (simp only: and_15)
qed

lemma sha256_block_one:
  assumes "length h = 8" "64 \<le> length m"
  shows "sha256_block_data_order h m (Suc n) = sha256_block_data_order (sha256_compress h (take 64 m)) (drop 64 m) n"
proof -
  let ?W = "fips_schedule (take 64 m)"
  let ?a = "foldl (sha256_load_round m) (h, replicate 16 0) [0..<16]"
  have a: "at256 ?W h 16 ?a"
    by (rule rounds_upt) (use assms in \<open>simp_all add: at_round_0 sha256_load_round_step fips_schedule_load\<close>)
  have r: "at256 ?W h (i + 8) (foldl (\<lambda>vX j. ROUND_16_63 (i + j) (sha256_args ! j) vX) vX [0..<8])"
    if "at256 ?W h i vX" "16 \<le> i" "i \<le> 56" "i mod 8 = 0" for i vX
  proof (rule rounds_upt[where P = "\<lambda>j. at256 ?W h (i + j)"])
    fix j x assume j: "j < 8" "at256 ?W h (i + j) x"
    have "rotated_args 8 (i + j) = sha256_args ! j"
      using j(1) that(4) rotated_args_mod[of 8 "i + j"] sha256_args_nth[of j] by (simp add: mod_add_eq[of i 8 j, symmetric])
    then show "at256 ?W h (i + Suc j) (ROUND_16_63 (i + j) (sha256_args ! j) x)"
      using ROUND_16_63_step[of ?W h "i + j" "fst x" "snd x" "sha256_args ! j"] assms(1) fips_schedule_nth[of "take 64 m" "i + j"] that j assms(2)
      by simp
  qed (use that in simp_all)
  let ?b = "foldl (\<lambda>vX i. foldl (\<lambda>vX j. ROUND_16_63 (i + j) (sha256_args ! j) vX) vX [0..<8]) ?a [16, 24, 32, 40, 48, 56]"
  have "at256 ?W h (56 + 8) ?b"
    unfolding foldl.simps
    by (intro r) (use r[OF r[OF r[OF r[OF r[OF a]]]]] in simp_all)
  then have "fst ?b = foldl (\<lambda>s t. fips_round ?W t s) h [0..<64]"
    using regs_at_end[of "fips_round ?W" h 64 "fst ?b" 8] assms(1) by (simp add: at_round_def length_fips_round)
  then show ?thesis by (simp only: sha256_block_data_order.simps Let_def sha256_compress_def)
qed

lemma sha256_block:
  "length h = 8 \<Longrightarrow> n * 64 \<le> length m \<Longrightarrow> sha256_block_data_order h m n = compress_blocks sha256_compress 64 m n h"
proof (induction n arbitrary: h m)
  case (Suc n)
  have "length (sha256_compress h (take 64 m)) = 8"
    using length_rounds[of 8 "fips_round (fips_schedule (take 64 m))" h] Suc.prems(1)
    by (simp add: sha256_compress_def length_fips_round)
  then show ?case using Suc sha256_block_one[of h m n] by simp
qed simp

interpretation sha256: md32_hash sha256_block_data_order sha256_compress 64 8
proof unfold_locales
  show "length (sha256_compress h b) = 8" if "length h = 8" for h b
    using length_rounds[of 8 "fips_round (fips_schedule b)" h] that by (simp add: sha256_compress_def length_fips_round)
qed (simp_all add: sha256_block)

section \<open>The stream\<close>

lemma SHA256_Update_fold:
  "foldl SHA256_Update c ps = foldl (\<lambda>c p. crypto_md32_update sha256_block_data_order 64 p c) c ps"
  by (induction ps arbitrary: c) (simp_all add: SHA256_Update_def SHA256_CBLOCK_def)

lemma md_len_update: "md_len (foldl SHA256_Update c ps) = md_len c"
  by (induction ps arbitrary: c)
     (simp_all add: SHA256_Update_def crypto_md32_update_def md32_blocks_def Let_def split: if_splits)

lemma sha256_final_impl_digest:
  assumes "md_h (crypto_md32_final sha256_block_data_order 64 True c) = ws" "length ws = 8" "md_len c \<le> 32"
  shows "fst (sha256_final_impl c) = Some (be_digest (take (md_len c div 4) ws))"
proof -
  have "md_len (crypto_md32_final sha256_block_data_order 64 True c) = md_len c"
    by (simp add: crypto_md32_final_def Let_def split: prod.splits)
  then show ?thesis
    using assms stored_words[of "md_len c div 4" ws]
    by (simp add: sha256_final_impl_def SHA256_CBLOCK_def SHA256_DIGEST_LENGTH_def Let_def)
qed

lemma sha256_stream_final:
  assumes "\<forall>p\<in>set ps. length p < SIZE_MOD" "c = SHA256_Init \<or> c = SHA224_Init"
  shows "fst (sha256_final_impl (foldl SHA256_Update c ps)) =
    Some (be_digest (take (md_len c div 4) (fips_hash (md_h c) (concat ps))))"
proof -
  have l: "length (md_h c) = 8" "md_len c \<le> 32"
    using assms(2) by (auto simp: SHA256_Init_def SHA224_Init_def SHA256_DIGEST_LENGTH_def SHA224_DIGEST_LENGTH_def)
  have "md_h (crypto_md32_final sha256_block_data_order 64 True (foldl SHA256_Update c ps)) = fips_hash (md_h c) (concat ps)"
    unfolding SHA256_Update_fold fips_hash_def
    by (rule sha256.stream_hash) (use assms in \<open>auto simp: SHA256_Init_def SHA224_Init_def SHA256_CBLOCK_def\<close>)
  from sha256_final_impl_digest[OF this] show ?thesis
    using l sha256.length_fold_blocks[OF l(1)] by (simp add: md_len_update fips_hash_def)
qed

text \<open>C27: SHA-256 and SHA-224 are the hash functions of FIPS 180-4, and hash a stream: whatever the
  pieces in which a message is passed to \<open>SHA256_Update\<close>, the bytes that \<open>SHA256_Final\<close> writes are the
  big-endian chaining value (for SHA-224 its first seven words) after folding the standard's compression
  function, with its 64-word schedule, over the padded message.\<close>

theorem SHA256_stream_correct:
  assumes "\<forall>p\<in>set ps. length p < SIZE_MOD"
  shows "fst (SHA256_Final (foldl SHA256_Update SHA256_Init ps)) = Some (be_digest (fips_hash (md_h SHA256_Init) (concat ps))) \<and>
    fst (SHA224_Final (foldl SHA224_Update SHA224_Init ps)) = Some (be_digest (take 7 (fips_hash (md_h SHA224_Init) (concat ps))))"
proof
  have u: "SHA224_Update = SHA256_Update" by (intro ext) (simp add: SHA224_Update_def)
  have "length (fips_hash (md_h SHA256_Init) (concat ps)) = 8"
    unfolding fips_hash_def by (rule sha256.length_fold_blocks) (simp add: SHA256_Init_def)
  moreover have "md_len SHA256_Init div 4 = 8" by (simp add: SHA256_Init_def SHA256_DIGEST_LENGTH_def)
  ultimately show "fst (SHA256_Final (foldl SHA256_Update SHA256_Init ps)) = Some (be_digest (fips_hash (md_h SHA256_Init) (concat ps)))"
    using sha256_stream_final[OF assms, of SHA256_Init] by (simp add: SHA256_Final_def)
  have "md_len SHA224_Init div 4 = 7" by (simp add: SHA224_Init_def SHA224_DIGEST_LENGTH_def)
  then show "fst (SHA224_Final (foldl SHA224_Update SHA224_Init ps)) = Some (be_digest (take 7 (fips_hash (md_h SHA224_Init) (concat ps))))"
    using sha256_stream_final[OF assms, of SHA224_Init] by (simp add: SHA224_Final_def u)
qed

theorem SHA256_stream_correct_witness:
  "fst (SHA256_Final (foldl SHA256_Update SHA256_Init [[0x61], [], [0x62, 0x63]])) =
     Some (be_digest (fips_hash (md_h SHA256_Init) [0x61, 0x62, 0x63])) \<and>
   fst (SHA224_Final (foldl SHA224_Update SHA224_Init [[0x61], [], [0x62, 0x63]])) =
     Some (be_digest (take 7 (fips_hash (md_h SHA224_Init) [0x61, 0x62, 0x63])))"
  using SHA256_stream_correct[of "[[0x61], [], [0x62, 0x63]]"] by simp

text \<open>The round constants and the initial values are the digits of cube and square roots that the
  standard gives as their origin; SHA-224 starts with the second 32 bits of the square roots of the
  next eight primes.\<close>

lemma sha256_constants:
  "list_all2 (\<lambda>p w. frac_root 32 3 p (unat w)) (take 64 first_primes) K256"
  "list_all2 (\<lambda>p w. frac_root 32 2 p (unat w)) (take 8 first_primes) (md_h SHA256_Init)"
  by (simp_all add: first_primes_def K256_def SHA256_Init_def frac_root_def int_root_def)

end
