(* ===== verification/Sha1.thy ===== *)
theory Sha1
  imports Rounds Md32
begin

text \<open>SHA-1: \<open>fipsmodule/sha/sha1.c\<close>.  The table of calls is the text of the block function, call by call;
  it is proved to be the rounds of FIPS 180-4 with a shifted order of the variables.\<close>

section \<open>Model\<close>

text \<open>\<open>SHA_CTX\<close> has no field of its own beside those of the collector.\<close>

type_synonym sha_ctx = "md32_ctx"

definition SHA_CBLOCK :: nat where "SHA_CBLOCK = 64"

definition SHA1_Init :: "sha_ctx" where
  "SHA1_Init =
     \<lparr>md_h = [0x67452301, 0xefcdab89, 0x98badcfe, 0x10325476, 0xc3d2e1f0],
      Nl = 0, Nh = 0, md_data = replicate SHA_CBLOCK 0, md_num = 0\<rparr>"

definition K_00_19 :: u32 where "K_00_19 = 0x5a827999"
definition K_20_39 :: u32 where "K_20_39 = 0x6ed9eba1"
definition K_40_59 :: u32 where "K_40_59 = 0x8f1bbcdc"
definition K_60_79 :: u32 where "K_60_79 = 0xca62c1d6"

definition F_00_19 :: "u32 \<Rightarrow> u32 \<Rightarrow> u32 \<Rightarrow> u32" where
  "F_00_19 b c d = ((c XOR d) AND b) XOR d"
definition F_20_39 :: "u32 \<Rightarrow> u32 \<Rightarrow> u32 \<Rightarrow> u32" where
  "F_20_39 b c d = b XOR c XOR d"
definition F_40_59 :: "u32 \<Rightarrow> u32 \<Rightarrow> u32 \<Rightarrow> u32" where
  "F_40_59 b c d = (b AND c) OR ((b OR c) AND d)"
definition F_60_79 :: "u32 \<Rightarrow> u32 \<Rightarrow> u32 \<Rightarrow> u32" where
  "F_60_79 b c d = F_20_39 b c d"

text \<open>The word that \<open>Xupdate\<close> makes from the words \<open>ia\<close> to \<open>id\<close> of the buffer.\<close>

definition Xupdate :: "u32 list \<Rightarrow> nat \<Rightarrow> nat \<Rightarrow> nat \<Rightarrow> nat \<Rightarrow> u32" where
  "Xupdate X ia ib ic i_d = CRYPTO_rotl_u32 (X ! ia XOR X ! ib XOR X ! ic XOR X ! i_d) 1"

text \<open>What the \<open>BODY\<close> macros do to the variables that they are called with: \<open>x\<close> is the word of the
  schedule, and \<open>a\<close> to \<open>f\<close> are the parameters.\<close>

fun sha1_mix :: "(u32 \<Rightarrow> u32 \<Rightarrow> u32 \<Rightarrow> u32) \<Rightarrow> u32 \<Rightarrow> u32 \<Rightarrow> u32 list \<Rightarrow> u32 list" where
  "sha1_mix F K x [a, b, c, d, e, f] =
     (let f = x + e + K + CRYPTO_rotl_u32 a 5 + F b c d;
          b = CRYPTO_rotl_u32 b 30
      in [a, b, c, d, e, f])"
| "sha1_mix F K x v = v"

text \<open>The calls, with the numbers of the registers \<open>A\<close> to \<open>E\<close> and \<open>T\<close> (0 to 5) for the parameters
  \<open>a\<close> to \<open>f\<close> and those of the words \<open>XX0\<close> to \<open>XX15\<close> for the rest.\<close>

datatype sha1_call =
    BODY_00_15 nat "nat list" nat
  | BODY_16_19 nat "nat list" nat nat nat nat nat
  | BODY_20_31 nat "nat list" nat nat nat nat nat
  | BODY_32_39 nat "nat list" nat nat nat nat
  | BODY_40_59 nat "nat list" nat nat nat nat
  | BODY_60_79 nat "nat list" nat nat nat nat

fun sha1_body :: "sha1_call \<Rightarrow> u32 list \<times> u32 list \<Rightarrow> u32 list \<times> u32 list" where
  "sha1_body (BODY_00_15 i r xi) (v, X) = (with_regs r (sha1_mix F_00_19 K_00_19 (X ! xi)) v, X)"
| "sha1_body (BODY_16_19 i r xi xa xb xc xd) (v, X) =
     (let x = Xupdate X xa xb xc xd in (with_regs r (sha1_mix F_00_19 K_00_19 x) v, X[xi := x]))"
| "sha1_body (BODY_20_31 i r xi xa xb xc xd) (v, X) =
     (let x = Xupdate X xa xb xc xd in (with_regs r (sha1_mix F_20_39 K_20_39 x) v, X[xi := x]))"
| "sha1_body (BODY_32_39 i r xa xb xc xd) (v, X) =
     (let x = Xupdate X xa xb xc xd in (with_regs r (sha1_mix F_20_39 K_20_39 x) v, X[xa := x]))"
| "sha1_body (BODY_40_59 i r xa xb xc xd) (v, X) =
     (let x = Xupdate X xa xb xc xd in (with_regs r (sha1_mix F_40_59 K_40_59 x) v, X[xa := x]))"
| "sha1_body (BODY_60_79 i r xa xb xc xd) (v, X) =
     (let x = Xupdate X xa xb xc xd in (with_regs r (sha1_mix F_60_79 K_60_79 x) v, X[xa := x]))"

definition sha1_calls :: "sha1_call list" where
  "sha1_calls =
    [BODY_00_15 0 [0, 1, 2, 3, 4, 5] 0,
     BODY_00_15 1 [5, 0, 1, 2, 3, 4] 1,
     BODY_00_15 2 [4, 5, 0, 1, 2, 3] 2,
     BODY_00_15 3 [3, 4, 5, 0, 1, 2] 3,
     BODY_00_15 4 [2, 3, 4, 5, 0, 1] 4,
     BODY_00_15 5 [1, 2, 3, 4, 5, 0] 5,
     BODY_00_15 6 [0, 1, 2, 3, 4, 5] 6,
     BODY_00_15 7 [5, 0, 1, 2, 3, 4] 7,
     BODY_00_15 8 [4, 5, 0, 1, 2, 3] 8,
     BODY_00_15 9 [3, 4, 5, 0, 1, 2] 9,
     BODY_00_15 10 [2, 3, 4, 5, 0, 1] 10,
     BODY_00_15 11 [1, 2, 3, 4, 5, 0] 11,
     BODY_00_15 12 [0, 1, 2, 3, 4, 5] 12,
     BODY_00_15 13 [5, 0, 1, 2, 3, 4] 13,
     BODY_00_15 14 [4, 5, 0, 1, 2, 3] 14,
     BODY_00_15 15 [3, 4, 5, 0, 1, 2] 15,
     BODY_16_19 16 [2, 3, 4, 5, 0, 1] 0 0 2 8 13,
     BODY_16_19 17 [1, 2, 3, 4, 5, 0] 1 1 3 9 14,
     BODY_16_19 18 [0, 1, 2, 3, 4, 5] 2 2 4 10 15,
     BODY_16_19 19 [5, 0, 1, 2, 3, 4] 3 3 5 11 0,
     BODY_20_31 20 [4, 5, 0, 1, 2, 3] 4 4 6 12 1,
     BODY_20_31 21 [3, 4, 5, 0, 1, 2] 5 5 7 13 2,
     BODY_20_31 22 [2, 3, 4, 5, 0, 1] 6 6 8 14 3,
     BODY_20_31 23 [1, 2, 3, 4, 5, 0] 7 7 9 15 4,
     BODY_20_31 24 [0, 1, 2, 3, 4, 5] 8 8 10 0 5,
     BODY_20_31 25 [5, 0, 1, 2, 3, 4] 9 9 11 1 6,
     BODY_20_31 26 [4, 5, 0, 1, 2, 3] 10 10 12 2 7,
     BODY_20_31 27 [3, 4, 5, 0, 1, 2] 11 11 13 3 8,
     BODY_20_31 28 [2, 3, 4, 5, 0, 1] 12 12 14 4 9,
     BODY_20_31 29 [1, 2, 3, 4, 5, 0] 13 13 15 5 10,
     BODY_20_31 30 [0, 1, 2, 3, 4, 5] 14 14 0 6 11,
     BODY_20_31 31 [5, 0, 1, 2, 3, 4] 15 15 1 7 12,
     BODY_32_39 32 [4, 5, 0, 1, 2, 3] 0 2 8 13,
     BODY_32_39 33 [3, 4, 5, 0, 1, 2] 1 3 9 14,
     BODY_32_39 34 [2, 3, 4, 5, 0, 1] 2 4 10 15,
     BODY_32_39 35 [1, 2, 3, 4, 5, 0] 3 5 11 0,
     BODY_32_39 36 [0, 1, 2, 3, 4, 5] 4 6 12 1,
     BODY_32_39 37 [5, 0, 1, 2, 3, 4] 5 7 13 2,
     BODY_32_39 38 [4, 5, 0, 1, 2, 3] 6 8 14 3,
     BODY_32_39 39 [3, 4, 5, 0, 1, 2] 7 9 15 4,
     BODY_40_59 40 [2, 3, 4, 5, 0, 1] 8 10 0 5,
     BODY_40_59 41 [1, 2, 3, 4, 5, 0] 9 11 1 6,
     BODY_40_59 42 [0, 1, 2, 3, 4, 5] 10 12 2 7,
     BODY_40_59 43 [5, 0, 1, 2, 3, 4] 11 13 3 8,
     BODY_40_59 44 [4, 5, 0, 1, 2, 3] 12 14 4 9,
     BODY_40_59 45 [3, 4, 5, 0, 1, 2] 13 15 5 10,
     BODY_40_59 46 [2, 3, 4, 5, 0, 1] 14 0 6 11,
     BODY_40_59 47 [1, 2, 3, 4, 5, 0] 15 1 7 12,
     BODY_40_59 48 [0, 1, 2, 3, 4, 5] 0 2 8 13,
     BODY_40_59 49 [5, 0, 1, 2, 3, 4] 1 3 9 14,
     BODY_40_59 50 [4, 5, 0, 1, 2, 3] 2 4 10 15,
     BODY_40_59 51 [3, 4, 5, 0, 1, 2] 3 5 11 0,
     BODY_40_59 52 [2, 3, 4, 5, 0, 1] 4 6 12 1,
     BODY_40_59 53 [1, 2, 3, 4, 5, 0] 5 7 13 2,
     BODY_40_59 54 [0, 1, 2, 3, 4, 5] 6 8 14 3,
     BODY_40_59 55 [5, 0, 1, 2, 3, 4] 7 9 15 4,
     BODY_40_59 56 [4, 5, 0, 1, 2, 3] 8 10 0 5,
     BODY_40_59 57 [3, 4, 5, 0, 1, 2] 9 11 1 6,
     BODY_40_59 58 [2, 3, 4, 5, 0, 1] 10 12 2 7,
     BODY_40_59 59 [1, 2, 3, 4, 5, 0] 11 13 3 8,
     BODY_60_79 60 [0, 1, 2, 3, 4, 5] 12 14 4 9,
     BODY_60_79 61 [5, 0, 1, 2, 3, 4] 13 15 5 10,
     BODY_60_79 62 [4, 5, 0, 1, 2, 3] 14 0 6 11,
     BODY_60_79 63 [3, 4, 5, 0, 1, 2] 15 1 7 12,
     BODY_60_79 64 [2, 3, 4, 5, 0, 1] 0 2 8 13,
     BODY_60_79 65 [1, 2, 3, 4, 5, 0] 1 3 9 14,
     BODY_60_79 66 [0, 1, 2, 3, 4, 5] 2 4 10 15,
     BODY_60_79 67 [5, 0, 1, 2, 3, 4] 3 5 11 0,
     BODY_60_79 68 [4, 5, 0, 1, 2, 3] 4 6 12 1,
     BODY_60_79 69 [3, 4, 5, 0, 1, 2] 5 7 13 2,
     BODY_60_79 70 [2, 3, 4, 5, 0, 1] 6 8 14 3,
     BODY_60_79 71 [1, 2, 3, 4, 5, 0] 7 9 15 4,
     BODY_60_79 72 [0, 1, 2, 3, 4, 5] 8 10 0 5,
     BODY_60_79 73 [5, 0, 1, 2, 3, 4] 9 11 1 6,
     BODY_60_79 74 [4, 5, 0, 1, 2, 3] 10 12 2 7,
     BODY_60_79 75 [3, 4, 5, 0, 1, 2] 11 13 3 8,
     BODY_60_79 76 [2, 3, 4, 5, 0, 1] 12 14 4 9,
     BODY_60_79 77 [1, 2, 3, 4, 5, 0] 13 15 5 10,
     BODY_60_79 78 [0, 1, 2, 3, 4, 5] 14 0 6 11,
     BODY_60_79 79 [5, 0, 1, 2, 3, 4] 15 1 7 12]"

text \<open>One block: the load of a word goes before the call that is one ahead of its use.  The function
  is never called for no block (the loop of the code tests its count after the first one).\<close>

definition sha1_step :: "bytes \<Rightarrow> u32 list \<times> u32 list \<Rightarrow> nat \<Rightarrow> u32 list \<times> u32 list" where
  "sha1_step inp = (\<lambda>(v, X) i. sha1_body (sha1_calls ! i) (v, load_ahead CRYPTO_load_u32_be inp i X))"

primrec sha1_block_data_order :: md32_block_func where
  "sha1_block_data_order state inp 0 = state"
| "sha1_block_data_order state inp (Suc n) =
     (let X = (replicate 16 0)[0 := CRYPTO_load_u32_be inp];
          v = fst (foldl (sha1_step inp) (state @ [0], X) [0..<80]);
          state = [state ! 0 + v ! 4, state ! 1 + v ! 5, state ! 2 + v ! 0, state ! 3 + v ! 1, state ! 4 + v ! 2]
      in sha1_block_data_order state (drop 64 inp) n)"

definition SHA1_Transform :: "sha_ctx \<Rightarrow> bytes \<Rightarrow> sha_ctx" where
  "SHA1_Transform c inp = c\<lparr>md_h := sha1_block_data_order (md_h c) inp 1\<rparr>"

definition SHA1_Update :: "sha_ctx \<Rightarrow> bytes \<Rightarrow> sha_ctx" where
  "SHA1_Update c inp = crypto_md32_update sha1_block_data_order SHA_CBLOCK inp c"

definition SHA1_Final :: "sha_ctx \<Rightarrow> bytes \<times> sha_ctx" where
  "SHA1_Final c =
     (let c = crypto_md32_final sha1_block_data_order SHA_CBLOCK True c
      in (CRYPTO_store_u32_be (md_h c ! 0) @ CRYPTO_store_u32_be (md_h c ! 1) @ CRYPTO_store_u32_be (md_h c ! 2) @
          CRYPTO_store_u32_be (md_h c ! 3) @ CRYPTO_store_u32_be (md_h c ! 4), c))"

definition SHA1 :: "bytes \<Rightarrow> bytes" where
  "SHA1 inp = fst (SHA1_Final (SHA1_Update SHA1_Init inp))"

section \<open>FIPS 180-4\<close>

definition fips1_schedule :: "bytes \<Rightarrow> u32 list" where
  "fips1_schedule b = schedule (\<lambda>W. word_rotl 1 (W ! (length W - 3) XOR W ! (length W - 8) XOR
      W ! (length W - 14) XOR W ! (length W - 16))) 64 (be_words b)"

definition fips1_f :: "nat \<Rightarrow> u32 \<Rightarrow> u32 \<Rightarrow> u32 \<Rightarrow> u32" where
  "fips1_f t x y z =
     (if t < 20 then (x AND y) XOR (NOT x AND z)
      else if t < 40 then x XOR y XOR z
      else if t < 60 then (x AND y) XOR (x AND z) XOR (y AND z)
      else x XOR y XOR z)"

definition fips1_K :: "nat \<Rightarrow> u32" where
  "fips1_K t = (if t < 20 then 0x5a827999 else if t < 40 then 0x6ed9eba1 else if t < 60 then 0x8f1bbcdc else 0xca62c1d6)"

fun fips1_round :: "u32 list \<Rightarrow> nat \<Rightarrow> u32 list \<Rightarrow> u32 list" where
  "fips1_round W t [a, b, c, d, e] =
     [word_rotl 5 a + fips1_f t b c d + e + fips1_K t + W ! t, a, word_rotl 30 b, c, d]"
| "fips1_round W t v = v"

definition sha1_compress :: "u32 list \<Rightarrow> bytes \<Rightarrow> u32 list" where
  "sha1_compress H b = map2 (+) H (foldl (\<lambda>s t. fips1_round (fips1_schedule b) t s) H [0..<80])"

definition sha1_hash :: "u32 list \<Rightarrow> bytes \<Rightarrow> u32 list" where
  "sha1_hash H m = fold_blocks sha1_compress 64 H (md32_pad 64 True m)"

section \<open>The block function\<close>

text \<open>The round on six registers: the sixth is the variable that the next call overwrites.\<close>

definition round6 :: "u32 list \<Rightarrow> nat \<Rightarrow> u32 list \<Rightarrow> u32 list" where
  "round6 W t s = fips1_round W t (take 5 s) @ [s ! 4]"

lemma length_fips1_round: "length s = 5 \<Longrightarrow> length (fips1_round W t s) = 5"
  by (elim length_cases_5) simp

lemma length_round6: "length s = 6 \<Longrightarrow> length (round6 W t s) = 6"
  by (simp add: round6_def length_fips1_round)

lemma take_rounds6:
  "length s = 6 \<Longrightarrow> take 5 (foldl (\<lambda>s t. round6 W t s) s ts) = foldl (\<lambda>s t. fips1_round W t s) (take 5 s) ts"
proof (induction ts arbitrary: s)
  case (Cons t ts)
  have "take 5 (round6 W t s) = fips1_round W t (take 5 s)"
    using Cons.prems length_fips1_round[of "take 5 s" W t] by (simp add: round6_def)
  then show ?case using Cons length_round6[of s W t] by simp
qed simp

lemma F_Ch: "F_00_19 b c d = (b AND c) XOR (NOT b AND d)"
  unfolding F_00_19_def by (rule bit_eqI) (auto simp: bit_simps)

lemma F_Maj: "F_40_59 b c d = (b AND c) XOR (b AND d) XOR (c AND d)"
  unfolding F_40_59_def by (rule bit_eqI) (auto simp: bit_simps)

lemma sha1_mix_round:
  assumes "length s = 6" "F = fips1_f t" "K = fips1_K t" "x = W ! t"
  shows "length (sha1_mix F K x s) = 6 \<and> shift_right (sha1_mix F K x s) = round6 W t s"
proof -
  obtain a b c d e f where "s = [a, b, c, d, e, f]" using assms(1) by (rule length_cases_6)
  then show ?thesis by (simp add: assms(2-) shift_right_def round6_def Let_def CRYPTO_rotl_u32_eq ac_simps)
qed

lemma sha1_mix_call:
  assumes "regs_at (round6 W) s t v" "length s = 6" "r = rotated_args 6 t" "F = fips1_f t" "K = fips1_K t" "x = W ! t"
  shows "regs_at (round6 W) s (Suc t) (with_regs r (sha1_mix F K x) v)"
  using regs_at_step[OF assms(1,2) _ assms(3)] sha1_mix_round[OF _ assms(4-6)] length_round6 by simp

lemma fips1_f_macros:
  "t < 20 \<Longrightarrow> fips1_f t = F_00_19 \<and> fips1_K t = K_00_19"
  "20 \<le> t \<Longrightarrow> t < 40 \<Longrightarrow> fips1_f t = F_20_39 \<and> fips1_K t = K_20_39"
  "40 \<le> t \<Longrightarrow> t < 60 \<Longrightarrow> fips1_f t = F_40_59 \<and> fips1_K t = K_40_59"
  "60 \<le> t \<Longrightarrow> fips1_f t = F_60_79 \<and> fips1_K t = K_60_79"
  by (auto simp: fun_eq_iff fips1_f_def fips1_K_def F_Ch F_Maj F_20_39_def F_60_79_def
      K_00_19_def K_20_39_def K_40_59_def K_60_79_def)

text \<open>The call of round \<open>t\<close>.\<close>

definition sha1_call_at :: "nat \<Rightarrow> sha1_call" where
  "sha1_call_at t =
     (let r = rotated_args 6 t; x = t mod 16; xb = (t + 2) mod 16; xc = (t + 8) mod 16; xd = (t + 13) mod 16
      in if t < 16 then BODY_00_15 t r t
         else if t < 20 then BODY_16_19 t r x x xb xc xd
         else if t < 32 then BODY_20_31 t r x x xb xc xd
         else if t < 40 then BODY_32_39 t r x xb xc xd
         else if t < 60 then BODY_40_59 t r x xb xc xd
         else BODY_60_79 t r x xb xc xd)"

lemma sha1_calls_nth:
  assumes "t < 80"
  shows "sha1_calls ! t = sha1_call_at t"
proof -
  have "sha1_calls = map sha1_call_at [0..<80]"
    by (simp add: sha1_calls_def sha1_call_at_def rotated_args_def upt_rec Let_def)
  then have "sha1_calls ! t = map sha1_call_at [0..<80] ! t" by (simp only:)
  also have "\<dots> = sha1_call_at t" using assms by (simp del: upt_rec_numeral)
  finally show ?thesis .
qed

lemma fips1_schedule_load:
  assumes "64 \<le> length m" "t < 16"
  shows "fips1_schedule (take 64 m) ! t = CRYPTO_load_u32_be (drop (4 * t) m)"
  unfolding fips1_schedule_def using assms words_nth(1)[of 64 m t] by (subst schedule_nth_old) simp_all

lemma fips1_schedule_nth:
  assumes "length b = 64" "16 \<le> t" "t < 80"
  defines "W \<equiv> fips1_schedule b"
  shows "W ! t = word_rotl 1 (W ! (t - 3) XOR W ! (t - 8) XOR W ! (t - 14) XOR W ! (t - 16))"
proof -
  let ?f = "\<lambda>W. word_rotl 1 (W ! (length W - 3) XOR W ! (length W - 8) XOR W ! (length W - 14) XOR W ! (length W - 16))"
  have l: "length (be_words b) = 16" "length W = 80" using assms by (simp_all add: fips1_schedule_def)
  have "W ! (16 + (t - 16)) = ?f (take (16 + (t - 16)) W)"
    using schedule_nth[of "t - 16" 64 ?f "be_words b"] assms(2,3) l by (simp add: W_def fips1_schedule_def)
  then show ?thesis using assms(2,3) l by simp
qed

lemma sha1_load_step:
  assumes "regs_at (round6 W) s t v" "loaded X W (Suc t)" "length s = 6" "t < 16"
    "\<And>i. i < 16 \<Longrightarrow> W ! i = CRYPTO_load_u32_be (drop (4 * i) m)"
  shows "regs_at (round6 W) s (Suc t) (fst (sha1_step m (v, X) t)) \<and> loaded (snd (sha1_step m (v, X) t)) W (Suc (Suc t))"
proof -
  let ?X = "load_ahead CRYPTO_load_u32_be m t X"
  have l: "loaded ?X W (Suc (Suc t))" using loaded_ahead[OF assms(2,5)] .
  have e: "sha1_step m (v, X) t = (with_regs (rotated_args 6 t) (sha1_mix F_00_19 K_00_19 (?X ! t)) v, ?X)"
    using assms(4) by (simp add: sha1_step_def sha1_calls_nth sha1_call_at_def Let_def)
  have "regs_at (round6 W) s (Suc t) (with_regs (rotated_args 6 t) (sha1_mix F_00_19 K_00_19 (?X ! t)) v)"
    by (rule sha1_mix_call[OF assms(1,3)]) (use assms(4) fips1_f_macros(1)[of t] loaded_nth[OF l, of t] in auto)
  then show ?thesis using e l by simp
qed

lemma sha1_update_step:
  assumes "regs_at (round6 W) s t v" "window X W t" "length s = 6" "16 \<le> t" "t < 80"
    "W ! t = word_rotl 1 (W ! (t - 3) XOR W ! (t - 8) XOR W ! (t - 14) XOR W ! (t - 16))"
  shows "regs_at (round6 W) s (Suc t) (fst (sha1_step m (v, X) t)) \<and> window (snd (sha1_step m (v, X) t)) W (Suc t)"
proof -
  let ?r = "rotated_args 6 t" let ?x = "W ! t"
  have win: "X ! ((t + d) mod 16) = W ! (t + d - 16)" if "d < 16" for d
    using window_nth[OF assms(2,4) that] .
  have x: "Xupdate X (t mod 16) ((t + 2) mod 16) ((t + 8) mod 16) ((t + 13) mod 16) = ?x"
  proof -
    have "X ! (t mod 16) = W ! (t - 16)" "X ! ((t + 2) mod 16) = W ! (t - 14)" "X ! ((t + 8) mod 16) = W ! (t - 8)"
      "X ! ((t + 13) mod 16) = W ! (t - 3)"
      using win[of 0] win[of 2] win[of 8] win[of 13] assms(4) by simp_all
    then show ?thesis unfolding Xupdate_def assms(6) by (simp add: CRYPTO_rotl_u32_eq ac_simps)
  qed
  consider "t < 20" | "20 \<le> t" "t < 40" | "40 \<le> t" "t < 60" | "60 \<le> t" using assms(4,5) by linarith
  then have e: "sha1_step m (v, X) t = (with_regs ?r (sha1_mix (fips1_f t) (fips1_K t) ?x) v, X[t mod 16 := ?x])"
    by cases (use assms(4,5) in \<open>simp_all add: sha1_step_def load_ahead_def sha1_calls_nth sha1_call_at_def Let_def x
      fips1_f_macros del: add_2_eq_Suc add_2_eq_Suc'\<close>)
  have "regs_at (round6 W) s (Suc t) (with_regs ?r (sha1_mix (fips1_f t) (fips1_K t) ?x) v)"
    by (rule sha1_mix_call[OF assms(1,3)]) simp_all
  then show ?thesis using e window_step[OF assms(2)] by simp
qed

lemma sha1_block_one:
  assumes "length h = 5" "64 \<le> length m"
  shows "sha1_block_data_order h m (Suc n) = sha1_block_data_order (sha1_compress h (take 64 m)) (drop 64 m) n"
proof -
  let ?W = "fips1_schedule (take 64 m)" let ?X = "(replicate 16 0)[0 := CRYPTO_load_u32_be m]"
  let ?v = "\<lambda>t. foldl (sha1_step m) (h @ [0], ?X) [0..<t]"
  have "regs_at (round6 ?W) (h @ [0]) 16 (fst (?v 16)) \<and> loaded (snd (?v 16)) ?W (Suc 16)"
  proof (rule rounds_upt[where P = "\<lambda>t vX. regs_at (round6 ?W) (h @ [0]) t (fst vX) \<and> loaded (snd vX) ?W (Suc t)"])
    fix t vX assume "t < 16" "regs_at (round6 ?W) (h @ [0]) t (fst vX) \<and> loaded (snd vX) ?W (Suc t)"
    then show "regs_at (round6 ?W) (h @ [0]) (Suc t) (fst (sha1_step m vX t)) \<and> loaded (snd (sha1_step m vX t)) ?W (Suc (Suc t))"
      using sha1_load_step[of ?W "h @ [0]" t "fst vX" "snd vX" m] fips1_schedule_load[OF assms(2)] assms(1) by simp
  qed (use fips1_schedule_load[OF assms(2), of 0] in \<open>simp_all add: regs_at_0 loaded_first\<close>)
  then have w: "regs_at (round6 ?W) (h @ [0]) 16 (fst (?v 16)) \<and> window (snd (?v 16)) ?W 16"
    using loaded_window[of "snd (?v 16)" ?W "Suc 16"] by simp
  have "regs_at (round6 ?W) (h @ [0]) 80 (fst (foldl (sha1_step m) (?v 16) [16..<80])) \<and>
      window (snd (foldl (sha1_step m) (?v 16) [16..<80])) ?W 80"
  proof (rule rounds_upt[where P = "\<lambda>t vX. regs_at (round6 ?W) (h @ [0]) t (fst vX) \<and> window (snd vX) ?W t"])
    fix t vX assume "16 \<le> t" "t < 80" "regs_at (round6 ?W) (h @ [0]) t (fst vX) \<and> window (snd vX) ?W t"
    then show "regs_at (round6 ?W) (h @ [0]) (Suc t) (fst (sha1_step m vX t)) \<and> window (snd (sha1_step m vX t)) ?W (Suc t)"
      using sha1_update_step[of ?W "h @ [0]" t "fst vX" "snd vX" m] fips1_schedule_nth[of "take 64 m" t] assms by simp
  qed (use w in simp_all)
  moreover have "?v 80 = foldl (sha1_step m) (?v 16) [16..<80]"
    using upt_add_eq_append[of 0 16 64] by (simp del: upt_rec_numeral)
  ultimately have r: "fst (?v 80) = rotate 80 (foldl (\<lambda>s t. round6 ?W t s) (h @ [0]) [0..<80])"
    by (simp add: regs_at_def)
  let ?s = "foldl (\<lambda>s t. round6 ?W t s) (h @ [0]) [0..<80]"
  have l: "length ?s = 6" using length_rounds[of 6 "round6 ?W" "h @ [0]"] length_round6 assms(1) by simp
  have t5: "take 5 ?s = foldl (\<lambda>s t. fips1_round ?W t s) h [0..<80]" using take_rounds6[of "h @ [0]" ?W] assms(1) by simp
  obtain a b c d e f where s: "?s = [a, b, c, d, e, f]" using l by (rule length_cases_6)
  obtain h0 h1 h2 h3 h4 where h: "h = [h0, h1, h2, h3, h4]" using assms(1) by (rule length_cases_5)
  have "fst (?v 80) = [c, d, e, f, a, b]" unfolding r s by (simp add: rotate_drop_take)
  moreover have "foldl (\<lambda>s t. fips1_round ?W t s) h [0..<80] = [a, b, c, d, e]" using t5 s by simp
  ultimately show ?thesis
    by (simp only: sha1_block_data_order.simps Let_def sha1_compress_def) (simp add: h)
qed

lemma length_sha1_compress: "length h = 5 \<Longrightarrow> length (sha1_compress h b) = 5"
  using length_rounds[of 5 "fips1_round (fips1_schedule b)" h] by (simp add: sha1_compress_def length_fips1_round)

lemma sha1_block:
  "length h = 5 \<Longrightarrow> n * 64 \<le> length m \<Longrightarrow> sha1_block_data_order h m n = compress_blocks sha1_compress 64 m n h"
proof (induction n arbitrary: h m)
  case (Suc n)
  then show ?case using sha1_block_one[of h m n] by (simp add: length_sha1_compress)
qed simp

interpretation sha1: md32_hash sha1_block_data_order sha1_compress 64 5
  by unfold_locales (simp_all add: sha1_block length_sha1_compress)

section \<open>The stream\<close>

lemma SHA1_Update_fold:
  "foldl SHA1_Update c ps = foldl (\<lambda>c p. crypto_md32_update sha1_block_data_order 64 p c) c ps"
  by (induction ps arbitrary: c) (simp_all add: SHA1_Update_def SHA_CBLOCK_def)

text \<open>C29: SHA-1 is the function of FIPS 180-4, and hashes a stream: the eighty unrolled calls on six
  variables and a circular buffer of sixteen words, each with its own literal order of arguments, fold
  the standard's compression function over the padded message, whatever the pieces in which it was
  passed.\<close>

theorem SHA1_stream_correct:
  assumes "\<forall>p\<in>set ps. length p < SIZE_MOD"
  shows "fst (SHA1_Final (foldl SHA1_Update SHA1_Init ps)) = be_digest (sha1_hash (md_h SHA1_Init) (concat ps))"
proof -
  let ?ws = "md_h (crypto_md32_final sha1_block_data_order 64 True (foldl SHA1_Update SHA1_Init ps))"
  have h: "?ws = sha1_hash (md_h SHA1_Init) (concat ps)"
    unfolding SHA1_Update_fold sha1_hash_def
    by (rule sha1.stream_hash) (use assms in \<open>simp_all add: SHA1_Init_def SHA_CBLOCK_def\<close>)
  have "length ?ws = 5"
    unfolding h sha1_hash_def by (rule sha1.length_fold_blocks) (simp add: SHA1_Init_def)
  then obtain a b c d e where "?ws = [a, b, c, d, e]" by (rule length_cases_5)
  then show ?thesis
    unfolding h[symmetric] by (simp add: SHA1_Final_def SHA_CBLOCK_def Let_def CRYPTO_store_u32_be be_digest_def)
qed

theorem SHA1_stream_correct_witness:
  "fst (SHA1_Final (foldl SHA1_Update SHA1_Init [[0x61], [], [0x62, 0x63]])) =
     be_digest (sha1_hash (md_h SHA1_Init) [0x61, 0x62, 0x63])"
  using SHA1_stream_correct[of "[[0x61], [], [0x62, 0x63]]"] by simp

end
