(* ===== verification/Sha512.thy ===== *)
theory Sha512
  imports Rounds Md32
begin

text \<open>SHA-384, SHA-512 and SHA-512/256: \<open>fipsmodule/sha/sha512.c\<close>, which has a collector of its own with
  a 128-bit count.  The model is the variant of the block function for 64-bit machines.\<close>

section \<open>Model\<close>

text \<open>\<open>SHA512_CTX\<close>.\<close>

record sha512_ctx =
  sha_h :: "u64 list"
  sha_Nl :: u64
  sha_Nh :: u64
  sha_p :: bytes
  sha_num :: nat
  sha_md_len :: nat

definition SHA512_CBLOCK :: nat where "SHA512_CBLOCK = 128"
definition SHA384_DIGEST_LENGTH :: nat where "SHA384_DIGEST_LENGTH = 48"
definition SHA512_DIGEST_LENGTH :: nat where "SHA512_DIGEST_LENGTH = 64"
definition SHA512_256_DIGEST_LENGTH :: nat where "SHA512_256_DIGEST_LENGTH = 32"

text \<open>The block buffer is left as it was.\<close>

definition SHA384_Init :: "sha512_ctx \<Rightarrow> sha512_ctx" where
  "SHA384_Init sha = sha\<lparr>
     sha_h :=
      [0xcbbb9d5dc1059ed8, 0x629a292a367cd507, 0x9159015a3070dd17, 0x152fecd8f70e5939,
       0x67332667ffc00b31, 0x8eb44a8768581511, 0xdb0c2e0d64f98fa7, 0x47b5481dbefa4fa4],
     sha_Nl := 0, sha_Nh := 0, sha_num := 0, sha_md_len := SHA384_DIGEST_LENGTH\<rparr>"

definition SHA512_Init :: "sha512_ctx \<Rightarrow> sha512_ctx" where
  "SHA512_Init sha = sha\<lparr>
     sha_h :=
      [0x6a09e667f3bcc908, 0xbb67ae8584caa73b, 0x3c6ef372fe94f82b, 0xa54ff53a5f1d36f1,
       0x510e527fade682d1, 0x9b05688c2b3e6c1f, 0x1f83d9abfb41bd6b, 0x5be0cd19137e2179],
     sha_Nl := 0, sha_Nh := 0, sha_num := 0, sha_md_len := SHA512_DIGEST_LENGTH\<rparr>"

definition SHA512_256_Init :: "sha512_ctx \<Rightarrow> sha512_ctx" where
  "SHA512_256_Init sha = sha\<lparr>
     sha_h :=
      [0x22312194fc2bf72c, 0x9f555fa3c84c64c2, 0x2393b86b6f53b151, 0x963877195940eabd,
       0x96283ee2a88effe3, 0xbe5e1e2553863992, 0x2b0199fc2c85b8aa, 0x0eb72ddc81c52ca2],
     sha_Nl := 0, sha_Nh := 0, sha_num := 0, sha_md_len := SHA512_256_DIGEST_LENGTH\<rparr>"

definition K512 :: "u64 list" where
  "K512 = concat
      [[0x428a2f98d728ae22, 0x7137449123ef65cd, 0xb5c0fbcfec4d3b2f, 0xe9b5dba58189dbbc],
       [0x3956c25bf348b538, 0x59f111f1b605d019, 0x923f82a4af194f9b, 0xab1c5ed5da6d8118],
       [0xd807aa98a3030242, 0x12835b0145706fbe, 0x243185be4ee4b28c, 0x550c7dc3d5ffb4e2],
       [0x72be5d74f27b896f, 0x80deb1fe3b1696b1, 0x9bdc06a725c71235, 0xc19bf174cf692694],
       [0xe49b69c19ef14ad2, 0xefbe4786384f25e3, 0x0fc19dc68b8cd5b5, 0x240ca1cc77ac9c65],
       [0x2de92c6f592b0275, 0x4a7484aa6ea6e483, 0x5cb0a9dcbd41fbd4, 0x76f988da831153b5],
       [0x983e5152ee66dfab, 0xa831c66d2db43210, 0xb00327c898fb213f, 0xbf597fc7beef0ee4],
       [0xc6e00bf33da88fc2, 0xd5a79147930aa725, 0x06ca6351e003826f, 0x142929670a0e6e70],
       [0x27b70a8546d22ffc, 0x2e1b21385c26c926, 0x4d2c6dfc5ac42aed, 0x53380d139d95b3df],
       [0x650a73548baf63de, 0x766a0abb3c77b2a8, 0x81c2c92e47edaee6, 0x92722c851482353b],
       [0xa2bfe8a14cf10364, 0xa81a664bbc423001, 0xc24b8b70d0f89791, 0xc76c51a30654be30],
       [0xd192e819d6ef5218, 0xd69906245565a910, 0xf40e35855771202a, 0x106aa07032bbd1b8],
       [0x19a4c116b8d2d0c8, 0x1e376c085141ab53, 0x2748774cdf8eeb99, 0x34b0bcb5e19b48a8],
       [0x391c0cb3c5c95a63, 0x4ed8aa4ae3418acb, 0x5b9cca4f7763e373, 0x682e6ff3d6b2b8a3],
       [0x748f82ee5defb2fc, 0x78a5636f43172f60, 0x84c87814a1f0ab72, 0x8cc702081a6439ec],
       [0x90befffa23631e28, 0xa4506cebde82bde9, 0xbef9a3f7b2c67915, 0xc67178f2e372532b],
       [0xca273eceea26619c, 0xd186b8c721c0c207, 0xeada7dd6cde0eb1e, 0xf57d4f7fee6ed178],
       [0x06f067aa72176fba, 0x0a637dc5a2c898a6, 0x113f9804bef90dae, 0x1b710b35131c471b],
       [0x28db77f523047d84, 0x32caab7b40c72493, 0x3c9ebe0a15c9bebc, 0x431d67c49c100d4c],
       [0x4cc5d4becb3e42b6, 0x597f299cfc657e2a, 0x5fcb6fab3ad6faec, 0x6c44198c4a475817]]"

definition sha512_Sigma0 :: "u64 \<Rightarrow> u64" where
  "sha512_Sigma0 x = CRYPTO_rotr_u64 x 28 XOR CRYPTO_rotr_u64 x 34 XOR CRYPTO_rotr_u64 x 39"
definition sha512_Sigma1 :: "u64 \<Rightarrow> u64" where
  "sha512_Sigma1 x = CRYPTO_rotr_u64 x 14 XOR CRYPTO_rotr_u64 x 18 XOR CRYPTO_rotr_u64 x 41"
definition sha512_sigma0 :: "u64 \<Rightarrow> u64" where
  "sha512_sigma0 x = CRYPTO_rotr_u64 x 1 XOR CRYPTO_rotr_u64 x 8 XOR drop_bit 7 x"
definition sha512_sigma1 :: "u64 \<Rightarrow> u64" where
  "sha512_sigma1 x = CRYPTO_rotr_u64 x 19 XOR CRYPTO_rotr_u64 x 61 XOR drop_bit 6 x"
definition sha512_Ch :: "u64 \<Rightarrow> u64 \<Rightarrow> u64 \<Rightarrow> u64" where
  "sha512_Ch x y z = (x AND y) XOR (NOT x AND z)"
definition sha512_Maj :: "u64 \<Rightarrow> u64 \<Rightarrow> u64 \<Rightarrow> u64" where
  "sha512_Maj x y z = (x AND y) XOR (x AND z) XOR (y AND z)"

text \<open>The macro \<open>ROUND_00_15\<close>, with \<open>T1\<close> as it is on entry and the parameters \<open>a\<close> to \<open>h\<close> as a list.\<close>

fun sha512_ROUND_00_15 :: "nat \<Rightarrow> u64 \<Rightarrow> u64 list \<Rightarrow> u64 list" where
  "sha512_ROUND_00_15 i T1 [a, b, c, d, e, f, g, h] =
     (let T1 = T1 + (h + sha512_Sigma1 e + sha512_Ch e f g + K512 ! i);
          h = sha512_Sigma0 a + sha512_Maj a b c;
          d = d + T1;
          h = h + T1
      in [a, b, c, d, e, f, g, h])"
| "sha512_ROUND_00_15 i T1 v = v"

text \<open>The calls pass the variables \<open>a\<close> to \<open>h\<close> (0 to 7) in these orders, first with the loads and then in
  each pass of the loop.\<close>

definition sha512_args :: "nat list list" where
  "sha512_args =
    [[0, 1, 2, 3, 4, 5, 6, 7],
     [7, 0, 1, 2, 3, 4, 5, 6],
     [6, 7, 0, 1, 2, 3, 4, 5],
     [5, 6, 7, 0, 1, 2, 3, 4],
     [4, 5, 6, 7, 0, 1, 2, 3],
     [3, 4, 5, 6, 7, 0, 1, 2],
     [2, 3, 4, 5, 6, 7, 0, 1],
     [1, 2, 3, 4, 5, 6, 7, 0],
     [0, 1, 2, 3, 4, 5, 6, 7],
     [7, 0, 1, 2, 3, 4, 5, 6],
     [6, 7, 0, 1, 2, 3, 4, 5],
     [5, 6, 7, 0, 1, 2, 3, 4],
     [4, 5, 6, 7, 0, 1, 2, 3],
     [3, 4, 5, 6, 7, 0, 1, 2],
     [2, 3, 4, 5, 6, 7, 0, 1],
     [1, 2, 3, 4, 5, 6, 7, 0]]"

definition sha512_load_round :: "bytes \<Rightarrow> u64 list \<times> u64 list \<Rightarrow> nat \<Rightarrow> u64 list \<times> u64 list" where
  "sha512_load_round inp = (\<lambda>(v, X) i.
     let T1 = CRYPTO_load_u64_be (drop (i * 8) inp)
     in (with_regs (sha512_args ! i) (sha512_ROUND_00_15 i T1) v, X[i := T1]))"

definition ROUND_16_80 :: "nat \<Rightarrow> nat \<Rightarrow> nat list \<Rightarrow> u64 list \<times> u64 list \<Rightarrow> u64 list \<times> u64 list" where
  "ROUND_16_80 i j args = (\<lambda>(v, X).
     let s0 = sha512_sigma0 (X ! ((j + 1) AND 0x0f));
         s1 = sha512_sigma1 (X ! ((j + 14) AND 0x0f));
         T1 = X ! (j AND 0x0f) + (s0 + s1 + X ! ((j + 9) AND 0x0f))
     in (with_regs args (sha512_ROUND_00_15 (i + j) T1) v, X[j AND 0x0f := T1]))"

primrec sha512_block_data_order :: "u64 list \<Rightarrow> bytes \<Rightarrow> nat \<Rightarrow> u64 list" where
  "sha512_block_data_order state inp 0 = state"
| "sha512_block_data_order state inp (Suc n) =
     (let vX = foldl (sha512_load_round inp) (state, replicate 16 0) [0..<16];
          vX = foldl (\<lambda>vX i. foldl (\<lambda>vX j. ROUND_16_80 i j (sha512_args ! j) vX) vX [0..<16]) vX [16, 32, 48, 64]
      in sha512_block_data_order (map2 (+) state (fst vX)) (drop (16 * 8) inp) n)"

definition SHA512_Transform :: "sha512_ctx \<Rightarrow> bytes \<Rightarrow> sha512_ctx" where
  "SHA512_Transform c block = c\<lparr>sha_h := sha512_block_data_order (sha_h c) block 1\<rparr>"

definition sha512_update_blocks :: "bytes \<Rightarrow> sha512_ctx \<Rightarrow> sha512_ctx" where
  "sha512_update_blocks inp c =
     (let len = length inp;
          c = (if len \<ge> SHA512_CBLOCK
               then c\<lparr>sha_h := sha512_block_data_order (sha_h c) inp (len div SHA512_CBLOCK)\<rparr> else c);
          inp = (if len \<ge> SHA512_CBLOCK then drop (len - len mod SHA512_CBLOCK) inp else inp)
      in if length inp \<noteq> 0
         then c\<lparr>sha_p := inp @ drop (length inp) (sha_p c), sha_num := length inp\<rparr> else c)"

definition SHA512_Update :: "sha512_ctx \<Rightarrow> bytes \<Rightarrow> sha512_ctx" where
  "SHA512_Update c inp =
     (let len = length inp
      in if len = 0 then c
         else
           (let l = sha_Nl c + push_bit 3 (word_of_nat len);
                nh = (if l < sha_Nl c then sha_Nh c + 1 else sha_Nh c) + word_of_nat (len div 2 ^ 61);
                c = c\<lparr>sha_Nl := l, sha_Nh := nh\<rparr>
            in if sha_num c \<noteq> 0 then
                 (let n = SHA512_CBLOCK - sha_num c
                  in if len < n then
                       c\<lparr>sha_p := take (sha_num c) (sha_p c) @ inp @ drop (sha_num c + len) (sha_p c), sha_num := sha_num c + len\<rparr>
                     else
                       (let p = take (sha_num c) (sha_p c) @ take n inp;
                            c = c\<lparr>sha_p := p, sha_num := 0, sha_h := sha512_block_data_order (sha_h c) p 1\<rparr>
                        in sha512_update_blocks (drop n inp) c))
               else sha512_update_blocks inp c))"

definition SHA384_Update :: "sha512_ctx \<Rightarrow> bytes \<Rightarrow> sha512_ctx" where
  "SHA384_Update sha inp = SHA512_Update sha inp"

definition SHA512_256_Update :: "sha512_ctx \<Rightarrow> bytes \<Rightarrow> sha512_ctx" where
  "SHA512_256_Update sha inp = SHA512_Update sha inp"

text \<open>\<open>out\<close> says whether the output pointer is not \<open>NULL\<close>; the result is what is written, none when
  the call fails.\<close>

definition sha512_final_impl :: "bool \<Rightarrow> sha512_ctx \<Rightarrow> bytes option \<times> sha512_ctx" where
  "sha512_final_impl out sha =
     (let n = sha_num sha;
          p = (sha_p sha)[n := 0x80];
          n = n + 1;
          (n, p, h) =
            (if n > SHA512_CBLOCK - 16
             then (let p = take n p @ replicate (SHA512_CBLOCK - n) 0 in (0, p, sha512_block_data_order (sha_h sha) p 1))
             else (n, p, sha_h sha));
          p = take n p @ replicate (SHA512_CBLOCK - 16 - n) 0 @
            CRYPTO_store_u64_be (sha_Nh sha) @ CRYPTO_store_u64_be (sha_Nl sha);
          sha = sha\<lparr>sha_h := sha512_block_data_order h p 1, sha_p := p\<rparr>
      in if \<not> out then (None, sha)
         else (Some (concat (map (\<lambda>i. CRYPTO_store_u64_be (sha_h sha ! i)) [0..<sha_md_len sha div 8])), sha))"

definition SHA384_Final :: "sha512_ctx \<Rightarrow> bytes option \<times> sha512_ctx" where
  "SHA384_Final sha = sha512_final_impl True sha"

definition SHA512_256_Final :: "sha512_ctx \<Rightarrow> bytes option \<times> sha512_ctx" where
  "SHA512_256_Final sha = sha512_final_impl True sha"

definition SHA512_Final :: "sha512_ctx \<Rightarrow> bytes option \<times> sha512_ctx" where
  "SHA512_Final sha = sha512_final_impl True sha"

text \<open>The context on the stack, whose first contents \<open>ctx\<close> do not matter.\<close>

definition SHA384 :: "sha512_ctx \<Rightarrow> bytes \<Rightarrow> bytes option" where
  "SHA384 ctx inp = fst (SHA384_Final (SHA384_Update (SHA384_Init ctx) inp))"

definition SHA512 :: "sha512_ctx \<Rightarrow> bytes \<Rightarrow> bytes option" where
  "SHA512 ctx inp = fst (SHA512_Final (SHA512_Update (SHA512_Init ctx) inp))"

definition SHA512_256 :: "sha512_ctx \<Rightarrow> bytes \<Rightarrow> bytes option" where
  "SHA512_256 ctx inp = fst (SHA512_256_Final (SHA512_256_Update (SHA512_256_Init ctx) inp))"

section \<open>FIPS 180-4\<close>

definition fips512_Sigma0 :: "u64 \<Rightarrow> u64" where
  "fips512_Sigma0 x = word_rotr 28 x XOR word_rotr 34 x XOR word_rotr 39 x"
definition fips512_Sigma1 :: "u64 \<Rightarrow> u64" where
  "fips512_Sigma1 x = word_rotr 14 x XOR word_rotr 18 x XOR word_rotr 41 x"
definition fips512_sigma0 :: "u64 \<Rightarrow> u64" where
  "fips512_sigma0 x = word_rotr 1 x XOR word_rotr 8 x XOR drop_bit 7 x"
definition fips512_sigma1 :: "u64 \<Rightarrow> u64" where
  "fips512_sigma1 x = word_rotr 19 x XOR word_rotr 61 x XOR drop_bit 6 x"

definition be_words8 :: "bytes \<Rightarrow> u64 list" where
  "be_words8 b = map (\<lambda>i. word_of_nat (be_val (take 8 (drop (8 * i) b)))) [0..<length b div 8]"

definition be_digest8 :: "u64 list \<Rightarrow> bytes" where
  "be_digest8 ws = concat (map (\<lambda>w. be_bytes 8 (unat w)) ws)"

definition fips512_schedule :: "bytes \<Rightarrow> u64 list" where
  "fips512_schedule b = schedule (\<lambda>W. fips512_sigma1 (W ! (length W - 2)) + W ! (length W - 7) +
      fips512_sigma0 (W ! (length W - 15)) + W ! (length W - 16)) 64 (be_words8 b)"

fun fips512_round :: "u64 list \<Rightarrow> nat \<Rightarrow> u64 list \<Rightarrow> u64 list" where
  "fips512_round W t [a, b, c, d, e, f, g, h] =
     (let T1 = h + fips512_Sigma1 e + ((e AND f) XOR (NOT e AND g)) + K512 ! t + W ! t;
          T2 = fips512_Sigma0 a + ((a AND b) XOR (a AND c) XOR (b AND c))
      in [T1 + T2, a, b, c, d + T1, e, f, g])"
| "fips512_round W t v = v"

definition sha512_compress :: "u64 list \<Rightarrow> bytes \<Rightarrow> u64 list" where
  "sha512_compress H b = map2 (+) H (foldl (\<lambda>s t. fips512_round (fips512_schedule b) t s) H [0..<80])"

definition sha512_pad :: "bytes \<Rightarrow> bytes" where
  "sha512_pad m = m @ [0x80] @ replicate ((128 - (length m + 17) mod 128) mod 128) 0 @ be_bytes 16 (8 * length m)"

definition fips512_hash :: "u64 list \<Rightarrow> bytes \<Rightarrow> u64 list" where
  "fips512_hash H m = fold_blocks sha512_compress 128 H (sha512_pad m)"

section \<open>The block function\<close>

lemma rot512_simps:
  "sha512_Sigma0 x = fips512_Sigma0 x" "sha512_Sigma1 x = fips512_Sigma1 x"
  "sha512_sigma0 x = fips512_sigma0 x" "sha512_sigma1 x = fips512_sigma1 x"
  by (simp_all add: CRYPTO_rotr_u64_eq sha512_Sigma0_def sha512_Sigma1_def sha512_sigma0_def sha512_sigma1_def
      fips512_Sigma0_def fips512_Sigma1_def fips512_sigma0_def fips512_sigma1_def)

lemma sha512_ROUND_step:
  assumes "length s = 8" "T1 = W ! t"
  shows "length (sha512_ROUND_00_15 t T1 s) = 8 \<and> shift_right (sha512_ROUND_00_15 t T1 s) = fips512_round W t s"
proof -
  obtain a b c d e f g h where "s = [a, b, c, d, e, f, g, h]" using assms(1) by (rule length_cases_8)
  then show ?thesis
    by (simp add: assms(2) shift_right_def Let_def rot512_simps sha512_Ch_def sha512_Maj_def ac_simps)
qed

lemma length_fips512_round: "length s = 8 \<Longrightarrow> length (fips512_round W t s) = 8"
  by (elim length_cases_8) (simp add: Let_def)

lemma sha512_args_nth:
  assumes "j < 16"
  shows "sha512_args ! j = rotated_args 8 j"
proof -
  have "sha512_args = map (rotated_args 8) [0..<16]" by (simp add: sha512_args_def rotated_args_def upt_rec)
  then have "sha512_args ! j = map (rotated_args 8) [0..<16] ! j" by (simp only:)
  also have "\<dots> = rotated_args 8 j" using assms by (simp del: upt_rec_numeral)
  finally show ?thesis .
qed

lemma length_be_words8 [simp]: "length (be_words8 b) = length b div 8"
  by (simp add: be_words8_def)

lemma fips512_schedule_load:
  assumes "128 \<le> length m" "t < 16"
  shows "fips512_schedule (take 128 m) ! t = CRYPTO_load_u64_be (drop (8 * t) m)"
proof -
  have "take 8 (drop (8 * t) (take 128 m)) = take 8 (drop (8 * t) m)"
    using assms by (simp add: drop_take take_take min_def)
  then have "be_words8 (take 128 m) ! t = CRYPTO_load_u64_be (drop (8 * t) m)"
    using assms by (simp add: be_words8_def CRYPTO_load_u64_be)
  then show ?thesis
    unfolding fips512_schedule_def using assms by (subst schedule_nth_old) simp_all
qed

lemma fips512_schedule_nth:
  assumes "length b = 128" "16 \<le> t" "t < 80"
  defines "W \<equiv> fips512_schedule b"
  shows "W ! t = fips512_sigma1 (W ! (t - 2)) + W ! (t - 7) + fips512_sigma0 (W ! (t - 15)) + W ! (t - 16)"
proof -
  let ?f = "\<lambda>W. fips512_sigma1 (W ! (length W - 2)) + W ! (length W - 7) + fips512_sigma0 (W ! (length W - 15)) + W ! (length W - 16)"
  have l: "length (be_words8 b) = 16" "length W = 80" using assms by (simp_all add: fips512_schedule_def)
  have "W ! (16 + (t - 16)) = ?f (take (16 + (t - 16)) W)"
    using schedule_nth[of "t - 16" 64 ?f "be_words8 b"] assms(2,3) l by (simp add: W_def fips512_schedule_def)
  then show ?thesis using assms(2,3) l by simp
qed

abbreviation at512 where "at512 W \<equiv> at_round (fips512_round W) W"

lemma sha512_call:
  assumes "at512 W s t (v, X)" "length s = 8" "r = rotated_args 8 t"
  shows "at512 W s (Suc t) (with_regs r (sha512_ROUND_00_15 t (W ! t)) v, X[t mod 16 := W ! t])"
  using assms(1) window_step[of X W t]
    regs_at_step[OF _ assms(2) _ assms(3), of "fips512_round W" v "sha512_ROUND_00_15 t (W ! t)"]
  by (simp add: at_round_def length_fips512_round sha512_ROUND_step)

lemma sha512_load_round_step:
  assumes "at512 W s t vX" "length s = 8" "t < 16" "W ! t = CRYPTO_load_u64_be (drop (8 * t) m)"
  shows "at512 W s (Suc t) (sha512_load_round m vX t)"
  using sha512_call[OF _ assms(2), of W t "fst vX" "snd vX" "sha512_args ! t"] assms
  by (cases vX) (simp add: sha512_load_round_def sha512_args_nth Let_def mult.commute)

lemma ROUND_16_80_step:
  assumes "at512 W s (i + j) (v, X)" "length s = 8" "16 \<le> i" "i mod 16 = 0" "j < 16"
    and w: "W ! t = fips512_sigma1 (W ! (t - 2)) + W ! (t - 7) + fips512_sigma0 (W ! (t - 15)) + W ! (t - 16)" "t = i + j"
  shows "at512 W s (Suc (i + j)) (ROUND_16_80 i j (sha512_args ! j) (v, X))"
proof -
  have j: "(j + d) mod 16 = (t + d) mod 16" for d
    using assms(4) w(2) by (metis add.assoc mod_add_left_eq add_0)
  have win: "X ! ((j + d) mod 16) = W ! (t + d - 16)" if "d < 16" for d
    using assms(1,3) window_nth[of X W t, OF _ _ that] w(2) unfolding j by (simp add: at_round_def)
  have T: "X ! (j AND 0x0f) + (sha512_sigma0 (X ! ((j + 1) AND 0x0f)) + sha512_sigma1 (X ! ((j + 14) AND 0x0f)) +
      X ! ((j + 9) AND 0x0f)) = W ! t"
  proof -
    have "X ! (j mod 16) = W ! (t - 16)" "X ! ((j + 1) mod 16) = W ! (t - 15)" "X ! ((j + 14) mod 16) = W ! (t - 2)"
      "X ! ((j + 9) mod 16) = W ! (t - 7)"
      using win[of 0] win[of 1] win[of 14] win[of 9] assms(3) w(2) by simp_all
    then show ?thesis by (simp only: and_15 rot512_simps w(1) add_ac)
  qed
  have r: "sha512_args ! j = rotated_args 8 (i + j)"
  proof -
    have "(i + j) mod 8 = j mod 8" using assms(4) by presburger
    then show ?thesis
      using sha512_args_nth[OF assms(5)] rotated_args_mod[of 8 j] rotated_args_mod[of 8 "i + j"] by metis
  qed
  have j0: "j mod 16 = (i + j) mod 16" using j[of 0] w(2) by simp
  show ?thesis
    using sha512_call[OF assms(1,2) r] by (simp only: ROUND_16_80_def prod.case Let_def T) (simp only: and_15 j0 w(2))
qed

lemma sha512_block_one:
  assumes "length h = 8" "128 \<le> length m"
  shows "sha512_block_data_order h m (Suc n) = sha512_block_data_order (sha512_compress h (take 128 m)) (drop 128 m) n"
proof -
  let ?W = "fips512_schedule (take 128 m)"
  let ?a = "foldl (sha512_load_round m) (h, replicate 16 0) [0..<16]"
  have a: "at512 ?W h 16 ?a"
    by (rule rounds_upt) (use assms in \<open>simp_all add: at_round_0 sha512_load_round_step fips512_schedule_load\<close>)
  have r: "at512 ?W h (i + 16) (foldl (\<lambda>vX j. ROUND_16_80 i j (sha512_args ! j) vX) vX [0..<16])"
    if "at512 ?W h i vX" "16 \<le> i" "i \<le> 64" "i mod 16 = 0" for i vX
  proof (rule rounds_upt[where P = "\<lambda>j. at512 ?W h (i + j)"])
    fix j x assume j: "j < 16" "at512 ?W h (i + j) x"
    show "at512 ?W h (i + Suc j) (ROUND_16_80 i j (sha512_args ! j) x)"
      using ROUND_16_80_step[of ?W h i j "fst x" "snd x" "i + j"] assms(1) fips512_schedule_nth[of "take 128 m" "i + j"] that j assms(2)
      by simp
  qed (use that in simp_all)
  let ?b = "foldl (\<lambda>vX i. foldl (\<lambda>vX j. ROUND_16_80 i j (sha512_args ! j) vX) vX [0..<16]) ?a [16, 32, 48, 64]"
  have "at512 ?W h (64 + 16) ?b"
    unfolding foldl.simps by (intro r) (use r[OF r[OF r[OF a]]] in simp_all)
  then have "fst ?b = foldl (\<lambda>s t. fips512_round ?W t s) h [0..<80]"
    using regs_at_end[of "fips512_round ?W" h 80 "fst ?b" 8] assms(1) by (simp add: at_round_def length_fips512_round)
  moreover have "16 * 8 = (128 :: nat)" by simp
  ultimately show ?thesis by (simp only: sha512_block_data_order.simps Let_def sha512_compress_def)
qed

lemma length_sha512_compress: "length h = 8 \<Longrightarrow> length (sha512_compress h b) = 8"
  using length_rounds[of 8 "fips512_round (fips512_schedule b)" h] by (simp add: sha512_compress_def length_fips512_round)

lemma sha512_block:
  "length h = 8 \<Longrightarrow> n * 128 \<le> length m \<Longrightarrow> sha512_block_data_order h m n = compress_blocks sha512_compress 128 m n h"
proof (induction n arbitrary: h m)
  case (Suc n)
  then show ?case using sha512_block_one[of h m n] by (simp add: length_sha512_compress)
qed simp

interpretation sha512: block_function sha512_block_data_order sha512_compress 128 8
  by unfold_locales (simp_all add: sha512_block length_sha512_compress)

text \<open>The constants are the digits of roots of primes, as in the standard; SHA-224 starts with the low
  halves of the words with which SHA-384 does.\<close>

text \<open>The initial values are the digits of square roots of primes, as in the standard.\<close>

lemma sha512_constants:
  "list_all2 (\<lambda>p w. frac_root 64 2 p (unat w)) (take 8 first_primes) (sha_h (SHA512_Init c))"
  "list_all2 (\<lambda>p w. frac_root 64 2 p (unat w)) (take 8 (drop 8 first_primes)) (sha_h (SHA384_Init c))"
  by (simp_all add: first_primes_def SHA512_Init_def SHA384_Init_def frac_root_def int_root_def)

section \<open>The stream\<close>

text \<open>A context after the bytes \<open>m\<close>.\<close>

definition ctx512 :: "u64 list \<Rightarrow> sha512_ctx \<Rightarrow> bytes \<Rightarrow> bool" where
  "ctx512 h0 c m \<longleftrightarrow>
     sha_h c = fold_blocks sha512_compress 128 h0 m \<and> length (sha_p c) = 128 \<and>
     sha_num c = length m mod 128 \<and> take (sha_num c) (sha_p c) = rest 128 m"

definition count512 :: "sha512_ctx \<Rightarrow> bytes \<Rightarrow> bool" where
  "count512 c m \<longleftrightarrow> 2 ^ 64 * unat (sha_Nh c) + unat (sha_Nl c) = 8 * length m mod 2 ^ 128"

lemma sha512_update_blocks_ctx:
  assumes c: "ctx512 h0 c m" and h0: "length h0 = 8" and m: "length m mod 128 = 0"
  shows "ctx512 h0 (sha512_update_blocks inp c) (m @ inp)"
proof -
  let ?n = "length inp div 128" let ?r = "drop (?n * 128) inp"
  let ?c = "if 128 \<le> length inp then c\<lparr>sha_h := sha512_block_data_order (sha_h c) inp ?n\<rparr> else c"
  note al = sha512.aligned[OF h0 m, where inp = inp]
  have "(?n > 0) = (128 \<le> length inp)" by (simp add: div_greater_zero_iff)
  then have h: "sha_h ?c = fold_blocks sha512_compress 128 h0 (m @ inp)"
    using al(1) c by (simp add: ctx512_def split: if_splits)
  have r: "(if 128 \<le> length inp then drop (length inp - length inp mod 128) inp else inp) = ?r"
    by (simp add: minus_mod_eq_div_mult)
  have p: "sha_p ?c = sha_p c" "sha_num ?c = sha_num c" by simp_all
  have "length ?r < 128" using al(3) by (metis mod_less_divisor zero_less_numeral)
  then have d: "length (?r @ drop (length ?r) (sha_p c)) = 128" using c by (simp add: ctx512_def)
  have e: "sha512_update_blocks inp c =
      (if length ?r \<noteq> 0 then ?c\<lparr>sha_p := ?r @ drop (length ?r) (sha_p ?c), sha_num := length ?r\<rparr> else ?c)"
    by (simp only: sha512_update_blocks_def Let_def SHA512_CBLOCK_def r)
  show ?thesis
  proof (cases "length ?r = 0")
    case True
    then show ?thesis using c h m unfolding e ctx512_def al p by simp
  next
    case False
    then show ?thesis using d h unfolding e ctx512_def al p by simp
  qed
qed

lemma SHA512_Update_ctx:
  assumes c: "ctx512 h0 c m" and h0: "length h0 = 8"
  shows "ctx512 h0 (SHA512_Update c inp) (m @ inp)"
proof -
  let ?n = "length m mod 128"
  have n: "sha_num c = ?n" "?n < 128" "take ?n (sha_p c) = rest 128 m"
    using c unfolding ctx512_def by (simp, simp, metis)
  have same: "ctx512 h0 (c\<lparr>sha_Nl := x, sha_Nh := y\<rparr>) m = ctx512 h0 c m" for x y
    by (simp add: ctx512_def)
  consider (none) "inp = []" | (start) "inp \<noteq> []" "?n = 0"
    | (fill) "inp \<noteq> []" "?n \<noteq> 0" "128 \<le> length inp + ?n"
    | (keep) "inp \<noteq> []" "?n \<noteq> 0" "length inp + ?n < 128" by fastforce
  then show ?thesis
  proof cases
    case none then show ?thesis using c by (simp add: SHA512_Update_def)
  next
    case start
    then show ?thesis
      using n sha512_update_blocks_ctx[of h0 "c\<lparr>sha_Nl := _, sha_Nh := _\<rparr>" m inp, unfolded same, OF c h0]
      by (simp add: SHA512_Update_def Let_def)
  next
    case fill
    let ?p = "take (128 - ?n) inp" let ?d = "rest 128 m @ ?p"
    note fi = sha512.fill[OF h0 fill(3)]
    have len: "length ?d = 128" using fill(3) n(2) by (auto simp: length_rest)
    have c1: "ctx512 h0 (c\<lparr>sha_Nl := y, sha_Nh := x, sha_p := ?d, sha_num := 0, sha_h := sha512_block_data_order (sha_h c) ?d 1\<rparr>)
        (m @ ?p)" for x y
      using fi c len unfolding ctx512_def by simp
    have "\<not> length inp < 128 - ?n" using fill(3) by linarith
    then show ?thesis
      using sha512_update_blocks_ctx[OF c1 h0 fi(2), of "drop (128 - ?n) inp"] fill n
      by (simp add: SHA512_Update_def Let_def SHA512_CBLOCK_def del: One_nat_def)
  next
    case keep
    note ke = sha512.keep[OF keep(3)]
    have "length inp < 128 - ?n" using keep(3) by linarith
    then show ?thesis
      using c keep n ke by (simp add: SHA512_Update_def Let_def SHA512_CBLOCK_def ctx512_def length_rest)
  qed
qed

lemma sha512_update_blocks_counts [simp]:
  "sha_Nl (sha512_update_blocks inp c) = sha_Nl c" "sha_Nh (sha512_update_blocks inp c) = sha_Nh c"
  "sha_md_len (sha512_update_blocks inp c) = sha_md_len c"
  by (simp_all add: sha512_update_blocks_def Let_def)

lemma SHA512_Update_count:
  assumes "count512 c m"
  shows "count512 (SHA512_Update c inp) (m @ inp)"
proof (cases "inp = []")
  case False
  have "sha_Nl (SHA512_Update c inp) = sha_Nl c + push_bit 3 (word_of_nat (length inp))"
    "sha_Nh (SHA512_Update c inp) =
      (if sha_Nl c + push_bit 3 (word_of_nat (length inp)) < sha_Nl c then sha_Nh c + 1 else sha_Nh c) + word_of_nat (length inp div 2 ^ 61)"
    using False by (simp_all add: SHA512_Update_def Let_def)
  then show ?thesis using count_step_64[OF assms[unfolded count512_def]] by (simp add: count512_def)
qed (use assms in \<open>simp add: SHA512_Update_def\<close>)

lemma SHA512_Update_md_len: "sha_md_len (SHA512_Update c inp) = sha_md_len c"
  by (simp add: SHA512_Update_def Let_def)

lemma SHA512_stream_ok:
  assumes "ctx512 h0 c m" "count512 c m" "length h0 = 8"
  shows "ctx512 h0 (foldl SHA512_Update c ps) (m @ concat ps) \<and> count512 (foldl SHA512_Update c ps) (m @ concat ps) \<and>
    sha_md_len (foldl SHA512_Update c ps) = sha_md_len c"
  using assms
proof (induction ps arbitrary: c m)
  case (Cons p ps)
  then show ?case
    using SHA512_Update_ctx[OF Cons.prems(1,3), of p] SHA512_Update_count[OF Cons.prems(2), of p]
      Cons.IH[of "SHA512_Update c p" "m @ p"] by (simp add: SHA512_Update_md_len)
qed simp

lemma sha512_pad_eq: "sha512_pad m = m @ [0x80] @ replicate (zeros_for 128 16 (length m)) 0 @ be_bytes 16 (8 * length m)"
  by (simp add: sha512_pad_def zeros_for_def add.commute)

lemma stored_length_512:
  assumes "count512 c m"
  shows "CRYPTO_store_u64_be (sha_Nh c) @ CRYPTO_store_u64_be (sha_Nl c) = be_bytes 16 (8 * length m)"
proof -
  have l: "unat (sha_Nl c) < 2 ^ 64" using unsigned_less[of "sha_Nl c"] by simp
  have "be_bytes 16 (8 * length m) = be_bytes 16 (8 * length m mod 2 ^ 128)"
    using be_bytes_mod[of 16 16 "8 * length m"] by simp
  also have "\<dots> = be_bytes (8 + 8) (2 ^ 64 * unat (sha_Nh c) + unat (sha_Nl c))" using assms by (simp add: count512_def)
  also have "\<dots> = be_bytes 8 (unat (sha_Nh c)) @ be_bytes 8 (2 ^ 64 * unat (sha_Nh c) + unat (sha_Nl c))"
    using l unfolding be_bytes_split by simp
  also have "be_bytes 8 (2 ^ 64 * unat (sha_Nh c) + unat (sha_Nl c)) = be_bytes 8 (unat (sha_Nl c))"
    using be_bytes_mod[of 8 8 "2 ^ 64 * unat (sha_Nh c) + unat (sha_Nl c)"] l by simp
  finally show ?thesis by (simp add: CRYPTO_store_u64_be)
qed

lemma sha512_final_hash:
  assumes c: "ctx512 h0 c m" "count512 c m" and h0: "length h0 = 8"
  shows "sha_h (snd (sha512_final_impl out c)) = fips512_hash h0 m"
proof -
  let ?n = "length m mod 128" let ?L = "be_bytes 16 (8 * length m)"
  have n: "sha_num c = ?n" "?n < 128" "length (sha_p c) = 128" using c by (simp_all add: ctx512_def)
  have r: "take ?n (sha_p c) = rest 128 m" using c(1) unfolding ctx512_def by metis
  have t: "take (?n + 1) ((sha_p c)[?n := 0x80]) = rest 128 m @ [0x80]"
    using n r by (simp add: take_Suc_conv_app_nth)
  have h: "sha_h c = fold_blocks sha512_compress 128 h0 m" using c by (simp add: ctx512_def)
  have m: "m @ x = whole 128 m @ rest 128 m @ x" for x by (metis append.assoc whole_rest)
  show ?thesis
  proof (cases "?n + 1 > 128 - 16")
    case True
    let ?a = "rest 128 m @ [0x80] @ replicate (128 - (?n + 1)) 0" let ?b = "replicate (128 - 16) 0 @ ?L"
    have hh: "sha_h (snd (sha512_final_impl out c)) = sha512_block_data_order (sha512_block_data_order (sha_h c) ?a 1) ?b 1"
      using True t by (simp add: sha512_final_impl_def Let_def SHA512_CBLOCK_def n stored_length_512[OF c(2)])
    have pp: "sha512_pad m = whole 128 m @ ?a @ ?b"
    proof -
      have "zeros_for 128 16 (length m) = (128 - (?n + 1)) + (128 - 16)"
        by (rule zeros_for_cases(1)[OF _ True]) simp
      then show ?thesis unfolding sha512_pad_eq m by (simp only: replicate_add append.assoc)
    qed
    have ll: "length ?a = 128" "length ?b = 128"
      using n(2) unfolding length_append length_rest length_replicate list.size length_be_bytes by linarith+
    show ?thesis unfolding hh fips512_hash_def pp h by (rule sha512.fold_blocks_two(1)[OF ll h0, symmetric])
  next
    case False
    let ?b = "rest 128 m @ [0x80] @ replicate (128 - 16 - (?n + 1)) 0 @ ?L"
    have hh: "sha_h (snd (sha512_final_impl out c)) = sha512_block_data_order (sha_h c) ?b 1"
      using False t by (simp add: sha512_final_impl_def Let_def SHA512_CBLOCK_def n stored_length_512[OF c(2)])
    have pp: "sha512_pad m = whole 128 m @ ?b"
      unfolding sha512_pad_eq m zeros_for_cases(2)[of 16 128, OF _ False, simplified] by simp
    have ll: "length ?b = 128"
      using False unfolding length_append length_rest length_replicate list.size length_be_bytes by linarith
    show ?thesis unfolding hh fips512_hash_def pp h by (rule sha512.fold_blocks_two(2)[OF ll _ h0, symmetric]) (rule ll)
  qed
qed

lemma sha512_final_digest:
  assumes "ctx512 h0 c m" "count512 c m" "length h0 = 8" "sha_md_len c \<le> 64"
  shows "fst (sha512_final_impl True c) = Some (be_digest8 (take (sha_md_len c div 8) (fips512_hash h0 m)))"
proof -
  let ?c = "snd (sha512_final_impl True c)"
  have l: "length (sha_h ?c) = 8"
    unfolding sha512_final_hash[OF assms(1-3)] fips512_hash_def by (rule sha512.length_fold_blocks[OF assms(3)])
  have s: "n \<le> length ws \<Longrightarrow> concat (map (\<lambda>i. CRYPTO_store_u64_be (ws ! i)) [0..<n]) = be_digest8 (take n ws)" for n ws
    by (induction n) (simp_all add: be_digest8_def CRYPTO_store_u64_be take_Suc_conv_app_nth)
  have "fst (sha512_final_impl True c) = Some (concat (map (\<lambda>i. CRYPTO_store_u64_be (sha_h ?c ! i)) [0..<sha_md_len c div 8]))"
    by (simp add: sha512_final_impl_def Let_def split: prod.splits)
  also have "\<dots> = Some (be_digest8 (take (sha_md_len c div 8) (sha_h ?c)))" using l assms(4) by (simp add: s)
  finally show ?thesis unfolding sha512_final_hash[OF assms(1-3)] .
qed

lemma SHA512_stream_final:
  assumes "length (sha_h c) = 8" "sha_num c = 0" "sha_Nl c = 0" "sha_Nh c = 0" "length (sha_p c) = 128" "sha_md_len c \<le> 64"
  shows "fst (sha512_final_impl True (foldl SHA512_Update c ps)) =
    Some (be_digest8 (take (sha_md_len c div 8) (fips512_hash (sha_h c) (concat ps))))"
proof -
  have "ctx512 (sha_h c) c []" "count512 c []"
    using assms by (simp_all add: ctx512_def count512_def fold_blocks_def rest_def)
  from SHA512_stream_ok[OF this assms(1), of ps]
  show ?thesis using sha512_final_digest[of "sha_h c" "foldl SHA512_Update c ps" "concat ps"] assms(1,6) by simp
qed


text \<open>A context with arbitrary contents.\<close>

definition some_ctx512 :: sha512_ctx where
  "some_ctx512 = \<lparr>sha_h = [], sha_Nl = 7, sha_Nh = 7, sha_p = replicate 128 0xaa, sha_num = 99, sha_md_len = 1\<rparr>"


end
