(* ===== verification/Md5.thy ===== *)
theory Md5
  imports Rounds Md32
begin

text \<open>MD5: \<open>fipsmodule/md5/md5.c\<close>.  The table of calls is the text of the block function, call by call; it
  is proved to be the rounds of RFC 1321.\<close>

section \<open>Model\<close>

type_synonym md5_ctx = "md32_ctx"

definition MD5_CBLOCK :: nat where "MD5_CBLOCK = 64"

definition MD5_Init :: "md5_ctx" where
  "MD5_Init =
     \<lparr>md_h = [0x67452301, 0xefcdab89, 0x98badcfe, 0x10325476],
      Nl = 0, Nh = 0, md_data = replicate MD5_CBLOCK 0, md_num = 0\<rparr>"

definition md5_F :: "u32 \<Rightarrow> u32 \<Rightarrow> u32 \<Rightarrow> u32" where "md5_F b c d = ((c XOR d) AND b) XOR d"
definition md5_G :: "u32 \<Rightarrow> u32 \<Rightarrow> u32 \<Rightarrow> u32" where "md5_G b c d = ((b XOR c) AND d) XOR c"
definition md5_H :: "u32 \<Rightarrow> u32 \<Rightarrow> u32 \<Rightarrow> u32" where "md5_H b c d = b XOR c XOR d"
definition md5_I :: "u32 \<Rightarrow> u32 \<Rightarrow> u32 \<Rightarrow> u32" where "md5_I b c d = (NOT d OR b) XOR c"

text \<open>The macros \<open>R0\<close> to \<open>R3\<close> differ in the function that they call.\<close>

fun md5_R :: "(u32 \<Rightarrow> u32 \<Rightarrow> u32 \<Rightarrow> u32) \<Rightarrow> u32 \<Rightarrow> nat \<Rightarrow> u32 \<Rightarrow> u32 list \<Rightarrow> u32 list" where
  "md5_R f k s t [a, b, c, d] =
     (let a = a + (k + t + f b c d);
          a = CRYPTO_rotl_u32 a s;
          a = a + b
      in [a, b, c, d])"
| "md5_R f k s t v = v"

text \<open>The calls: the numbers of the variables \<open>A\<close> to \<open>D\<close> (0 to 3), that of the word, the rotation and
  the constant.\<close>

datatype md5_call = R0 "nat list" nat nat u32 | R1 "nat list" nat nat u32 | R2 "nat list" nat nat u32 | R3 "nat list" nat nat u32

fun md5_round :: "md5_call \<Rightarrow> u32 list \<Rightarrow> u32 list \<Rightarrow> u32 list" where
  "md5_round (R0 r k s t) X v = with_regs r (md5_R md5_F (X ! k) s t) v"
| "md5_round (R1 r k s t) X v = with_regs r (md5_R md5_G (X ! k) s t) v"
| "md5_round (R2 r k s t) X v = with_regs r (md5_R md5_H (X ! k) s t) v"
| "md5_round (R3 r k s t) X v = with_regs r (md5_R md5_I (X ! k) s t) v"

definition md5_calls :: "md5_call list" where
  "md5_calls =
    [R0 [0, 1, 2, 3] 0 7 0xd76aa478,
     R0 [3, 0, 1, 2] 1 12 0xe8c7b756,
     R0 [2, 3, 0, 1] 2 17 0x242070db,
     R0 [1, 2, 3, 0] 3 22 0xc1bdceee,
     R0 [0, 1, 2, 3] 4 7 0xf57c0faf,
     R0 [3, 0, 1, 2] 5 12 0x4787c62a,
     R0 [2, 3, 0, 1] 6 17 0xa8304613,
     R0 [1, 2, 3, 0] 7 22 0xfd469501,
     R0 [0, 1, 2, 3] 8 7 0x698098d8,
     R0 [3, 0, 1, 2] 9 12 0x8b44f7af,
     R0 [2, 3, 0, 1] 10 17 0xffff5bb1,
     R0 [1, 2, 3, 0] 11 22 0x895cd7be,
     R0 [0, 1, 2, 3] 12 7 0x6b901122,
     R0 [3, 0, 1, 2] 13 12 0xfd987193,
     R0 [2, 3, 0, 1] 14 17 0xa679438e,
     R0 [1, 2, 3, 0] 15 22 0x49b40821,
     R1 [0, 1, 2, 3] 1 5 0xf61e2562,
     R1 [3, 0, 1, 2] 6 9 0xc040b340,
     R1 [2, 3, 0, 1] 11 14 0x265e5a51,
     R1 [1, 2, 3, 0] 0 20 0xe9b6c7aa,
     R1 [0, 1, 2, 3] 5 5 0xd62f105d,
     R1 [3, 0, 1, 2] 10 9 0x02441453,
     R1 [2, 3, 0, 1] 15 14 0xd8a1e681,
     R1 [1, 2, 3, 0] 4 20 0xe7d3fbc8,
     R1 [0, 1, 2, 3] 9 5 0x21e1cde6,
     R1 [3, 0, 1, 2] 14 9 0xc33707d6,
     R1 [2, 3, 0, 1] 3 14 0xf4d50d87,
     R1 [1, 2, 3, 0] 8 20 0x455a14ed,
     R1 [0, 1, 2, 3] 13 5 0xa9e3e905,
     R1 [3, 0, 1, 2] 2 9 0xfcefa3f8,
     R1 [2, 3, 0, 1] 7 14 0x676f02d9,
     R1 [1, 2, 3, 0] 12 20 0x8d2a4c8a,
     R2 [0, 1, 2, 3] 5 4 0xfffa3942,
     R2 [3, 0, 1, 2] 8 11 0x8771f681,
     R2 [2, 3, 0, 1] 11 16 0x6d9d6122,
     R2 [1, 2, 3, 0] 14 23 0xfde5380c,
     R2 [0, 1, 2, 3] 1 4 0xa4beea44,
     R2 [3, 0, 1, 2] 4 11 0x4bdecfa9,
     R2 [2, 3, 0, 1] 7 16 0xf6bb4b60,
     R2 [1, 2, 3, 0] 10 23 0xbebfbc70,
     R2 [0, 1, 2, 3] 13 4 0x289b7ec6,
     R2 [3, 0, 1, 2] 0 11 0xeaa127fa,
     R2 [2, 3, 0, 1] 3 16 0xd4ef3085,
     R2 [1, 2, 3, 0] 6 23 0x04881d05,
     R2 [0, 1, 2, 3] 9 4 0xd9d4d039,
     R2 [3, 0, 1, 2] 12 11 0xe6db99e5,
     R2 [2, 3, 0, 1] 15 16 0x1fa27cf8,
     R2 [1, 2, 3, 0] 2 23 0xc4ac5665,
     R3 [0, 1, 2, 3] 0 6 0xf4292244,
     R3 [3, 0, 1, 2] 7 10 0x432aff97,
     R3 [2, 3, 0, 1] 14 15 0xab9423a7,
     R3 [1, 2, 3, 0] 5 21 0xfc93a039,
     R3 [0, 1, 2, 3] 12 6 0x655b59c3,
     R3 [3, 0, 1, 2] 3 10 0x8f0ccc92,
     R3 [2, 3, 0, 1] 10 15 0xffeff47d,
     R3 [1, 2, 3, 0] 1 21 0x85845dd1,
     R3 [0, 1, 2, 3] 8 6 0x6fa87e4f,
     R3 [3, 0, 1, 2] 15 10 0xfe2ce6e0,
     R3 [2, 3, 0, 1] 6 15 0xa3014314,
     R3 [1, 2, 3, 0] 13 21 0x4e0811a1,
     R3 [0, 1, 2, 3] 4 6 0xf7537e82,
     R3 [3, 0, 1, 2] 11 10 0xbd3af235,
     R3 [2, 3, 0, 1] 2 15 0x2ad7d2bb,
     R3 [1, 2, 3, 0] 9 21 0xeb86d391]"

text \<open>One block: in round 0 the load of a word goes before the call that is one ahead of its use.\<close>

definition md5_step :: "bytes \<Rightarrow> u32 list \<times> u32 list \<Rightarrow> nat \<Rightarrow> u32 list \<times> u32 list" where
  "md5_step inp = (\<lambda>(v, X) i.
     let X = load_ahead CRYPTO_load_u32_le inp i X in (md5_round (md5_calls ! i) X v, X))"

primrec md5_block_data_order :: md32_block_func where
  "md5_block_data_order state inp 0 = state"
| "md5_block_data_order state inp (Suc n) =
     (let X = (replicate 16 0)[0 := CRYPTO_load_u32_le inp];
          v = fst (foldl (md5_step inp) (state, X) [0..<64])
      in md5_block_data_order (map2 (+) state v) (drop 64 inp) n)"

definition MD5_Transform :: "md5_ctx \<Rightarrow> bytes \<Rightarrow> md5_ctx" where
  "MD5_Transform c inp = c\<lparr>md_h := md5_block_data_order (md_h c) inp 1\<rparr>"

definition MD5_Update :: "md5_ctx \<Rightarrow> bytes \<Rightarrow> md5_ctx" where
  "MD5_Update c inp = crypto_md32_update md5_block_data_order MD5_CBLOCK inp c"

definition MD5_Final :: "md5_ctx \<Rightarrow> bytes \<times> md5_ctx" where
  "MD5_Final c =
     (let c = crypto_md32_final md5_block_data_order MD5_CBLOCK False c
      in (CRYPTO_store_u32_le (md_h c ! 0) @ CRYPTO_store_u32_le (md_h c ! 1) @
          CRYPTO_store_u32_le (md_h c ! 2) @ CRYPTO_store_u32_le (md_h c ! 3), c))"

definition MD5 :: "bytes \<Rightarrow> bytes" where
  "MD5 inp = fst (MD5_Final (MD5_Update MD5_Init inp))"

section \<open>RFC 1321\<close>

definition rfc_F :: "nat \<Rightarrow> u32 \<Rightarrow> u32 \<Rightarrow> u32 \<Rightarrow> u32" where
  "rfc_F t x y z =
     (if t < 16 then (x AND y) OR (NOT x AND z)
      else if t < 32 then (x AND z) OR (y AND NOT z)
      else if t < 48 then x XOR y XOR z
      else y XOR (x OR NOT z))"

definition rfc_word :: "nat \<Rightarrow> nat" where
  "rfc_word t = (if t < 16 then t else if t < 32 then (5 * t + 1) mod 16 else if t < 48 then (3 * t + 5) mod 16 else 7 * t mod 16)"

definition rfc_shift :: "nat \<Rightarrow> nat" where
  "rfc_shift t = [[7, 12, 17, 22], [5, 9, 14, 20], [4, 11, 16, 23], [6, 10, 15, 21]] ! (t div 16) ! (t mod 4)"

text \<open>The integer parts of \<open>2 ^ 32\<close> times the absolute values of the sines of 1 to 64.\<close>

definition rfc_T :: "u32 list" where
  "rfc_T = concat
      [[0xd76aa478, 0xe8c7b756, 0x242070db, 0xc1bdceee],
       [0xf57c0faf, 0x4787c62a, 0xa8304613, 0xfd469501],
       [0x698098d8, 0x8b44f7af, 0xffff5bb1, 0x895cd7be],
       [0x6b901122, 0xfd987193, 0xa679438e, 0x49b40821],
       [0xf61e2562, 0xc040b340, 0x265e5a51, 0xe9b6c7aa],
       [0xd62f105d, 0x02441453, 0xd8a1e681, 0xe7d3fbc8],
       [0x21e1cde6, 0xc33707d6, 0xf4d50d87, 0x455a14ed],
       [0xa9e3e905, 0xfcefa3f8, 0x676f02d9, 0x8d2a4c8a],
       [0xfffa3942, 0x8771f681, 0x6d9d6122, 0xfde5380c],
       [0xa4beea44, 0x4bdecfa9, 0xf6bb4b60, 0xbebfbc70],
       [0x289b7ec6, 0xeaa127fa, 0xd4ef3085, 0x04881d05],
       [0xd9d4d039, 0xe6db99e5, 0x1fa27cf8, 0xc4ac5665],
       [0xf4292244, 0x432aff97, 0xab9423a7, 0xfc93a039],
       [0x655b59c3, 0x8f0ccc92, 0xffeff47d, 0x85845dd1],
       [0x6fa87e4f, 0xfe2ce6e0, 0xa3014314, 0x4e0811a1],
       [0xf7537e82, 0xbd3af235, 0x2ad7d2bb, 0xeb86d391]]"

fun rfc_round :: "u32 list \<Rightarrow> nat \<Rightarrow> u32 list \<Rightarrow> u32 list" where
  "rfc_round W t [a, b, c, d] =
     [d, b + word_rotl (rfc_shift t) (a + rfc_F t b c d + W ! rfc_word t + rfc_T ! t), b, c]"
| "rfc_round W t v = v"

definition md5_compress :: "u32 list \<Rightarrow> bytes \<Rightarrow> u32 list" where
  "md5_compress H b = map2 (+) H (foldl (\<lambda>s t. rfc_round (le_words b) t s) H [0..<64])"

definition md5_hash :: "u32 list \<Rightarrow> bytes \<Rightarrow> u32 list" where
  "md5_hash H m = fold_blocks md5_compress 64 H (md32_pad 64 False m)"

section \<open>The block function\<close>

lemma length_rfc_round: "length s = 4 \<Longrightarrow> length (rfc_round W t s) = 4"
  by (elim length_cases_4) simp

lemma md5_functions:
  "t < 16 \<Longrightarrow> rfc_F t = md5_F" "16 \<le> t \<Longrightarrow> t < 32 \<Longrightarrow> rfc_F t = md5_G"
  "32 \<le> t \<Longrightarrow> t < 48 \<Longrightarrow> rfc_F t = md5_H" "48 \<le> t \<Longrightarrow> rfc_F t = md5_I"
  by (intro ext bit_eqI; simp add: rfc_F_def md5_F_def md5_G_def md5_H_def md5_I_def bit_simps; blast)+

lemma rfc_shift_bounds: "t < 64 \<Longrightarrow> 0 < rfc_shift t \<and> rfc_shift t < 32"
proof -
  assume "t < 64"
  then have "t div 16 < 4" "t mod 4 < 4" by simp_all
  then have "t div 16 \<in> {0, 1, 2, 3}" "t mod 4 \<in> {0, 1, 2, 3}" by (simp_all, linarith+)
  then show ?thesis unfolding rfc_shift_def insert_iff empty_iff by (elim disjE) simp_all
qed

lemma md5_R_round:
  assumes "length v = 4" "t < 64" "f = rfc_F t" "k = W ! rfc_word t"
  shows "length (md5_R f k (rfc_shift t) (rfc_T ! t) v) = 4 \<and>
    shift_right (md5_R f k (rfc_shift t) (rfc_T ! t) v) = rfc_round W t v"
proof -
  obtain a b c d where "v = [a, b, c, d]" using assms(1) by (rule length_cases_4)
  then show ?thesis
    using rfc_shift_bounds[OF assms(2)]
    by (simp add: assms(3,4) shift_right_def Let_def CRYPTO_rotl_u32_eq add_ac)
qed

definition md5_call_at :: "nat \<Rightarrow> md5_call" where
  "md5_call_at t =
     (if t < 16 then R0 else if t < 32 then R1 else if t < 48 then R2 else R3)
       (rotated_args 4 t) (rfc_word t) (rfc_shift t) (rfc_T ! t)"

lemma md5_calls_nth:
  assumes "t < 64"
  shows "md5_calls ! t = md5_call_at t"
proof -
  have "md5_calls = map md5_call_at [0..<64]"
    by (simp add: md5_calls_def md5_call_at_def rotated_args_def rfc_T_def rfc_word_def rfc_shift_def upt_rec)
  then have "md5_calls ! t = map md5_call_at [0..<64] ! t" by (simp only:)
  also have "\<dots> = md5_call_at t" using assms by (simp del: upt_rec_numeral)
  finally show ?thesis .
qed

lemma md5_step_ok:
  assumes "regs_at (rfc_round W) s t v" "loaded X W (Suc t)" "length s = 4" "t < 64"
    "\<And>i. i < 16 \<Longrightarrow> W ! i = CRYPTO_load_u32_le (drop (4 * i) m)"
  shows "regs_at (rfc_round W) s (Suc t) (fst (md5_step m (v, X) t)) \<and> loaded (snd (md5_step m (v, X) t)) W (Suc (Suc t))"
proof -
  let ?X = "load_ahead CRYPTO_load_u32_le m t X"
  have l: "loaded ?X W (Suc (Suc t))" using loaded_ahead[OF assms(2,5)] .
  have k: "?X ! rfc_word t = W ! rfc_word t"
    using loaded_nth[OF l, of "rfc_word t"] by (auto simp: rfc_word_def)
  consider "t < 16" | "16 \<le> t" "t < 32" | "32 \<le> t" "t < 48" | "48 \<le> t" by linarith
  then have e: "md5_step m (v, X) t =
      (with_regs (rotated_args 4 t) (md5_R (rfc_F t) (W ! rfc_word t) (rfc_shift t) (rfc_T ! t)) v, ?X)"
    by cases (simp_all add: md5_step_def md5_calls_nth[OF assms(4)] md5_call_at_def Let_def k md5_functions)
  have "regs_at (rfc_round W) s (Suc t)
      (with_regs (rotated_args 4 t) (md5_R (rfc_F t) (W ! rfc_word t) (rfc_shift t) (rfc_T ! t)) v)"
    by (rule regs_at_step[OF assms(1,3)]) (use assms(4) length_rfc_round md5_R_round in auto)
  then show ?thesis using e l by simp
qed

lemma md5_block_one:
  assumes "length h = 4" "64 \<le> length m"
  shows "md5_block_data_order h m (Suc n) = md5_block_data_order (md5_compress h (take 64 m)) (drop 64 m) n"
proof -
  let ?W = "le_words (take 64 m)" let ?X = "(replicate 16 0)[0 := CRYPTO_load_u32_le m]"
  have w: "?W ! t = CRYPTO_load_u32_le (drop (4 * t) m)" if "t < 16" for t
    using words_nth(2)[of 64 m t] assms that by simp
  let ?v = "foldl (md5_step m) (h, ?X) [0..<64]"
  have "regs_at (rfc_round ?W) h 64 (fst ?v) \<and> loaded (snd ?v) ?W (Suc 64)"
  proof (rule rounds_upt[where P = "\<lambda>t vX. regs_at (rfc_round ?W) h t (fst vX) \<and> loaded (snd vX) ?W (Suc t)"])
    fix t vX assume "t < 64" "regs_at (rfc_round ?W) h t (fst vX) \<and> loaded (snd vX) ?W (Suc t)"
    then show "regs_at (rfc_round ?W) h (Suc t) (fst (md5_step m vX t)) \<and> loaded (snd (md5_step m vX t)) ?W (Suc (Suc t))"
      using md5_step_ok[of ?W h t "fst vX" "snd vX" m] w assms(1) by simp
  qed (use w[of 0] in \<open>simp_all add: regs_at_0 loaded_first\<close>)
  then have "fst ?v = foldl (\<lambda>s t. rfc_round ?W t s) h [0..<64]"
    using regs_at_end[of "rfc_round ?W" h 64 "fst ?v" 4] assms(1) length_rfc_round by simp
  then show ?thesis by (simp only: md5_block_data_order.simps Let_def md5_compress_def)
qed

lemma length_md5_compress: "length h = 4 \<Longrightarrow> length (md5_compress h b) = 4"
  using length_rounds[of 4 "rfc_round (le_words b)" h] by (simp add: md5_compress_def length_rfc_round)

lemma md5_block:
  "length h = 4 \<Longrightarrow> n * 64 \<le> length m \<Longrightarrow> md5_block_data_order h m n = compress_blocks md5_compress 64 m n h"
proof (induction n arbitrary: h m)
  case (Suc n)
  then show ?case using md5_block_one[of h m n] by (simp add: length_md5_compress)
qed simp

interpretation md5: md32_hash md5_block_data_order md5_compress 64 4
  by unfold_locales (simp_all add: md5_block length_md5_compress)

section \<open>The stream\<close>

lemma MD5_Update_fold:
  "foldl MD5_Update c ps = foldl (\<lambda>c p. crypto_md32_update md5_block_data_order 64 p c) c ps"
  by (induction ps arbitrary: c) (simp_all add: MD5_Update_def MD5_CBLOCK_def)

text \<open>C30: MD5 is the function of RFC 1321, and hashes a stream: the unrolled calls with their table of
  words, rotations and constants, on optimised forms of the auxiliary functions, fold the compression
  function of the standard over the padded message, whatever the pieces in which it was passed.\<close>

theorem MD5_stream_correct:
  assumes "\<forall>p\<in>set ps. length p < SIZE_MOD"
  shows "fst (MD5_Final (foldl MD5_Update MD5_Init ps)) = le_digest (md5_hash (md_h MD5_Init) (concat ps))"
proof -
  let ?ws = "md_h (crypto_md32_final md5_block_data_order 64 False (foldl MD5_Update MD5_Init ps))"
  have h: "?ws = md5_hash (md_h MD5_Init) (concat ps)"
    unfolding MD5_Update_fold md5_hash_def
    by (rule md5.stream_hash) (use assms in \<open>simp_all add: MD5_Init_def MD5_CBLOCK_def\<close>)
  have "length ?ws = 4"
    unfolding h md5_hash_def by (rule md5.length_fold_blocks) (simp add: MD5_Init_def)
  then obtain a b c d where "?ws = [a, b, c, d]" by (rule length_cases_4)
  then show ?thesis
    unfolding h[symmetric] by (simp add: MD5_Final_def MD5_CBLOCK_def Let_def CRYPTO_store_u32_le_def le_digest_def)
qed

theorem MD5_stream_correct_witness:
  "fst (MD5_Final (foldl MD5_Update MD5_Init [[0x61], [], [0x62, 0x63]])) =
     le_digest (md5_hash (md_h MD5_Init) [0x61, 0x62, 0x63])"
  using MD5_stream_correct[of "[[0x61], [], [0x62, 0x63]]"] by simp

end
