(* ===== verification/Md4.thy ===== *)
theory Md4
  imports Rounds Md32
begin

text \<open>MD4: \<open>fipsmodule/md4/md4.c\<close>, built as MD5 is and proved against the rounds of RFC 1320.\<close>

section \<open>Model\<close>

type_synonym md4_ctx = "md32_ctx"

definition MD4_CBLOCK :: nat where "MD4_CBLOCK = 64"

definition MD4_Init :: "md4_ctx" where
  "MD4_Init =
     \<lparr>md_h = [0x67452301, 0xefcdab89, 0x98badcfe, 0x10325476],
      Nl = 0, Nh = 0, md_data = replicate MD4_CBLOCK 0, md_num = 0\<rparr>"

definition md4_F :: "u32 \<Rightarrow> u32 \<Rightarrow> u32 \<Rightarrow> u32" where "md4_F b c d = ((c XOR d) AND b) XOR d"
definition md4_G :: "u32 \<Rightarrow> u32 \<Rightarrow> u32 \<Rightarrow> u32" where "md4_G b c d = (b AND c) OR (b AND d) OR (c AND d)"
definition md4_H :: "u32 \<Rightarrow> u32 \<Rightarrow> u32 \<Rightarrow> u32" where "md4_H b c d = b XOR c XOR d"

text \<open>The macros \<open>R0\<close> to \<open>R2\<close> differ in the function that they call.\<close>

fun md4_R :: "(u32 \<Rightarrow> u32 \<Rightarrow> u32 \<Rightarrow> u32) \<Rightarrow> u32 \<Rightarrow> nat \<Rightarrow> u32 \<Rightarrow> u32 list \<Rightarrow> u32 list" where
  "md4_R f k s t [a, b, c, d] =
     (let a = a + (k + t + f b c d);
          a = CRYPTO_rotl_u32 a s
      in [a, b, c, d])"
| "md4_R f k s t v = v"

text \<open>The calls: the numbers of the variables \<open>A\<close> to \<open>D\<close> (0 to 3), that of the word, the rotation and
  the constant.\<close>

datatype md4_call = R0 "nat list" nat nat u32 | R1 "nat list" nat nat u32 | R2 "nat list" nat nat u32

fun md4_round :: "md4_call \<Rightarrow> u32 list \<Rightarrow> u32 list \<Rightarrow> u32 list" where
  "md4_round (R0 r k s t) X v = with_regs r (md4_R md4_F (X ! k) s t) v"
| "md4_round (R1 r k s t) X v = with_regs r (md4_R md4_G (X ! k) s t) v"
| "md4_round (R2 r k s t) X v = with_regs r (md4_R md4_H (X ! k) s t) v"

definition md4_calls :: "md4_call list" where
  "md4_calls =
    [R0 [0, 1, 2, 3] 0 3 0,
     R0 [3, 0, 1, 2] 1 7 0,
     R0 [2, 3, 0, 1] 2 11 0,
     R0 [1, 2, 3, 0] 3 19 0,
     R0 [0, 1, 2, 3] 4 3 0,
     R0 [3, 0, 1, 2] 5 7 0,
     R0 [2, 3, 0, 1] 6 11 0,
     R0 [1, 2, 3, 0] 7 19 0,
     R0 [0, 1, 2, 3] 8 3 0,
     R0 [3, 0, 1, 2] 9 7 0,
     R0 [2, 3, 0, 1] 10 11 0,
     R0 [1, 2, 3, 0] 11 19 0,
     R0 [0, 1, 2, 3] 12 3 0,
     R0 [3, 0, 1, 2] 13 7 0,
     R0 [2, 3, 0, 1] 14 11 0,
     R0 [1, 2, 3, 0] 15 19 0,
     R1 [0, 1, 2, 3] 0 3 0x5a827999,
     R1 [3, 0, 1, 2] 4 5 0x5a827999,
     R1 [2, 3, 0, 1] 8 9 0x5a827999,
     R1 [1, 2, 3, 0] 12 13 0x5a827999,
     R1 [0, 1, 2, 3] 1 3 0x5a827999,
     R1 [3, 0, 1, 2] 5 5 0x5a827999,
     R1 [2, 3, 0, 1] 9 9 0x5a827999,
     R1 [1, 2, 3, 0] 13 13 0x5a827999,
     R1 [0, 1, 2, 3] 2 3 0x5a827999,
     R1 [3, 0, 1, 2] 6 5 0x5a827999,
     R1 [2, 3, 0, 1] 10 9 0x5a827999,
     R1 [1, 2, 3, 0] 14 13 0x5a827999,
     R1 [0, 1, 2, 3] 3 3 0x5a827999,
     R1 [3, 0, 1, 2] 7 5 0x5a827999,
     R1 [2, 3, 0, 1] 11 9 0x5a827999,
     R1 [1, 2, 3, 0] 15 13 0x5a827999,
     R2 [0, 1, 2, 3] 0 3 0x6ed9eba1,
     R2 [3, 0, 1, 2] 8 9 0x6ed9eba1,
     R2 [2, 3, 0, 1] 4 11 0x6ed9eba1,
     R2 [1, 2, 3, 0] 12 15 0x6ed9eba1,
     R2 [0, 1, 2, 3] 2 3 0x6ed9eba1,
     R2 [3, 0, 1, 2] 10 9 0x6ed9eba1,
     R2 [2, 3, 0, 1] 6 11 0x6ed9eba1,
     R2 [1, 2, 3, 0] 14 15 0x6ed9eba1,
     R2 [0, 1, 2, 3] 1 3 0x6ed9eba1,
     R2 [3, 0, 1, 2] 9 9 0x6ed9eba1,
     R2 [2, 3, 0, 1] 5 11 0x6ed9eba1,
     R2 [1, 2, 3, 0] 13 15 0x6ed9eba1,
     R2 [0, 1, 2, 3] 3 3 0x6ed9eba1,
     R2 [3, 0, 1, 2] 11 9 0x6ed9eba1,
     R2 [2, 3, 0, 1] 7 11 0x6ed9eba1,
     R2 [1, 2, 3, 0] 15 15 0x6ed9eba1]"

text \<open>One block: in round 0 the load of a word goes before the call that is one ahead of its use.\<close>

definition md4_step :: "bytes \<Rightarrow> u32 list \<times> u32 list \<Rightarrow> nat \<Rightarrow> u32 list \<times> u32 list" where
  "md4_step inp = (\<lambda>(v, X) i.
     let X = load_ahead CRYPTO_load_u32_le inp i X in (md4_round (md4_calls ! i) X v, X))"

primrec md4_block_data_order :: md32_block_func where
  "md4_block_data_order state inp 0 = state"
| "md4_block_data_order state inp (Suc n) =
     (let X = (replicate 16 0)[0 := CRYPTO_load_u32_le inp];
          v = fst (foldl (md4_step inp) (state, X) [0..<48])
      in md4_block_data_order (map2 (+) state v) (drop 64 inp) n)"

definition MD4_Transform :: "md4_ctx \<Rightarrow> bytes \<Rightarrow> md4_ctx" where
  "MD4_Transform c inp = c\<lparr>md_h := md4_block_data_order (md_h c) inp 1\<rparr>"

definition MD4_Update :: "md4_ctx \<Rightarrow> bytes \<Rightarrow> md4_ctx" where
  "MD4_Update c inp = crypto_md32_update md4_block_data_order MD4_CBLOCK inp c"

definition MD4_Final :: "md4_ctx \<Rightarrow> bytes \<times> md4_ctx" where
  "MD4_Final c =
     (let c = crypto_md32_final md4_block_data_order MD4_CBLOCK False c
      in (CRYPTO_store_u32_le (md_h c ! 0) @ CRYPTO_store_u32_le (md_h c ! 1) @
          CRYPTO_store_u32_le (md_h c ! 2) @ CRYPTO_store_u32_le (md_h c ! 3), c))"

definition MD4 :: "bytes \<Rightarrow> bytes" where
  "MD4 inp = fst (MD4_Final (MD4_Update MD4_Init inp))"

section \<open>RFC 1320\<close>

definition rfc4_F :: "nat \<Rightarrow> u32 \<Rightarrow> u32 \<Rightarrow> u32 \<Rightarrow> u32" where
  "rfc4_F t x y z =
     (if t < 16 then (x AND y) OR (NOT x AND z)
      else if t < 32 then (x AND y) OR (x AND z) OR (y AND z)
      else x XOR y XOR z)"

definition rfc4_K :: "nat \<Rightarrow> u32" where
  "rfc4_K t = (if t < 16 then 0 else if t < 32 then 0x5a827999 else 0x6ed9eba1)"

text \<open>The words in the order of their columns in round 1, and with the bits of their numbers reversed
  in round 2.\<close>

definition rfc4_word :: "nat \<Rightarrow> nat" where
  "rfc4_word t =
     (if t < 16 then t
      else if t < 32 then 4 * (t mod 4) + (t div 4) mod 4
      else 8 * (t mod 2) + 4 * (t div 2 mod 2) + 2 * (t div 4 mod 2) + t div 8 mod 2)"

definition rfc4_shift :: "nat \<Rightarrow> nat" where
  "rfc4_shift t = [[3, 7, 11, 19], [3, 5, 9, 13], [3, 9, 11, 15]] ! (t div 16) ! (t mod 4)"

fun rfc4_round :: "u32 list \<Rightarrow> nat \<Rightarrow> u32 list \<Rightarrow> u32 list" where
  "rfc4_round W t [a, b, c, d] =
     [d, word_rotl (rfc4_shift t) (a + rfc4_F t b c d + W ! rfc4_word t + rfc4_K t), b, c]"
| "rfc4_round W t v = v"

definition md4_compress :: "u32 list \<Rightarrow> bytes \<Rightarrow> u32 list" where
  "md4_compress H b = map2 (+) H (foldl (\<lambda>s t. rfc4_round (le_words b) t s) H [0..<48])"

definition md4_hash :: "u32 list \<Rightarrow> bytes \<Rightarrow> u32 list" where
  "md4_hash H m = fold_blocks md4_compress 64 H (md32_pad 64 False m)"

section \<open>The block function\<close>

lemma length_rfc4_round: "length s = 4 \<Longrightarrow> length (rfc4_round W t s) = 4"
  by (elim length_cases_4) simp

lemma md4_functions:
  "t < 16 \<Longrightarrow> rfc4_F t = md4_F" "16 \<le> t \<Longrightarrow> t < 32 \<Longrightarrow> rfc4_F t = md4_G"
  "32 \<le> t \<Longrightarrow> rfc4_F t = md4_H"
  by (intro ext bit_eqI; simp add: rfc4_F_def md4_F_def md4_G_def md4_H_def bit_simps; blast)+

lemma rfc4_shift_bounds: "t < 48 \<Longrightarrow> 0 < rfc4_shift t \<and> rfc4_shift t < 32"
proof -
  assume "t < 48"
  then have "t div 16 < 3" "t mod 4 < 4" by simp_all
  then have "t div 16 \<in> {0, 1, 2}" "t mod 4 \<in> {0, 1, 2, 3}" by (simp_all, linarith+)
  then show ?thesis unfolding rfc4_shift_def insert_iff empty_iff by (elim disjE) simp_all
qed

lemma md4_R_round:
  assumes "length v = 4" "t < 48" "f = rfc4_F t" "k = W ! rfc4_word t"
  shows "length (md4_R f k (rfc4_shift t) (rfc4_K t) v) = 4 \<and>
    shift_right (md4_R f k (rfc4_shift t) (rfc4_K t) v) = rfc4_round W t v"
proof -
  obtain a b c d where "v = [a, b, c, d]" using assms(1) by (rule length_cases_4)
  then show ?thesis
    using rfc4_shift_bounds[OF assms(2)]
    by (simp add: assms(3,4) shift_right_def Let_def CRYPTO_rotl_u32_eq add_ac)
qed

definition md4_call_at :: "nat \<Rightarrow> md4_call" where
  "md4_call_at t =
     (if t < 16 then R0 else if t < 32 then R1 else R2)
       (rotated_args 4 t) (rfc4_word t) (rfc4_shift t) (rfc4_K t)"

lemma md4_calls_nth:
  assumes "t < 48"
  shows "md4_calls ! t = md4_call_at t"
proof -
  have "md4_calls = map md4_call_at [0..<48]"
    by (simp add: md4_calls_def md4_call_at_def rotated_args_def rfc4_K_def rfc4_word_def rfc4_shift_def upt_rec)
  then have "md4_calls ! t = map md4_call_at [0..<48] ! t" by (simp only:)
  also have "\<dots> = md4_call_at t" using assms by (simp del: upt_rec_numeral)
  finally show ?thesis .
qed

lemma md4_step_ok:
  assumes "regs_at (rfc4_round W) s t v" "loaded X W (Suc t)" "length s = 4" "t < 48"
    "\<And>i. i < 16 \<Longrightarrow> W ! i = CRYPTO_load_u32_le (drop (4 * i) m)"
  shows "regs_at (rfc4_round W) s (Suc t) (fst (md4_step m (v, X) t)) \<and> loaded (snd (md4_step m (v, X) t)) W (Suc (Suc t))"
proof -
  let ?X = "load_ahead CRYPTO_load_u32_le m t X"
  have l: "loaded ?X W (Suc (Suc t))" using loaded_ahead[OF assms(2,5)] .
  have k: "?X ! rfc4_word t = W ! rfc4_word t"
    using loaded_nth[OF l, of "rfc4_word t"] by (auto simp: rfc4_word_def)
  consider "t < 16" | "16 \<le> t" "t < 32" | "32 \<le> t" by linarith
  then have e: "md4_step m (v, X) t =
      (with_regs (rotated_args 4 t) (md4_R (rfc4_F t) (W ! rfc4_word t) (rfc4_shift t) (rfc4_K t)) v, ?X)"
    by cases (simp_all add: md4_step_def md4_calls_nth[OF assms(4)] md4_call_at_def Let_def k md4_functions)
  have "regs_at (rfc4_round W) s (Suc t)
      (with_regs (rotated_args 4 t) (md4_R (rfc4_F t) (W ! rfc4_word t) (rfc4_shift t) (rfc4_K t)) v)"
    by (rule regs_at_step[OF assms(1,3)]) (use assms(4) length_rfc4_round md4_R_round in auto)
  then show ?thesis using e l by simp
qed

lemma md4_block_one:
  assumes "length h = 4" "64 \<le> length m"
  shows "md4_block_data_order h m (Suc n) = md4_block_data_order (md4_compress h (take 64 m)) (drop 64 m) n"
proof -
  let ?W = "le_words (take 64 m)" let ?X = "(replicate 16 0)[0 := CRYPTO_load_u32_le m]"
  have w: "?W ! t = CRYPTO_load_u32_le (drop (4 * t) m)" if "t < 16" for t
    using words_nth(2)[of 64 m t] assms that by simp
  let ?v = "foldl (md4_step m) (h, ?X) [0..<48]"
  have "regs_at (rfc4_round ?W) h 48 (fst ?v) \<and> loaded (snd ?v) ?W (Suc 48)"
  proof (rule rounds_upt[where P = "\<lambda>t vX. regs_at (rfc4_round ?W) h t (fst vX) \<and> loaded (snd vX) ?W (Suc t)"])
    fix t vX assume "t < 48" "regs_at (rfc4_round ?W) h t (fst vX) \<and> loaded (snd vX) ?W (Suc t)"
    then show "regs_at (rfc4_round ?W) h (Suc t) (fst (md4_step m vX t)) \<and> loaded (snd (md4_step m vX t)) ?W (Suc (Suc t))"
      using md4_step_ok[of ?W h t "fst vX" "snd vX" m] w assms(1) by simp
  qed (use w[of 0] in \<open>simp_all add: regs_at_0 loaded_first\<close>)
  then have "fst ?v = foldl (\<lambda>s t. rfc4_round ?W t s) h [0..<48]"
    using regs_at_end[of "rfc4_round ?W" h 48 "fst ?v" 4] assms(1) length_rfc4_round by simp
  then show ?thesis by (simp only: md4_block_data_order.simps Let_def md4_compress_def)
qed

lemma length_md4_compress: "length h = 4 \<Longrightarrow> length (md4_compress h b) = 4"
  using length_rounds[of 4 "rfc4_round (le_words b)" h] by (simp add: md4_compress_def length_rfc4_round)

lemma md4_block:
  "length h = 4 \<Longrightarrow> n * 64 \<le> length m \<Longrightarrow> md4_block_data_order h m n = compress_blocks md4_compress 64 m n h"
proof (induction n arbitrary: h m)
  case (Suc n)
  then show ?case using md4_block_one[of h m n] by (simp add: length_md4_compress)
qed simp

interpretation md4: md32_hash md4_block_data_order md4_compress 64 4
  by unfold_locales (simp_all add: md4_block length_md4_compress)

section \<open>The stream\<close>

lemma MD4_Update_fold:
  "foldl MD4_Update c ps = foldl (\<lambda>c p. crypto_md32_update md4_block_data_order 64 p c) c ps"
  by (induction ps arbitrary: c) (simp_all add: MD4_Update_def MD4_CBLOCK_def)

text \<open>MD4 is the function of RFC 1320, and hashes a stream: the unrolled calls with their orders of
  words, rotations and constants fold the compression function of the standard over the padded message,
  whatever the pieces in which it was passed.\<close>

lemma MD4_stream_correct:
  assumes "\<forall>p\<in>set ps. length p < SIZE_MOD"
  shows "fst (MD4_Final (foldl MD4_Update MD4_Init ps)) = le_digest (md4_hash (md_h MD4_Init) (concat ps))"
proof -
  let ?ws = "md_h (crypto_md32_final md4_block_data_order 64 False (foldl MD4_Update MD4_Init ps))"
  have h: "?ws = md4_hash (md_h MD4_Init) (concat ps)"
    unfolding MD4_Update_fold md4_hash_def
    by (rule md4.stream_hash) (use assms in \<open>simp_all add: MD4_Init_def MD4_CBLOCK_def\<close>)
  have "length ?ws = 4"
    unfolding h md4_hash_def by (rule md4.length_fold_blocks) (simp add: MD4_Init_def)
  then obtain a b c d where "?ws = [a, b, c, d]" by (rule length_cases_4)
  then show ?thesis
    unfolding h[symmetric] by (simp add: MD4_Final_def MD4_CBLOCK_def Let_def CRYPTO_store_u32_le_def le_digest_def)
qed

lemma MD4_stream_correct_witness:
  "fst (MD4_Final (foldl MD4_Update MD4_Init [[0x61], [], [0x62, 0x63]])) =
     le_digest (md4_hash (md_h MD4_Init) [0x61, 0x62, 0x63])"
  using MD4_stream_correct[of "[[0x61], [], [0x62, 0x63]]"] by simp

end
