(* ===== verification/Digest.thy ===== *)
theory Digest
  imports Sha1 Sha256 Sha512 Md5 Md4
begin

text \<open>The generic interface to the digests: the tables of methods of \<open>fipsmodule/digest/digests.c\<close> and the
  contexts of \<open>digest.c\<close>.  The locale \<open>digest_method\<close> is the contract of a method; all nine methods
  keep it, and the client of a context needs nothing else.\<close>

section \<open>The methods\<close>

text \<open>The memory behind \<open>md_data\<close>, as the context that it holds.  The contexts of MD4, MD5 and SHA-1 are
  those of the collector; that of \<open>EVP_md5_sha1\<close> is \<open>MD5_SHA1_CTX\<close>.\<close>

datatype digest_data =
    Md32_data md32_ctx
  | Sha256_data sha256_ctx
  | Sha512_data sha512_ctx
  | Md5_sha1_data md5_ctx sha_ctx

text \<open>What a method sees when it takes \<open>md_data\<close> as a context of its own type.  The last equations are
  never used: a method is only called on memory that was allocated for its type.\<close>

fun as_md32 :: "digest_data \<Rightarrow> md32_ctx" where
  "as_md32 (Md32_data c) = c"
| "as_md32 _ = SHA1_Init"

fun as_sha256 :: "digest_data \<Rightarrow> sha256_ctx" where
  "as_sha256 (Sha256_data c) = c"
| "as_sha256 _ = SHA256_Init"

fun as_sha512 :: "digest_data \<Rightarrow> sha512_ctx" where
  "as_sha512 (Sha512_data c) = c"
| "as_sha512 _ = some_ctx512"

fun as_md5_sha1 :: "digest_data \<Rightarrow> md5_ctx \<times> sha_ctx" where
  "as_md5_sha1 (Md5_sha1_data a b) = (a, b)"
| "as_md5_sha1 _ = (MD5_Init, SHA1_Init)"

text \<open>\<open>EVP_MD\<close>.  The results of the update functions are not looked at (\<open>CHECK\<close>), and a final function
  that fails writes nothing.\<close>

record env_md =
  md_type :: nat
  md_size :: nat
  md_flags :: u32
  md_init :: "digest_data \<Rightarrow> digest_data"
  md_update :: "digest_data \<Rightarrow> bytes \<Rightarrow> digest_data"
  md_final :: "digest_data \<Rightarrow> bytes option \<times> digest_data"
  md_block_size :: nat
  md_ctx_size :: nat

definition md4_init :: "digest_data \<Rightarrow> digest_data" where "md4_init d = Md32_data MD4_Init"
definition md4_update :: "digest_data \<Rightarrow> bytes \<Rightarrow> digest_data" where
  "md4_update d inp = Md32_data (MD4_Update (as_md32 d) inp)"
definition md4_final :: "digest_data \<Rightarrow> bytes option \<times> digest_data" where
  "md4_final d = (let (out, c) = MD4_Final (as_md32 d) in (Some out, Md32_data c))"

definition EVP_md4 :: env_md where
  "EVP_md4 = \<lparr>md_type = 257, md_size = 16, md_flags = 0, md_init = md4_init, md_update = md4_update,
     md_final = md4_final, md_block_size = 64, md_ctx_size = 92\<rparr>"

definition md5_init :: "digest_data \<Rightarrow> digest_data" where "md5_init d = Md32_data MD5_Init"
definition md5_update :: "digest_data \<Rightarrow> bytes \<Rightarrow> digest_data" where
  "md5_update d inp = Md32_data (MD5_Update (as_md32 d) inp)"
definition md5_final :: "digest_data \<Rightarrow> bytes option \<times> digest_data" where
  "md5_final d = (let (out, c) = MD5_Final (as_md32 d) in (Some out, Md32_data c))"

definition EVP_md5 :: env_md where
  "EVP_md5 = \<lparr>md_type = 4, md_size = 16, md_flags = 0, md_init = md5_init, md_update = md5_update,
     md_final = md5_final, md_block_size = 64, md_ctx_size = 92\<rparr>"

definition sha1_init :: "digest_data \<Rightarrow> digest_data" where "sha1_init d = Md32_data SHA1_Init"
definition sha1_update :: "digest_data \<Rightarrow> bytes \<Rightarrow> digest_data" where
  "sha1_update d inp = Md32_data (SHA1_Update (as_md32 d) inp)"
definition sha1_final :: "digest_data \<Rightarrow> bytes option \<times> digest_data" where
  "sha1_final d = (let (out, c) = SHA1_Final (as_md32 d) in (Some out, Md32_data c))"

definition EVP_sha1 :: env_md where
  "EVP_sha1 = \<lparr>md_type = 64, md_size = 20, md_flags = 0, md_init = sha1_init, md_update = sha1_update,
     md_final = sha1_final, md_block_size = 64, md_ctx_size = 96\<rparr>"

definition sha224_init :: "digest_data \<Rightarrow> digest_data" where "sha224_init d = Sha256_data SHA224_Init"
definition sha224_update :: "digest_data \<Rightarrow> bytes \<Rightarrow> digest_data" where
  "sha224_update d inp = Sha256_data (SHA224_Update (as_sha256 d) inp)"
definition sha224_final :: "digest_data \<Rightarrow> bytes option \<times> digest_data" where
  "sha224_final d = (let (out, c) = SHA224_Final (as_sha256 d) in (out, Sha256_data c))"

definition EVP_sha224 :: env_md where
  "EVP_sha224 = \<lparr>md_type = 675, md_size = SHA224_DIGEST_LENGTH, md_flags = 0, md_init = sha224_init,
     md_update = sha224_update, md_final = sha224_final, md_block_size = 64, md_ctx_size = 112\<rparr>"

definition sha256_init :: "digest_data \<Rightarrow> digest_data" where "sha256_init d = Sha256_data SHA256_Init"
definition sha256_update :: "digest_data \<Rightarrow> bytes \<Rightarrow> digest_data" where
  "sha256_update d inp = Sha256_data (SHA256_Update (as_sha256 d) inp)"
definition sha256_final :: "digest_data \<Rightarrow> bytes option \<times> digest_data" where
  "sha256_final d = (let (out, c) = SHA256_Final (as_sha256 d) in (out, Sha256_data c))"

definition EVP_sha256 :: env_md where
  "EVP_sha256 = \<lparr>md_type = 672, md_size = SHA256_DIGEST_LENGTH, md_flags = 0, md_init = sha256_init,
     md_update = sha256_update, md_final = sha256_final, md_block_size = 64, md_ctx_size = 112\<rparr>"

definition sha384_init :: "digest_data \<Rightarrow> digest_data" where "sha384_init d = Sha512_data (SHA384_Init (as_sha512 d))"
definition sha384_update :: "digest_data \<Rightarrow> bytes \<Rightarrow> digest_data" where
  "sha384_update d inp = Sha512_data (SHA384_Update (as_sha512 d) inp)"
definition sha384_final :: "digest_data \<Rightarrow> bytes option \<times> digest_data" where
  "sha384_final d = (let (out, c) = SHA384_Final (as_sha512 d) in (out, Sha512_data c))"

definition EVP_sha384 :: env_md where
  "EVP_sha384 = \<lparr>md_type = 673, md_size = SHA384_DIGEST_LENGTH, md_flags = 0, md_init = sha384_init,
     md_update = sha384_update, md_final = sha384_final, md_block_size = 128, md_ctx_size = 216\<rparr>"

definition sha512_init :: "digest_data \<Rightarrow> digest_data" where "sha512_init d = Sha512_data (SHA512_Init (as_sha512 d))"
definition sha512_update :: "digest_data \<Rightarrow> bytes \<Rightarrow> digest_data" where
  "sha512_update d inp = Sha512_data (SHA512_Update (as_sha512 d) inp)"
definition sha512_final :: "digest_data \<Rightarrow> bytes option \<times> digest_data" where
  "sha512_final d = (let (out, c) = SHA512_Final (as_sha512 d) in (out, Sha512_data c))"

definition EVP_sha512 :: env_md where
  "EVP_sha512 = \<lparr>md_type = 674, md_size = SHA512_DIGEST_LENGTH, md_flags = 0, md_init = sha512_init,
     md_update = sha512_update, md_final = sha512_final, md_block_size = 128, md_ctx_size = 216\<rparr>"

definition sha512_256_init :: "digest_data \<Rightarrow> digest_data" where
  "sha512_256_init d = Sha512_data (SHA512_256_Init (as_sha512 d))"
definition sha512_256_update :: "digest_data \<Rightarrow> bytes \<Rightarrow> digest_data" where
  "sha512_256_update d inp = Sha512_data (SHA512_256_Update (as_sha512 d) inp)"
definition sha512_256_final :: "digest_data \<Rightarrow> bytes option \<times> digest_data" where
  "sha512_256_final d = (let (out, c) = SHA512_256_Final (as_sha512 d) in (out, Sha512_data c))"

definition EVP_sha512_256 :: env_md where
  "EVP_sha512_256 = \<lparr>md_type = 962, md_size = SHA512_256_DIGEST_LENGTH, md_flags = 0, md_init = sha512_256_init,
     md_update = sha512_256_update, md_final = sha512_256_final, md_block_size = 128, md_ctx_size = 216\<rparr>"

definition md5_sha1_init :: "digest_data \<Rightarrow> digest_data" where "md5_sha1_init d = Md5_sha1_data MD5_Init SHA1_Init"
definition md5_sha1_update :: "digest_data \<Rightarrow> bytes \<Rightarrow> digest_data" where
  "md5_sha1_update d inp = (let (a, b) = as_md5_sha1 d in Md5_sha1_data (MD5_Update a inp) (SHA1_Update b inp))"
definition md5_sha1_final :: "digest_data \<Rightarrow> bytes option \<times> digest_data" where
  "md5_sha1_final d =
     (let (a, b) = as_md5_sha1 d; (out1, a) = MD5_Final a; (out2, b) = SHA1_Final b
      in (Some (out1 @ out2), Md5_sha1_data a b))"

definition EVP_md5_sha1 :: env_md where
  "EVP_md5_sha1 = \<lparr>md_type = 114, md_size = 16 + 20, md_flags = 0, md_init = md5_sha1_init,
     md_update = md5_sha1_update, md_final = md5_sha1_final, md_block_size = 64, md_ctx_size = 188\<rparr>"

text \<open>A pointer to one of these objects; pointers are equal when they point to the same object.\<close>

datatype evp_md = MD_md4 | MD_md5 | MD_sha1 | MD_sha224 | MD_sha256 | MD_sha384 | MD_sha512 | MD_sha512_256 | MD_md5_sha1

fun md_method :: "evp_md \<Rightarrow> env_md" where
  "md_method MD_md4 = EVP_md4"
| "md_method MD_md5 = EVP_md5"
| "md_method MD_sha1 = EVP_sha1"
| "md_method MD_sha224 = EVP_sha224"
| "md_method MD_sha256 = EVP_sha256"
| "md_method MD_sha384 = EVP_sha384"
| "md_method MD_sha512 = EVP_sha512"
| "md_method MD_sha512_256 = EVP_sha512_256"
| "md_method MD_md5_sha1 = EVP_md5_sha1"

definition EVP_MD_type :: "evp_md \<Rightarrow> nat" where "EVP_MD_type md = md_type (md_method md)"
definition EVP_MD_nid :: "evp_md \<Rightarrow> nat" where "EVP_MD_nid md = EVP_MD_type md"
definition EVP_MD_flags :: "evp_md \<Rightarrow> u32" where "EVP_MD_flags md = md_flags (md_method md)"
definition EVP_MD_size :: "evp_md \<Rightarrow> nat" where "EVP_MD_size md = md_size (md_method md)"
definition EVP_MD_block_size :: "evp_md \<Rightarrow> nat" where "EVP_MD_block_size md = md_block_size (md_method md)"

section \<open>Contexts\<close>

text \<open>\<open>EVP_MD_CTX\<close>; \<open>pctx\<close> stands for the object of the public-key layer with its table of functions.\<close>

record 'p evp_md_ctx =
  digest :: "evp_md option"
  ctx_data :: "digest_data option"
  pctx :: "'p option"

definition EVP_MAX_MD_SIZE :: nat where "EVP_MAX_MD_SIZE = 64"
definition EVP_MAX_MD_BLOCK_SIZE :: nat where "EVP_MAX_MD_BLOCK_SIZE = 128"

definition EVP_MD_CTX_init :: "'p evp_md_ctx" where
  "EVP_MD_CTX_init = \<lparr>digest = None, ctx_data = None, pctx = None\<rparr>"

text \<open>The blocks that are freed do not appear in the model.\<close>

definition EVP_MD_CTX_cleanup :: "'p evp_md_ctx \<Rightarrow> 'p evp_md_ctx" where
  "EVP_MD_CTX_cleanup ctx = EVP_MD_CTX_init"

definition EVP_MD_CTX_reset :: "'p evp_md_ctx \<Rightarrow> 'p evp_md_ctx" where
  "EVP_MD_CTX_reset ctx = EVP_MD_CTX_init"

text \<open>\<open>alloc n\<close> is what the allocator gives for \<open>n\<close> bytes, \<open>dup\<close> the function of \<open>pctx_ops\<close>.\<close>

definition EVP_MD_CTX_copy_ex ::
  "(nat \<Rightarrow> digest_data option) \<Rightarrow> ('p \<Rightarrow> 'p option) \<Rightarrow> 'p evp_md_ctx \<Rightarrow> 'p evp_md_ctx \<Rightarrow> bool \<times> 'p evp_md_ctx" where
  "EVP_MD_CTX_copy_ex alloc dup out inp =
     (if pctx inp = None \<and> digest inp = None then (False, out)
      else
        (let new_pctx = (case pctx inp of None \<Rightarrow> None | Some p \<Rightarrow> dup p)
         in if pctx inp \<noteq> None \<and> new_pctx = None then (False, out)
            else
              (case digest inp of
                 None \<Rightarrow> (True, \<lparr>digest = None, ctx_data = None, pctx = new_pctx\<rparr>)
               | Some md \<Rightarrow>
                   if digest out \<noteq> Some md \<and> alloc (md_ctx_size (md_method md)) = None then (False, out)
                   else (True, \<lparr>digest = Some md, ctx_data = ctx_data inp, pctx = new_pctx\<rparr>))))"

definition EVP_MD_CTX_move :: "'p evp_md_ctx \<Rightarrow> 'p evp_md_ctx \<Rightarrow> 'p evp_md_ctx \<times> 'p evp_md_ctx" where
  "EVP_MD_CTX_move out inp = (inp, EVP_MD_CTX_init)"

definition EVP_MD_CTX_copy ::
  "(nat \<Rightarrow> digest_data option) \<Rightarrow> ('p \<Rightarrow> 'p option) \<Rightarrow> 'p evp_md_ctx \<Rightarrow> bool \<times> 'p evp_md_ctx" where
  "EVP_MD_CTX_copy alloc dup inp = EVP_MD_CTX_copy_ex alloc dup EVP_MD_CTX_init inp"

definition EVP_DigestInit_ex :: "(nat \<Rightarrow> digest_data option) \<Rightarrow> 'p evp_md_ctx \<Rightarrow> evp_md \<Rightarrow> bool \<times> 'p evp_md_ctx" where
  "EVP_DigestInit_ex alloc ctx md =
     (let start = (\<lambda>ctx. (True, ctx\<lparr>ctx_data := map_option (md_init (md_method md)) (ctx_data ctx)\<rparr>))
      in if digest ctx \<noteq> Some md then
           (case alloc (md_ctx_size (md_method md)) of
              None \<Rightarrow> (False, ctx)
            | Some d \<Rightarrow> start (ctx\<lparr>ctx_data := Some d, digest := Some md\<rparr>))
         else start ctx)"

definition EVP_DigestInit :: "(nat \<Rightarrow> digest_data option) \<Rightarrow> evp_md \<Rightarrow> bool \<times> 'p evp_md_ctx" where
  "EVP_DigestInit alloc md = EVP_DigestInit_ex alloc EVP_MD_CTX_init md"

text \<open>Calls on a context with no digest dereference \<open>NULL\<close>; the model leaves such a context as it is.\<close>

definition EVP_DigestUpdate :: "'p evp_md_ctx \<Rightarrow> bytes \<Rightarrow> 'p evp_md_ctx" where
  "EVP_DigestUpdate ctx inp =
     (case digest ctx of
        None \<Rightarrow> ctx
      | Some md \<Rightarrow> ctx\<lparr>ctx_data := map_option (\<lambda>d. md_update (md_method md) d inp) (ctx_data ctx)\<rparr>)"

text \<open>\<open>OPENSSL_cleanse\<close> of the context.\<close>

definition zero_md32 :: "'a md32_ctx_scheme \<Rightarrow> 'a md32_ctx_scheme" where
  "zero_md32 c = c\<lparr>md_h := map (\<lambda>_. 0) (md_h c), Nl := 0, Nh := 0, md_data := map (\<lambda>_. 0) (md_data c), md_num := 0\<rparr>"

fun cleanse_data :: "digest_data \<Rightarrow> digest_data" where
  "cleanse_data (Md32_data c) = Md32_data (zero_md32 c)"
| "cleanse_data (Sha256_data c) = Sha256_data ((zero_md32 c)\<lparr>md_len := 0\<rparr>)"
| "cleanse_data (Sha512_data c) =
     Sha512_data \<lparr>sha_h = map (\<lambda>_. 0) (sha_h c), sha_Nl = 0, sha_Nh = 0, sha_p = map (\<lambda>_. 0) (sha_p c), sha_num = 0, sha_md_len = 0\<rparr>"
| "cleanse_data (Md5_sha1_data a b) = Md5_sha1_data (zero_md32 a) (zero_md32 b)"

text \<open>The bytes written, and their number as the code reports it.\<close>

definition EVP_DigestFinal_ex :: "'p evp_md_ctx \<Rightarrow> (bytes option \<times> nat) \<times> 'p evp_md_ctx" where
  "EVP_DigestFinal_ex ctx =
     (case (digest ctx, ctx_data ctx) of
        (Some md, Some d) \<Rightarrow>
          (let (out, d) = md_final (md_method md) d
           in ((out, md_size (md_method md)), ctx\<lparr>ctx_data := Some (cleanse_data d)\<rparr>))
      | _ \<Rightarrow> ((None, 0), ctx))"

definition EVP_DigestFinal :: "'p evp_md_ctx \<Rightarrow> (bytes option \<times> nat) \<times> 'p evp_md_ctx" where
  "EVP_DigestFinal ctx = (let (out, ctx) = EVP_DigestFinal_ex ctx in (out, EVP_MD_CTX_cleanup ctx))"

definition EVP_Digest :: "(nat \<Rightarrow> digest_data option) \<Rightarrow> bytes \<Rightarrow> evp_md \<Rightarrow> (bytes option \<times> nat) option" where
  "EVP_Digest alloc inp md =
     (let (ok, ctx) = EVP_DigestInit_ex alloc (EVP_MD_CTX_init :: unit evp_md_ctx) md
      in if ok then Some (fst (EVP_DigestFinal_ex (EVP_DigestUpdate ctx inp))) else None)"

definition EVP_MD_CTX_md :: "'p evp_md_ctx option \<Rightarrow> evp_md option" where
  "EVP_MD_CTX_md ctx = (case ctx of None \<Rightarrow> None | Some c \<Rightarrow> digest c)"

definition EVP_MD_CTX_size :: "'p evp_md_ctx \<Rightarrow> nat option" where
  "EVP_MD_CTX_size ctx = map_option EVP_MD_size (EVP_MD_CTX_md (Some ctx))"

definition EVP_MD_CTX_block_size :: "'p evp_md_ctx \<Rightarrow> nat option" where
  "EVP_MD_CTX_block_size ctx = map_option EVP_MD_block_size (EVP_MD_CTX_md (Some ctx))"

definition EVP_MD_CTX_type :: "'p evp_md_ctx \<Rightarrow> nat option" where
  "EVP_MD_CTX_type ctx = map_option EVP_MD_type (EVP_MD_CTX_md (Some ctx))"

section \<open>The contract of a method\<close>

locale digest_method =
  fixes init :: "'d \<Rightarrow> 'd" and update :: "'d \<Rightarrow> bytes \<Rightarrow> 'd" and final :: "'d \<Rightarrow> bytes option \<times> 'd" and wipe :: "'d \<Rightarrow> 'd"
    and H :: "bytes \<Rightarrow> bytes" and size :: nat and absorbs :: "'d \<Rightarrow> bytes \<Rightarrow> bool" and ready :: "'d \<Rightarrow> bool"
  assumes init: "ready d \<Longrightarrow> absorbs (init d) []"
    and update: "absorbs d m \<Longrightarrow> length p < SIZE_MOD \<Longrightarrow> absorbs (update d p) (m @ p)"
    and final: "absorbs d m \<Longrightarrow> fst (final d) = Some (H m)"
    and again: "absorbs d m \<Longrightarrow> ready d" "absorbs d m \<Longrightarrow> ready (wipe (snd (final d)))"
    and size: "length (H m) = size"
begin

lemma absorbs_stream: "absorbs d m \<Longrightarrow> \<forall>p\<in>set ps. length p < SIZE_MOD \<Longrightarrow> absorbs (foldl update d ps) (m @ concat ps)"
proof (induction ps arbitrary: d m)
  case (Cons p ps)
  then show ?case using update[of d m p] Cons.IH[of "update d p" "m @ p"] by simp
qed simp

lemma stream: "ready d \<Longrightarrow> \<forall>p\<in>set ps. length p < SIZE_MOD \<Longrightarrow> fst (final (foldl update (init d) ps)) = Some (H (concat ps))"
  using final[OF absorbs_stream[OF init]] by simp

end

text \<open>The hash functions, and what it means that the memory of a context has absorbed a message.\<close>

fun md_hash :: "evp_md \<Rightarrow> bytes \<Rightarrow> bytes" where
  "md_hash MD_md4 m = le_digest (md4_hash (md_h MD4_Init) m)"
| "md_hash MD_md5 m = le_digest (md5_hash (md_h MD5_Init) m)"
| "md_hash MD_sha1 m = be_digest (sha1_hash (md_h SHA1_Init) m)"
| "md_hash MD_sha224 m = be_digest (take 7 (fips_hash (md_h SHA224_Init) m))"
| "md_hash MD_sha256 m = be_digest (fips_hash (md_h SHA256_Init) m)"
| "md_hash MD_sha384 m = be_digest8 (take 6 (fips512_hash (sha_h (SHA384_Init some_ctx512)) m))"
| "md_hash MD_sha512 m = be_digest8 (fips512_hash (sha_h (SHA512_Init some_ctx512)) m)"
| "md_hash MD_sha512_256 m = be_digest8 (take 4 (fips512_hash (sha_h (SHA512_256_Init some_ctx512)) m))"
| "md_hash MD_md5_sha1 m = le_digest (md5_hash (md_h MD5_Init) m) @ be_digest (sha1_hash (md_h SHA1_Init) m)"

definition absorbs32 :: "(u32 list \<Rightarrow> bytes \<Rightarrow> u32 list) \<Rightarrow> u32 list \<Rightarrow> 'a md32_ctx_scheme \<Rightarrow> bytes \<Rightarrow> bool" where
  "absorbs32 f h0 c m \<longleftrightarrow> ctx_partial f 64 h0 c m \<and> ctx_count c m"

definition absorbs512 :: "u64 list \<Rightarrow> nat \<Rightarrow> sha512_ctx \<Rightarrow> bytes \<Rightarrow> bool" where
  "absorbs512 h0 n c m \<longleftrightarrow> ctx512 h0 c m \<and> count512 c m \<and> sha_md_len c = n"

definition absorbs :: "evp_md \<Rightarrow> digest_data \<Rightarrow> bytes \<Rightarrow> bool" where
  "absorbs md d m =
     (case md of
        MD_md4 \<Rightarrow> (\<exists>c. d = Md32_data c \<and> absorbs32 md4_compress (md_h MD4_Init) c m)
      | MD_md5 \<Rightarrow> (\<exists>c. d = Md32_data c \<and> absorbs32 md5_compress (md_h MD5_Init) c m)
      | MD_sha1 \<Rightarrow> (\<exists>c. d = Md32_data c \<and> absorbs32 sha1_compress (md_h SHA1_Init) c m)
      | MD_sha224 \<Rightarrow> (\<exists>c. d = Sha256_data c \<and> absorbs32 sha256_compress (md_h SHA224_Init) c m \<and> md_len c = 28)
      | MD_sha256 \<Rightarrow> (\<exists>c. d = Sha256_data c \<and> absorbs32 sha256_compress (md_h SHA256_Init) c m \<and> md_len c = 32)
      | MD_sha384 \<Rightarrow> (\<exists>c. d = Sha512_data c \<and> absorbs512 (sha_h (SHA384_Init some_ctx512)) 48 c m)
      | MD_sha512 \<Rightarrow> (\<exists>c. d = Sha512_data c \<and> absorbs512 (sha_h (SHA512_Init some_ctx512)) 64 c m)
      | MD_sha512_256 \<Rightarrow> (\<exists>c. d = Sha512_data c \<and> absorbs512 (sha_h (SHA512_256_Init some_ctx512)) 32 c m)
      | MD_md5_sha1 \<Rightarrow> (\<exists>a b. d = Md5_sha1_data a b \<and> absorbs32 md5_compress (md_h MD5_Init) a m \<and>
          absorbs32 sha1_compress (md_h SHA1_Init) b m))"

text \<open>Memory of the right type for a method.\<close>

definition ready :: "evp_md \<Rightarrow> digest_data \<Rightarrow> bool" where
  "ready md d =
     (case md of
        MD_md4 \<Rightarrow> (\<exists>c. d = Md32_data c) | MD_md5 \<Rightarrow> (\<exists>c. d = Md32_data c) | MD_sha1 \<Rightarrow> (\<exists>c. d = Md32_data c)
      | MD_sha224 \<Rightarrow> (\<exists>c. d = Sha256_data c) | MD_sha256 \<Rightarrow> (\<exists>c. d = Sha256_data c)
      | MD_sha384 \<Rightarrow> (\<exists>c. d = Sha512_data c \<and> length (sha_p c) = 128)
      | MD_sha512 \<Rightarrow> (\<exists>c. d = Sha512_data c \<and> length (sha_p c) = 128)
      | MD_sha512_256 \<Rightarrow> (\<exists>c. d = Sha512_data c \<and> length (sha_p c) = 128)
      | MD_md5_sha1 \<Rightarrow> (\<exists>a b. d = Md5_sha1_data a b))"

section \<open>Every method keeps the contract\<close>

lemma length_digests [simp]:
  "length (be_digest ws) = 4 * length ws" "length (le_digest ws) = 4 * length ws" "length (be_digest8 xs) = 8 * length xs"
  by (simp_all add: be_digest_def le_digest_def be_digest8_def length_concat o_def sum_list_triv)

lemma init_lengths [simp]:
  "length (md_h MD4_Init) = 4" "length (md_h MD5_Init) = 4" "length (md_h SHA1_Init) = 5"
  "length (md_h SHA224_Init) = 8" "length (md_h SHA256_Init) = 8"
  "length (sha_h (SHA384_Init c)) = 8" "length (sha_h (SHA512_Init c)) = 8" "length (sha_h (SHA512_256_Init c)) = 8"
  by (simp_all add: MD4_Init_def MD5_Init_def SHA1_Init_def SHA224_Init_def SHA256_Init_def
      SHA384_Init_def SHA512_Init_def SHA512_256_Init_def)

lemma hash_lengths [simp]:
  "length (md4_hash (md_h MD4_Init) m) = 4" "length (md5_hash (md_h MD5_Init) m) = 4"
  "length (sha1_hash (md_h SHA1_Init) m) = 5" "length (fips_hash (md_h SHA224_Init) m) = 8"
  "length (fips_hash (md_h SHA256_Init) m) = 8"
  "length (fips512_hash (sha_h (SHA384_Init c)) m) = 8" "length (fips512_hash (sha_h (SHA512_Init c)) m) = 8"
  "length (fips512_hash (sha_h (SHA512_256_Init c)) m) = 8"
  by (simp_all add: md4_hash_def md5_hash_def sha1_hash_def fips_hash_def fips512_hash_def
      md4.length_fold_blocks md5.length_fold_blocks sha1.length_fold_blocks sha256.length_fold_blocks sha512.length_fold_blocks)

lemma md_hash_size: "length (md_hash md m) = md_size (md_method md)"
  by (cases md) (simp_all add: EVP_md4_def EVP_md5_def EVP_sha1_def EVP_sha224_def EVP_sha256_def EVP_sha384_def
      EVP_sha512_def EVP_sha512_256_def EVP_md5_sha1_def SHA224_DIGEST_LENGTH_def SHA256_DIGEST_LENGTH_def
      SHA384_DIGEST_LENGTH_def SHA512_DIGEST_LENGTH_def SHA512_256_DIGEST_LENGTH_def)

text \<open>The start.\<close>

lemma absorbs32_init:
  "md_num c = 0 \<Longrightarrow> length (md_data c) = 64 \<Longrightarrow> Nl c = 0 \<Longrightarrow> Nh c = 0 \<Longrightarrow> absorbs32 f (md_h c) c []"
  by (simp add: absorbs32_def ctx_partial_def ctx_count_def fold_blocks_def rest_def)

lemma absorbs512_init:
  "sha_num c = 0 \<Longrightarrow> length (sha_p c) = 128 \<Longrightarrow> sha_Nl c = 0 \<Longrightarrow> sha_Nh c = 0 \<Longrightarrow> absorbs512 (sha_h c) (sha_md_len c) c []"
  by (simp add: absorbs512_def ctx512_def count512_def fold_blocks_def rest_def)

lemma init_absorbs:
  "absorbs32 f (md_h MD4_Init) MD4_Init []" "absorbs32 f (md_h MD5_Init) MD5_Init []" "absorbs32 f (md_h SHA1_Init) SHA1_Init []"
  "absorbs32 f (md_h SHA224_Init) SHA224_Init []" "absorbs32 f (md_h SHA256_Init) SHA256_Init []"
  by (rule absorbs32_init; simp add: MD4_Init_def MD5_Init_def SHA1_Init_def SHA224_Init_def SHA256_Init_def
      MD4_CBLOCK_def MD5_CBLOCK_def SHA_CBLOCK_def SHA256_CBLOCK_def)+

lemma init512_same: "sha_h (SHA384_Init c) = sha_h (SHA384_Init d)" "sha_h (SHA512_Init c) = sha_h (SHA512_Init d)"
  "sha_h (SHA512_256_Init c) = sha_h (SHA512_256_Init d)"
  by (simp_all add: SHA384_Init_def SHA512_Init_def SHA512_256_Init_def)

lemma init_absorbs_512:
  assumes "length (sha_p c) = 128"
  shows "absorbs512 (sha_h (SHA384_Init some_ctx512)) 48 (SHA384_Init c) []"
    and "absorbs512 (sha_h (SHA512_Init some_ctx512)) 64 (SHA512_Init c) []"
    and "absorbs512 (sha_h (SHA512_256_Init some_ctx512)) 32 (SHA512_256_Init c) []"
  using absorbs512_init[of "SHA384_Init c"] absorbs512_init[of "SHA512_Init c"] absorbs512_init[of "SHA512_256_Init c"] assms
  by (simp_all add: SHA384_Init_def SHA512_Init_def SHA512_256_Init_def
      SHA384_DIGEST_LENGTH_def SHA512_DIGEST_LENGTH_def SHA512_256_DIGEST_LENGTH_def)

text \<open>Updates.\<close>

lemma update_absorbs:
  assumes "length p < SIZE_MOD"
  shows "absorbs32 md4_compress h4 c m \<Longrightarrow> length h4 = 4 \<Longrightarrow> absorbs32 md4_compress h4 (MD4_Update c p) (m @ p)"
    and "absorbs32 md5_compress h4 c m \<Longrightarrow> length h4 = 4 \<Longrightarrow> absorbs32 md5_compress h4 (MD5_Update c p) (m @ p)"
    and "absorbs32 sha1_compress h5 c m \<Longrightarrow> length h5 = 5 \<Longrightarrow> absorbs32 sha1_compress h5 (SHA1_Update c p) (m @ p)"
    and "absorbs32 sha256_compress h8 d m \<Longrightarrow> length h8 = 8 \<Longrightarrow> absorbs32 sha256_compress h8 (SHA256_Update d p) (m @ p)"
  using assms
  by (simp_all add: md4.update_partial md4.update_count md5.update_partial md5.update_count sha1.update_partial
      sha1.update_count sha256.update_partial sha256.update_count absorbs32_def MD4_Update_def MD5_Update_def SHA1_Update_def SHA256_Update_def
      MD4_CBLOCK_def MD5_CBLOCK_def SHA_CBLOCK_def SHA256_CBLOCK_def)

lemma update_absorbs_512: "absorbs512 h n c m \<Longrightarrow> length h = 8 \<Longrightarrow> absorbs512 h n (SHA512_Update c p) (m @ p)"
  using SHA512_Update_ctx[of h c m p] SHA512_Update_count[of c m p] by (simp add: absorbs512_def SHA512_Update_md_len)

lemma md_len_SHA256_Update: "md_len (SHA256_Update c p) = md_len c"
  using md_len_update[of c "[p]"] by simp

text \<open>The end.\<close>

lemma final_absorbed:
  shows "absorbs32 md4_compress (md_h MD4_Init) c m \<Longrightarrow> fst (MD4_Final c) = le_digest (md4_hash (md_h MD4_Init) m)"
    and "absorbs32 md5_compress (md_h MD5_Init) c m \<Longrightarrow> fst (MD5_Final c) = le_digest (md5_hash (md_h MD5_Init) m)"
    and "absorbs32 sha1_compress (md_h SHA1_Init) c m \<Longrightarrow> fst (SHA1_Final c) = be_digest (sha1_hash (md_h SHA1_Init) m)"
proof -
  assume "absorbs32 md4_compress (md_h MD4_Init) c m"
  then have h: "md_h (crypto_md32_final md4_block_data_order 64 False c) = md4_hash (md_h MD4_Init) m"
    unfolding absorbs32_def md4_hash_def by (elim conjE) (rule md4.final_partial(1); simp)
  obtain a b d e where "md4_hash (md_h MD4_Init) m = [a, b, d, e]" by (rule length_cases_4[of "md4_hash (md_h MD4_Init) m"]) simp
  with h show "fst (MD4_Final c) = le_digest (md4_hash (md_h MD4_Init) m)"
    by (simp add: MD4_Final_def MD4_CBLOCK_def Let_def CRYPTO_store_u32_le_def le_digest_def)
next
  assume "absorbs32 md5_compress (md_h MD5_Init) c m"
  then have h: "md_h (crypto_md32_final md5_block_data_order 64 False c) = md5_hash (md_h MD5_Init) m"
    unfolding absorbs32_def md5_hash_def by (elim conjE) (rule md5.final_partial(1); simp)
  obtain a b d e where "md5_hash (md_h MD5_Init) m = [a, b, d, e]" by (rule length_cases_4[of "md5_hash (md_h MD5_Init) m"]) simp
  with h show "fst (MD5_Final c) = le_digest (md5_hash (md_h MD5_Init) m)"
    by (simp add: MD5_Final_def MD5_CBLOCK_def Let_def CRYPTO_store_u32_le_def le_digest_def)
next
  assume "absorbs32 sha1_compress (md_h SHA1_Init) c m"
  then have h: "md_h (crypto_md32_final sha1_block_data_order 64 True c) = sha1_hash (md_h SHA1_Init) m"
    unfolding absorbs32_def sha1_hash_def by (elim conjE) (rule sha1.final_partial(1); simp)
  obtain a b d e f where "sha1_hash (md_h SHA1_Init) m = [a, b, d, e, f]" by (rule length_cases_5[of "sha1_hash (md_h SHA1_Init) m"]) simp
  with h show "fst (SHA1_Final c) = be_digest (sha1_hash (md_h SHA1_Init) m)"
    by (simp add: SHA1_Final_def SHA_CBLOCK_def Let_def CRYPTO_store_u32_be be_digest_def)
qed

lemma final_absorbed_256:
  assumes "absorbs32 sha256_compress h c m" "length h = 8" "md_len c \<le> 32"
  shows "fst (sha256_final_impl c) = Some (be_digest (take (md_len c div 4) (fips_hash h m)))"
proof -
  have "md_h (crypto_md32_final sha256_block_data_order 64 True c) = fips_hash h m"
    using assms(1,2) unfolding absorbs32_def fips_hash_def by (elim conjE) (rule sha256.final_partial(1))
  then show ?thesis
    using sha256.length_fold_blocks[OF assms(2)] by (intro sha256_final_impl_digest) (simp_all add: assms(3) fips_hash_def)
qed

lemma final_absorbed_512:
  "absorbs512 h n c m \<Longrightarrow> length h = 8 \<Longrightarrow> n \<le> 64 \<Longrightarrow>
   fst (sha512_final_impl True c) = Some (be_digest8 (take (n div 8) (fips512_hash h m)))"
  using sha512_final_digest[of h c m] by (simp add: absorbs512_def)

lemma sha512_final_p: "absorbs512 h n c m \<Longrightarrow> length (sha_p (snd (sha512_final_impl True c))) = 128"
  by (auto simp: absorbs512_def ctx512_def sha512_final_impl_def SHA512_CBLOCK_def CRYPTO_store_u64_be Let_def split: prod.splits)

lemma method_init: "ready md d \<Longrightarrow> absorbs md (md_init (md_method md) d) []"
  by (cases md)
     (auto simp: ready_def absorbs_def init_absorbs init_absorbs_512 EVP_md4_def EVP_md5_def EVP_sha1_def EVP_sha224_def
      EVP_sha256_def EVP_sha384_def EVP_sha512_def EVP_sha512_256_def EVP_md5_sha1_def md4_init_def md5_init_def
      sha1_init_def sha224_init_def sha256_init_def sha384_init_def sha512_init_def sha512_256_init_def md5_sha1_init_def
      SHA224_Init_def[THEN arg_cong[of _ _ md_len]] SHA256_Init_def[THEN arg_cong[of _ _ md_len]]
      SHA224_DIGEST_LENGTH_def SHA256_DIGEST_LENGTH_def)

lemma method_update:
  "absorbs md d m \<Longrightarrow> length p < SIZE_MOD \<Longrightarrow> absorbs md (md_update (md_method md) d p) (m @ p)"
  by (cases md)
     (auto simp: absorbs_def update_absorbs update_absorbs_512 md_len_SHA256_Update EVP_md4_def EVP_md5_def EVP_sha1_def
      EVP_sha224_def EVP_sha256_def EVP_sha384_def EVP_sha512_def EVP_sha512_256_def EVP_md5_sha1_def md4_update_def
      md5_update_def sha1_update_def sha224_update_def sha256_update_def sha384_update_def sha512_update_def
      sha512_256_update_def md5_sha1_update_def SHA224_Update_def SHA384_Update_def SHA512_256_Update_def)

lemma method_final: "absorbs md d m \<Longrightarrow> fst (md_final (md_method md) d) = Some (md_hash md m)"
  by (cases md)
     (auto simp: absorbs_def final_absorbed final_absorbed_256 final_absorbed_512 EVP_md4_def EVP_md5_def EVP_sha1_def
      EVP_sha224_def EVP_sha256_def EVP_sha384_def EVP_sha512_def EVP_sha512_256_def EVP_md5_sha1_def md4_final_def
      md5_final_def sha1_final_def sha224_final_def sha256_final_def sha384_final_def sha512_final_def
      sha512_256_final_def md5_sha1_final_def SHA224_Final_def SHA256_Final_def SHA384_Final_def SHA512_Final_def
      SHA512_256_Final_def case_prod_beta Let_def)

lemma method_again:
  assumes "absorbs md d m"
  shows "ready md d" and "ready md (cleanse_data (snd (md_final (md_method md) d)))"
proof -
  show "ready md d"
    using assms by (cases md) (auto simp: absorbs_def ready_def absorbs512_def ctx512_def)
  show "ready md (cleanse_data (snd (md_final (md_method md) d)))"
    using assms
    by (cases md)
       (auto simp: absorbs_def ready_def sha512_final_p EVP_md4_def EVP_md5_def EVP_sha1_def EVP_sha224_def EVP_sha256_def
        EVP_sha384_def EVP_sha512_def EVP_sha512_256_def EVP_md5_sha1_def md4_final_def md5_final_def sha1_final_def
        sha224_final_def sha256_final_def sha384_final_def sha512_final_def sha512_256_final_def md5_sha1_final_def
        SHA384_Final_def SHA512_Final_def SHA512_256_Final_def case_prod_beta Let_def)
qed

interpretation evp: digest_method "md_init (md_method md)" "md_update (md_method md)" "md_final (md_method md)" cleanse_data
  "md_hash md" "md_size (md_method md)" "absorbs md" "ready md" for md
  by unfold_locales (simp_all add: method_init method_update method_final method_again md_hash_size)

text \<open>The round constants of SHA-512 extend those of SHA-256.\<close>

lemma K512_K256: "map (\<lambda>k. unat (drop_bit 32 k)) (take 64 K512) = map unat K256"
  by (simp add: K512_def K256_def drop_bit_eq_div unat_div)

section \<open>Contexts over the methods\<close>

text \<open>\<open>md_grants alloc md\<close>: the allocator gives memory for the context of \<open>md\<close>.  A context is usable for \<open>md\<close>
  when any memory that it holds for \<open>md\<close> already has the type.\<close>

definition md_grants :: "(nat \<Rightarrow> digest_data option) \<Rightarrow> evp_md \<Rightarrow> bool" where
  "md_grants alloc md \<longleftrightarrow> (\<exists>d. alloc (md_ctx_size (md_method md)) = Some d \<and> ready md d)"

definition ctx_usable :: "'p evp_md_ctx \<Rightarrow> evp_md \<Rightarrow> bool" where
  "ctx_usable ctx md \<longleftrightarrow> (digest ctx = Some md \<longrightarrow> (\<exists>d. ctx_data ctx = Some d \<and> ready md d))"

definition ctx_absorbs :: "'p evp_md_ctx \<Rightarrow> evp_md \<Rightarrow> bytes \<Rightarrow> bool" where
  "ctx_absorbs ctx md m \<longleftrightarrow> digest ctx = Some md \<and> pctx ctx = None \<and> (\<exists>d. ctx_data ctx = Some d \<and> absorbs md d m)"

lemma ctx_absorbs_usable: "ctx_absorbs ctx md m \<Longrightarrow> ctx_usable ctx md"
  by (auto simp: ctx_absorbs_def ctx_usable_def method_again)

lemma ctx_usable_init [simp]: "ctx_usable EVP_MD_CTX_init md"
  by (simp add: ctx_usable_def EVP_MD_CTX_init_def)

lemma EVP_DigestInit_ex_ok:
  assumes "ctx_usable ctx md" "digest ctx = Some md \<or> md_grants alloc md" "pctx ctx = None"
  obtains ctx' where "EVP_DigestInit_ex alloc ctx md = (True, ctx')" "ctx_absorbs ctx' md []"
proof (cases "digest ctx = Some md")
  case True
  then obtain d where d: "ctx_data ctx = Some d" "ready md d" using assms(1) by (auto simp: ctx_usable_def)
  then show ?thesis
    using that[of "ctx\<lparr>ctx_data := Some (md_init (md_method md) d)\<rparr>"] True assms(3)
    by (simp add: EVP_DigestInit_ex_def ctx_absorbs_def method_init)
next
  case False
  then obtain d where d: "alloc (md_ctx_size (md_method md)) = Some d" "ready md d" using assms(2) by (auto simp: md_grants_def)
  then show ?thesis
    using that[of "ctx\<lparr>ctx_data := Some (md_init (md_method md) d), digest := Some md\<rparr>"] False assms(3)
    by (simp add: EVP_DigestInit_ex_def ctx_absorbs_def method_init)
qed

lemma EVP_DigestInit_ex_fails:
  "digest ctx \<noteq> Some md \<Longrightarrow> alloc (md_ctx_size (md_method md)) = None \<Longrightarrow> EVP_DigestInit_ex alloc ctx md = (False, ctx)"
  by (simp add: EVP_DigestInit_ex_def)

lemma EVP_DigestUpdate_ok:
  "ctx_absorbs ctx md m \<Longrightarrow> length p < SIZE_MOD \<Longrightarrow> ctx_absorbs (EVP_DigestUpdate ctx p) md (m @ p)"
  by (auto simp: ctx_absorbs_def EVP_DigestUpdate_def method_update)

lemma EVP_DigestFinal_ex_ok:
  assumes "ctx_absorbs ctx md m"
  obtains ctx' where "EVP_DigestFinal_ex ctx = ((Some (md_hash md m), EVP_MD_size md), ctx')"
    "digest ctx' = Some md" "ctx_usable ctx' md" "pctx ctx' = None"
proof -
  obtain d where d: "digest ctx = Some md" "ctx_data ctx = Some d" "absorbs md d m" "pctx ctx = None"
    using assms by (auto simp: ctx_absorbs_def)
  obtain d' where f: "md_final (md_method md) d = (Some (md_hash md m), d')"
    using method_final[OF d(3)] by (cases "md_final (md_method md) d") simp
  have "ready md (cleanse_data d')" using method_again(2)[OF d(3)] f by simp
  then show ?thesis
    using that[of "ctx\<lparr>ctx_data := Some (cleanse_data d')\<rparr>"] d f
    by (simp add: EVP_DigestFinal_ex_def EVP_MD_size_def ctx_usable_def)
qed

lemma EVP_MD_CTX_copy_ex_ok:
  assumes "ctx_absorbs inp md m" "digest out = Some md \<or> md_grants alloc md"
  obtains out' where "EVP_MD_CTX_copy_ex alloc dup out inp = (True, out')" "ctx_absorbs out' md m"
proof -
  have "digest out \<noteq> Some md \<longrightarrow> alloc (md_ctx_size (md_method md)) \<noteq> None" using assms(2) by (auto simp: md_grants_def)
  then have "EVP_MD_CTX_copy_ex alloc dup out inp = (True, \<lparr>digest = Some md, ctx_data = ctx_data inp, pctx = None\<rparr>)"
    using assms(1) by (auto simp: EVP_MD_CTX_copy_ex_def ctx_absorbs_def)
  then show ?thesis using that assms(1) by (simp add: ctx_absorbs_def)
qed

text \<open>C31: The one-shot digest: for every digest of the library and every input, if the allocator gives
  memory, \<open>EVP_Digest\<close> writes the hash of the input and reports its length, which is the size of the
  digest and at most \<open>EVP_MAX_MD_SIZE\<close>; if it does not, the call fails.\<close>

theorem EVP_Digest_correct:
  assumes "length inp < SIZE_MOD"
  shows "(md_grants alloc md \<longrightarrow> EVP_Digest alloc inp md = Some (Some (md_hash md inp), EVP_MD_size md)) \<and>
    (alloc (md_ctx_size (md_method md)) = None \<longrightarrow> EVP_Digest alloc inp md = None) \<and>
    length (md_hash md inp) = EVP_MD_size md \<and> EVP_MD_size md \<le> EVP_MAX_MD_SIZE"
proof (intro conjI impI)
  have n: "digest (EVP_MD_CTX_init :: unit evp_md_ctx) = None" "pctx (EVP_MD_CTX_init :: unit evp_md_ctx) = None"
    by (simp_all add: EVP_MD_CTX_init_def)
  assume "md_grants alloc md"
  then obtain c where c: "EVP_DigestInit_ex alloc (EVP_MD_CTX_init :: unit evp_md_ctx) md = (True, c)" "ctx_absorbs c md []"
    using EVP_DigestInit_ex_ok[OF ctx_usable_init, of md alloc] n by blast
  then have u: "ctx_absorbs (EVP_DigestUpdate c inp) md inp" using EVP_DigestUpdate_ok[OF c(2) assms] by simp
  show "EVP_Digest alloc inp md = Some (Some (md_hash md inp), EVP_MD_size md)"
    by (rule EVP_DigestFinal_ex_ok[OF u]) (simp add: EVP_Digest_def c(1))
next
  assume "alloc (md_ctx_size (md_method md)) = None"
  then show "EVP_Digest alloc inp md = None"
    by (simp add: EVP_Digest_def EVP_DigestInit_ex_fails EVP_MD_CTX_init_def)
next
  show "length (md_hash md inp) = EVP_MD_size md" by (simp add: md_hash_size EVP_MD_size_def)
  show "EVP_MD_size md \<le> EVP_MAX_MD_SIZE"
    by (cases md) (simp_all add: EVP_MD_size_def EVP_MAX_MD_SIZE_def EVP_md4_def EVP_md5_def EVP_sha1_def EVP_sha224_def
        EVP_sha256_def EVP_sha384_def EVP_sha512_def EVP_sha512_256_def EVP_md5_sha1_def SHA224_DIGEST_LENGTH_def
        SHA256_DIGEST_LENGTH_def SHA384_DIGEST_LENGTH_def SHA512_DIGEST_LENGTH_def SHA512_256_DIGEST_LENGTH_def)
qed

text \<open>An allocator that gives memory of every type, with arbitrary contents.\<close>

definition some_alloc :: "nat \<Rightarrow> digest_data option" where
  "some_alloc n =
     (if n = 112 then Some (Sha256_data SHA224_Init) else if n = 216 then Some (Sha512_data some_ctx512)
      else if n = 188 then Some (Md5_sha1_data SHA1_Init MD4_Init) else Some (Md32_data MD5_Init))"

lemma md_grants_some_alloc: "md_grants some_alloc md"
  by (cases md) (simp_all add: md_grants_def some_alloc_def ready_def some_ctx512_def EVP_md4_def EVP_md5_def EVP_sha1_def
      EVP_sha224_def EVP_sha256_def EVP_sha384_def EVP_sha512_def EVP_sha512_256_def EVP_md5_sha1_def)

theorem EVP_Digest_correct_witness:
  "EVP_Digest some_alloc [0x61] MD_sha512 = Some (Some (md_hash MD_sha512 [0x61]), EVP_MD_size MD_sha512) \<and>
   EVP_Digest (\<lambda>_. None) [0x61] MD_md5_sha1 = None"
  using EVP_Digest_correct[of "[0x61]" some_alloc MD_sha512] EVP_Digest_correct[of "[0x61]" "\<lambda>_. None" MD_md5_sha1]
  by (simp add: md_grants_some_alloc)

end
