(* ===== verification/Hmac.thy ===== *)
theory Hmac
  imports Digest
begin

text \<open>HMAC over any digest: \<open>fipsmodule/hmac/hmac.c\<close>.  The context keeps two digest contexts that have
  absorbed the padded key, and copies one to start a message and the other to end it.\<close>

section \<open>Model\<close>

text \<open>\<open>HMAC_CTX\<close>.  HMAC leaves \<open>pctx\<close> unset.\<close>

record hmac_ctx =
  hmac_md :: "evp_md option"
  md_ctx :: "unit evp_md_ctx"
  i_ctx :: "unit evp_md_ctx"
  o_ctx :: "unit evp_md_ctx"

type_synonym allocator = "nat \<Rightarrow> digest_data option"

definition HMAC_CTX_init :: hmac_ctx where
  "HMAC_CTX_init = \<lparr>hmac_md = None, md_ctx = EVP_MD_CTX_init, i_ctx = EVP_MD_CTX_init, o_ctx = EVP_MD_CTX_init\<rparr>"

text \<open>\<open>OPENSSL_cleanse\<close> leaves zeros.\<close>

definition HMAC_CTX_cleanup :: "hmac_ctx \<Rightarrow> hmac_ctx" where
  "HMAC_CTX_cleanup ctx = HMAC_CTX_init"

text \<open>The \<open>pctx\<close> that \<open>EVP_MD_CTX_copy_ex\<close> would duplicate is never there.\<close>

definition md_ctx_copy :: "allocator \<Rightarrow> unit evp_md_ctx \<Rightarrow> unit evp_md_ctx \<Rightarrow> bool \<times> unit evp_md_ctx" where
  "md_ctx_copy alloc out inp = EVP_MD_CTX_copy_ex alloc (\<lambda>_. None) out inp"

text \<open>The block of the key: a long key is hashed; it is filled with zeros.\<close>

definition hmac_key_block :: "allocator \<Rightarrow> hmac_ctx \<Rightarrow> bytes \<Rightarrow> evp_md \<Rightarrow> bytes option \<times> hmac_ctx" where
  "hmac_key_block alloc ctx key md =
     (if EVP_MD_block_size md < length key then
        (let (ok, c) = EVP_DigestInit_ex alloc (md_ctx ctx) md
         in if \<not> ok then (None, ctx\<lparr>md_ctx := c\<rparr>)
            else
              (let c = EVP_DigestUpdate c key;
                   ((out, len), c) = EVP_DigestFinal_ex c;
                   key_block = (case out of None \<Rightarrow> [] | Some b \<Rightarrow> b)
               in (Some (key_block @ replicate (EVP_MAX_MD_BLOCK_SIZE - len) 0), ctx\<lparr>md_ctx := c\<rparr>)))
      else (Some (key @ replicate (EVP_MAX_MD_BLOCK_SIZE - length key) 0), ctx))"

definition hmac_set_key :: "allocator \<Rightarrow> hmac_ctx \<Rightarrow> bytes \<Rightarrow> evp_md \<Rightarrow> bool \<times> hmac_ctx" where
  "hmac_set_key alloc ctx key md =
     (case hmac_key_block alloc ctx key md of
        (None, ctx) \<Rightarrow> (False, ctx)
      | (Some key_block, ctx) \<Rightarrow>
          (let pad = map (\<lambda>b. 0x36 XOR b) key_block;
               (ok, c) = EVP_DigestInit_ex alloc (i_ctx ctx) md
           in if \<not> ok then (False, ctx\<lparr>i_ctx := c\<rparr>)
              else
                (let ctx = ctx\<lparr>i_ctx := EVP_DigestUpdate c (take (EVP_MD_block_size md) pad)\<rparr>;
                     pad = map (\<lambda>b. 0x5c XOR b) key_block;
                     (ok, c) = EVP_DigestInit_ex alloc (o_ctx ctx) md
                 in if \<not> ok then (False, ctx\<lparr>o_ctx := c\<rparr>)
                    else (True, ctx\<lparr>o_ctx := EVP_DigestUpdate c (take (EVP_MD_block_size md) pad), hmac_md := Some md\<rparr>))))"

text \<open>A \<open>NULL\<close> key has no bytes.  Without a digest, new or old, the code dereferences \<open>NULL\<close>.\<close>

definition HMAC_Init_ex :: "allocator \<Rightarrow> hmac_ctx \<Rightarrow> bytes option \<Rightarrow> evp_md option \<Rightarrow> bool \<times> hmac_ctx" where
  "HMAC_Init_ex alloc ctx key md =
     (let md = (if md = None then hmac_md ctx else md);
          (ok, ctx) =
            (if md \<noteq> hmac_md ctx \<or> key \<noteq> None
             then (case md of
                     None \<Rightarrow> (False, ctx)
                   | Some md \<Rightarrow> hmac_set_key alloc ctx (case key of None \<Rightarrow> [] | Some k \<Rightarrow> k) md)
             else (True, ctx))
      in if \<not> ok then (False, ctx)
         else
           (let (ok, c) = md_ctx_copy alloc (md_ctx ctx) (i_ctx ctx)
            in (ok, ctx\<lparr>md_ctx := c\<rparr>)))"

definition HMAC_Update :: "hmac_ctx \<Rightarrow> bytes \<Rightarrow> hmac_ctx" where
  "HMAC_Update ctx inp = ctx\<lparr>md_ctx := EVP_DigestUpdate (md_ctx ctx) inp\<rparr>"

text \<open>The bytes written and their number, or failure.\<close>

definition HMAC_Final :: "allocator \<Rightarrow> hmac_ctx \<Rightarrow> (bytes option \<times> nat) option \<times> hmac_ctx" where
  "HMAC_Final alloc ctx =
     (let ((out, len), c) = EVP_DigestFinal_ex (md_ctx ctx);
          buf = (case out of None \<Rightarrow> [] | Some b \<Rightarrow> b);
          (ok, c) = md_ctx_copy alloc c (o_ctx ctx)
      in if \<not> ok then (None, ctx\<lparr>md_ctx := c\<rparr>)
         else
           (let c = EVP_DigestUpdate c (take len buf);
                (res, c) = EVP_DigestFinal_ex c
            in (Some res, ctx\<lparr>md_ctx := c\<rparr>)))"

definition HMAC_size :: "hmac_ctx \<Rightarrow> nat option" where
  "HMAC_size ctx = map_option EVP_MD_size (hmac_md ctx)"

definition HMAC_CTX_copy_ex :: "allocator \<Rightarrow> hmac_ctx \<Rightarrow> hmac_ctx \<Rightarrow> bool \<times> hmac_ctx" where
  "HMAC_CTX_copy_ex alloc dest src =
     (let (ok, c) = md_ctx_copy alloc (i_ctx dest) (i_ctx src); dest = dest\<lparr>i_ctx := c\<rparr>
      in if \<not> ok then (False, dest)
         else
           (let (ok, c) = md_ctx_copy alloc (o_ctx dest) (o_ctx src); dest = dest\<lparr>o_ctx := c\<rparr>
            in if \<not> ok then (False, dest)
               else
                 (let (ok, c) = md_ctx_copy alloc (md_ctx dest) (md_ctx src); dest = dest\<lparr>md_ctx := c\<rparr>
                  in if \<not> ok then (False, dest) else (True, dest\<lparr>hmac_md := hmac_md src\<rparr>))))"

definition HMAC_CTX_reset :: "hmac_ctx \<Rightarrow> hmac_ctx" where
  "HMAC_CTX_reset ctx = HMAC_CTX_init"

definition HMAC_CTX_copy :: "allocator \<Rightarrow> hmac_ctx \<Rightarrow> bool \<times> hmac_ctx" where
  "HMAC_CTX_copy alloc src = HMAC_CTX_copy_ex alloc HMAC_CTX_init src"

text \<open>\<open>HMAC_Init\<close>, which keeps the context when the key or the digest is \<open>NULL\<close>.\<close>

definition HMAC_Init :: "allocator \<Rightarrow> hmac_ctx \<Rightarrow> bytes option \<Rightarrow> evp_md option \<Rightarrow> bool \<times> hmac_ctx" where
  "HMAC_Init alloc ctx key md =
     HMAC_Init_ex alloc (if key \<noteq> None \<and> md \<noteq> None then HMAC_CTX_init else ctx) key md"

definition HMAC :: "allocator \<Rightarrow> evp_md \<Rightarrow> bytes option \<Rightarrow> bytes \<Rightarrow> (bytes option \<times> nat) option" where
  "HMAC alloc md key inp =
     (let (ok, ctx) = HMAC_Init_ex alloc HMAC_CTX_init key (Some md)
      in if ok then fst (HMAC_Final alloc (HMAC_Update ctx inp)) else None)"

section \<open>FIPS 198-1\<close>

definition hmac_key :: "evp_md \<Rightarrow> bytes \<Rightarrow> bytes" where
  "hmac_key md k =
     (let k = (if EVP_MD_block_size md < length k then md_hash md k else k)
      in k @ replicate (EVP_MD_block_size md - length k) 0)"

definition hmac_inner :: "evp_md \<Rightarrow> bytes \<Rightarrow> bytes" where
  "hmac_inner md k = map (\<lambda>b. b XOR 0x36) (hmac_key md k)"

definition hmac_outer :: "evp_md \<Rightarrow> bytes \<Rightarrow> bytes" where
  "hmac_outer md k = map (\<lambda>b. b XOR 0x5c) (hmac_key md k)"

definition hmac :: "evp_md \<Rightarrow> bytes \<Rightarrow> bytes \<Rightarrow> bytes" where
  "hmac md k m = md_hash md (hmac_outer md k @ md_hash md (hmac_inner md k @ m))"

section \<open>The context is keyed\<close>

text \<open>The states that the operations move between: \<open>hmac_fresh\<close> before a key is set (or with one for the
  same digest), \<open>hmac_keyed\<close> after, \<open>hmac_absorbs\<close> while a message is hashed.\<close>

definition hmac_fresh :: "hmac_ctx \<Rightarrow> evp_md \<Rightarrow> bool" where
  "hmac_fresh ctx md \<longleftrightarrow>
     (\<forall>c\<in>{md_ctx ctx, i_ctx ctx, o_ctx ctx}. ctx_usable c md \<and> pctx c = None)"

definition hmac_keyed :: "hmac_ctx \<Rightarrow> evp_md \<Rightarrow> bytes \<Rightarrow> bool" where
  "hmac_keyed ctx md k \<longleftrightarrow>
     hmac_md ctx = Some md \<and> ctx_absorbs (i_ctx ctx) md (hmac_inner md k) \<and> ctx_absorbs (o_ctx ctx) md (hmac_outer md k) \<and>
     ctx_usable (md_ctx ctx) md \<and> pctx (md_ctx ctx) = None"

definition hmac_absorbs :: "hmac_ctx \<Rightarrow> evp_md \<Rightarrow> bytes \<Rightarrow> bytes \<Rightarrow> bool" where
  "hmac_absorbs ctx md k m \<longleftrightarrow> hmac_keyed ctx md k \<and> ctx_absorbs (md_ctx ctx) md (hmac_inner md k @ m)"

lemma hmac_fresh_init: "hmac_fresh HMAC_CTX_init md"
  by (simp add: hmac_fresh_def HMAC_CTX_init_def) (simp add: EVP_MD_CTX_init_def)

lemma hmac_keyed_fresh: "hmac_keyed ctx md k \<Longrightarrow> hmac_fresh ctx md"
  by (auto simp: hmac_keyed_def hmac_fresh_def ctx_absorbs_usable ctx_absorbs_def)

lemma md_sizes: "EVP_MD_size md \<le> EVP_MD_block_size md" "EVP_MD_block_size md \<le> EVP_MAX_MD_BLOCK_SIZE"
  "EVP_MD_block_size md \<le> 128"
  by (cases md; simp add: EVP_MD_size_def EVP_MD_block_size_def EVP_MAX_MD_BLOCK_SIZE_def EVP_md4_def EVP_md5_def EVP_sha1_def EVP_sha224_def
        EVP_sha256_def EVP_sha384_def EVP_sha512_def EVP_sha512_256_def EVP_md5_sha1_def SHA224_DIGEST_LENGTH_def
        SHA256_DIGEST_LENGTH_def SHA384_DIGEST_LENGTH_def SHA512_DIGEST_LENGTH_def SHA512_256_DIGEST_LENGTH_def)+

lemma hash_length: "length (md_hash md m) = EVP_MD_size md"
  by (simp add: md_hash_size EVP_MD_size_def)

lemma length_hmac_key: "length (hmac_key md k) = EVP_MD_block_size md"
  using md_sizes[of md] by (simp add: hmac_key_def hash_length Let_def)

lemma hmac_key_block_ok:
  assumes "hmac_fresh ctx md" "md_grants alloc md" "length k < SIZE_MOD"
  obtains ctx' b where "hmac_key_block alloc ctx k md = (Some b, ctx')" "take (EVP_MD_block_size md) b = hmac_key md k"
    "hmac_fresh ctx' md"
proof (cases "EVP_MD_block_size md < length k")
  case True
  have f: "ctx_usable (md_ctx ctx) md" "pctx (md_ctx ctx) = None" using assms(1) by (simp_all add: hmac_fresh_def)
  obtain c where c: "EVP_DigestInit_ex alloc (md_ctx ctx) md = (True, c)" "ctx_absorbs c md []"
    by (rule EVP_DigestInit_ex_ok[OF f(1) _ f(2), of alloc]) (simp add: assms(2))
  have u: "ctx_absorbs (EVP_DigestUpdate c k) md k" using EVP_DigestUpdate_ok[OF c(2) assms(3)] by simp
  obtain c' where c': "EVP_DigestFinal_ex (EVP_DigestUpdate c k) = ((Some (md_hash md k), EVP_MD_size md), c')"
    "digest c' = Some md" "ctx_usable c' md" "pctx c' = None" by (rule EVP_DigestFinal_ex_ok[OF u])
  let ?b = "md_hash md k @ replicate (EVP_MAX_MD_BLOCK_SIZE - EVP_MD_size md) 0"
  have "take (EVP_MD_block_size md) ?b = hmac_key md k"
    using True md_sizes[of md] by (simp add: hmac_key_def hash_length min_def)
  then show ?thesis
    using that[of ?b "ctx\<lparr>md_ctx := c'\<rparr>"] True c(1) c' assms(1)
    by (simp add: hmac_key_block_def hmac_fresh_def Let_def)
next
  case False
  let ?b = "k @ replicate (EVP_MAX_MD_BLOCK_SIZE - length k) 0"
  have "take (EVP_MD_block_size md) ?b = hmac_key md k"
    using False md_sizes[of md] by (simp add: hmac_key_def min_def)
  then show ?thesis
    using that[of ?b ctx] False assms(1) by (simp add: hmac_key_block_def)
qed

lemma hmac_set_key_ok:
  assumes "hmac_fresh ctx md" "md_grants alloc md" "length k < SIZE_MOD"
  obtains ctx' where "hmac_set_key alloc ctx k md = (True, ctx')" "hmac_keyed ctx' md k"
proof -
  obtain ctx1 b where b: "hmac_key_block alloc ctx k md = (Some b, ctx1)" "take (EVP_MD_block_size md) b = hmac_key md k"
    "hmac_fresh ctx1 md" by (rule hmac_key_block_ok[OF assms])
  have i: "ctx_usable (i_ctx ctx1) md" "pctx (i_ctx ctx1) = None" and o: "ctx_usable (o_ctx ctx1) md" "pctx (o_ctx ctx1) = None"
    and m: "ctx_usable (md_ctx ctx1) md" "pctx (md_ctx ctx1) = None"
    using b(3) by (simp_all add: hmac_fresh_def)
  obtain ci where ci: "EVP_DigestInit_ex alloc (i_ctx ctx1) md = (True, ci)" "ctx_absorbs ci md []"
    by (rule EVP_DigestInit_ex_ok[OF i(1) _ i(2), of alloc]) (simp add: assms(2))
  obtain co where co: "EVP_DigestInit_ex alloc (o_ctx ctx1) md = (True, co)" "ctx_absorbs co md []"
    by (rule EVP_DigestInit_ex_ok[OF o(1) _ o(2), of alloc]) (simp add: assms(2))
  have p: "take (EVP_MD_block_size md) (map (\<lambda>b. 0x36 XOR b) b) = hmac_inner md k"
    "take (EVP_MD_block_size md) (map (\<lambda>b. 0x5c XOR b) b) = hmac_outer md k"
    by (simp_all add: take_map b(2) hmac_inner_def hmac_outer_def xor.commute)
  have l: "length (hmac_inner md k) < SIZE_MOD" "length (hmac_outer md k) < SIZE_MOD"
    using md_sizes(3)[of md] by (simp_all add: hmac_inner_def hmac_outer_def length_hmac_key)
  let ?ctx = "ctx1\<lparr>i_ctx := EVP_DigestUpdate ci (hmac_inner md k), o_ctx := EVP_DigestUpdate co (hmac_outer md k), hmac_md := Some md\<rparr>"
  have "hmac_set_key alloc ctx k md = (True, ?ctx)"
    by (simp add: hmac_set_key_def b(1) ci(1) co(1) p)
  moreover have "hmac_keyed ?ctx md k"
    using EVP_DigestUpdate_ok[OF ci(2) l(1)] EVP_DigestUpdate_ok[OF co(2) l(2)] m by (simp add: hmac_keyed_def)
  ultimately show ?thesis by (rule that)
qed

text \<open>Starting a message, with a new key or with the key of the context.\<close>

lemma hmac_copy_ok:
  assumes "hmac_keyed ctx md k" "md_grants alloc md"
  obtains c where "md_ctx_copy alloc (md_ctx ctx) (i_ctx ctx) = (True, c)" "hmac_absorbs (ctx\<lparr>md_ctx := c\<rparr>) md k []"
proof -
  have i: "ctx_absorbs (i_ctx ctx) md (hmac_inner md k)" using assms(1) by (simp add: hmac_keyed_def)
  obtain c where c: "EVP_MD_CTX_copy_ex alloc (\<lambda>_. None) (md_ctx ctx) (i_ctx ctx) = (True, c)" "ctx_absorbs c md (hmac_inner md k)"
    by (rule EVP_MD_CTX_copy_ex_ok[OF i, of "md_ctx ctx" alloc "\<lambda>_. None"]) (simp add: assms(2))
  have "hmac_absorbs (ctx\<lparr>md_ctx := c\<rparr>) md k []"
    using assms(1) c(2) ctx_absorbs_usable[OF c(2)] by (simp add: hmac_absorbs_def hmac_keyed_def ctx_absorbs_def)
  then show ?thesis using that c(1) by (simp add: md_ctx_copy_def)
qed

lemma HMAC_Init_ex_key:
  assumes "hmac_fresh ctx md" "md_grants alloc md" "length k < SIZE_MOD" "d = Some md \<or> d = None \<and> hmac_md ctx = Some md"
  obtains ctx' where "HMAC_Init_ex alloc ctx (Some k) d = (True, ctx')" "hmac_absorbs ctx' md k []"
proof -
  obtain ctx1 where c1: "hmac_set_key alloc ctx k md = (True, ctx1)" "hmac_keyed ctx1 md k" by (rule hmac_set_key_ok[OF assms(1-3)])
  obtain c where c: "md_ctx_copy alloc (md_ctx ctx1) (i_ctx ctx1) = (True, c)" "hmac_absorbs (ctx1\<lparr>md_ctx := c\<rparr>) md k []"
    by (rule hmac_copy_ok[OF c1(2) assms(2)])
  then show ?thesis using that[of "ctx1\<lparr>md_ctx := c\<rparr>"] c1(1) assms(4) by (auto simp: HMAC_Init_ex_def)
qed

lemma HMAC_Init_ex_null:
  assumes "hmac_fresh ctx md" "md_grants alloc md" "hmac_md ctx \<noteq> Some md"
  obtains ctx' where "HMAC_Init_ex alloc ctx None (Some md) = (True, ctx')" "hmac_absorbs ctx' md [] []"
proof -
  obtain ctx1 where c1: "hmac_set_key alloc ctx [] md = (True, ctx1)" "hmac_keyed ctx1 md []"
    by (rule hmac_set_key_ok[OF assms(1,2), of "[]"]) simp
  obtain c where c: "md_ctx_copy alloc (md_ctx ctx1) (i_ctx ctx1) = (True, c)" "hmac_absorbs (ctx1\<lparr>md_ctx := c\<rparr>) md [] []"
    by (rule hmac_copy_ok[OF c1(2) assms(2)])
  then show ?thesis using that[of "ctx1\<lparr>md_ctx := c\<rparr>"] c1(1) assms(3) by (auto simp: HMAC_Init_ex_def)
qed

lemma HMAC_Init_ex_rewind:
  assumes "hmac_keyed ctx md k" "md_grants alloc md" "d = Some md \<or> d = None"
  obtains ctx' where "HMAC_Init_ex alloc ctx None d = (True, ctx')" "hmac_absorbs ctx' md k []"
proof -
  obtain c where c: "md_ctx_copy alloc (md_ctx ctx) (i_ctx ctx) = (True, c)" "hmac_absorbs (ctx\<lparr>md_ctx := c\<rparr>) md k []"
    by (rule hmac_copy_ok[OF assms(1,2)])
  then show ?thesis
    using that[of "ctx\<lparr>md_ctx := c\<rparr>"] assms(1,3) by (auto simp: HMAC_Init_ex_def hmac_keyed_def)
qed

lemma HMAC_Update_ok: "hmac_absorbs ctx md k m \<Longrightarrow> length p < SIZE_MOD \<Longrightarrow> hmac_absorbs (HMAC_Update ctx p) md k (m @ p)"
  using EVP_DigestUpdate_ok[of "md_ctx ctx" md "hmac_inner md k @ m" p]
    ctx_absorbs_usable[of "EVP_DigestUpdate (md_ctx ctx) p" md "hmac_inner md k @ m @ p"]
  by (simp add: hmac_absorbs_def hmac_keyed_def HMAC_Update_def ctx_absorbs_def)

lemma HMAC_Updates_ok:
  "hmac_absorbs ctx md k m \<Longrightarrow> \<forall>p\<in>set ps. length p < SIZE_MOD \<Longrightarrow> hmac_absorbs (foldl HMAC_Update ctx ps) md k (m @ concat ps)"
proof (induction ps arbitrary: ctx m)
  case (Cons p ps)
  then show ?case using HMAC_Update_ok[of ctx md k m p] Cons.IH[of "HMAC_Update ctx p" "m @ p"] by simp
qed simp

lemma HMAC_Final_ok:
  assumes "hmac_absorbs ctx md k m" "md_grants alloc md"
  obtains ctx' where "HMAC_Final alloc ctx = (Some (Some (hmac md k m), EVP_MD_size md), ctx')" "hmac_keyed ctx' md k"
proof -
  have a: "ctx_absorbs (md_ctx ctx) md (hmac_inner md k @ m)" "ctx_absorbs (o_ctx ctx) md (hmac_outer md k)"
    using assms(1) by (simp_all add: hmac_absorbs_def hmac_keyed_def)
  let ?h = "md_hash md (hmac_inner md k @ m)"
  obtain c1 where c1: "EVP_DigestFinal_ex (md_ctx ctx) = ((Some ?h, EVP_MD_size md), c1)" "digest c1 = Some md"
    by (rule EVP_DigestFinal_ex_ok[OF a(1)])
  obtain c2 where c2: "EVP_MD_CTX_copy_ex alloc (\<lambda>_. None) c1 (o_ctx ctx) = (True, c2)" "ctx_absorbs c2 md (hmac_outer md k)"
    by (rule EVP_MD_CTX_copy_ex_ok[OF a(2), of c1 alloc "\<lambda>_. None"]) (simp add: c1(2))
  have l: "length ?h < SIZE_MOD" "take (EVP_MD_size md) ?h = ?h"
    using md_sizes[of md] by (simp_all add: hash_length)
  obtain c3 where c3: "EVP_DigestFinal_ex (EVP_DigestUpdate c2 ?h) = ((Some (hmac md k m), EVP_MD_size md), c3)"
    "ctx_usable c3 md" "pctx c3 = None"
    by (rule EVP_DigestFinal_ex_ok[OF EVP_DigestUpdate_ok[OF c2(2) l(1)]]) (simp add: hmac_def)
  have "HMAC_Final alloc ctx = (Some (Some (hmac md k m), EVP_MD_size md), ctx\<lparr>md_ctx := c3\<rparr>)"
    by (simp add: HMAC_Final_def md_ctx_copy_def c1(1) c2(1) l(2) c3(1))
  moreover have "hmac_keyed (ctx\<lparr>md_ctx := c3\<rparr>) md k"
    using assms(1) c3 by (simp add: hmac_absorbs_def hmac_keyed_def)
  ultimately show ?thesis by (rule that)
qed

text \<open>C32: HMAC over any digest of the library is the MAC of FIPS 198-1.  A context that holds no key yet or
  one for the same digest is keyed by \<open>HMAC_Init_ex\<close>; whatever the pieces in which a message is then
  passed to \<open>HMAC_Update\<close>, \<open>HMAC_Final\<close> writes its MAC; and the context can then be rewound with a
  \<open>NULL\<close> key for another message, whose MAC is computed under the same key.\<close>

theorem HMAC_correct:
  assumes "hmac_fresh ctx md" "md_grants alloc md" "length k < SIZE_MOD" "\<forall>p\<in>set (ps @ qs). length p < SIZE_MOD"
  shows "\<exists>c1 c2 c3 c4.
    HMAC_Init_ex alloc ctx (Some k) (Some md) = (True, c1) \<and>
    HMAC_Final alloc (foldl HMAC_Update c1 ps) = (Some (Some (hmac md k (concat ps)), EVP_MD_size md), c2) \<and>
    HMAC_Init_ex alloc c2 None None = (True, c3) \<and>
    HMAC_Final alloc (foldl HMAC_Update c3 qs) = (Some (Some (hmac md k (concat qs)), EVP_MD_size md), c4)"
proof -
  obtain c1 where c1: "HMAC_Init_ex alloc ctx (Some k) (Some md) = (True, c1)" "hmac_absorbs c1 md k []"
    using HMAC_Init_ex_key[OF assms(1-3), of "Some md"] by blast
  have u1: "hmac_absorbs (foldl HMAC_Update c1 ps) md k (concat ps)" using HMAC_Updates_ok[OF c1(2), of ps] assms(4) by simp
  obtain c2 where c2: "HMAC_Final alloc (foldl HMAC_Update c1 ps) = (Some (Some (hmac md k (concat ps)), EVP_MD_size md), c2)"
    "hmac_keyed c2 md k" by (rule HMAC_Final_ok[OF u1 assms(2)])
  obtain c3 where c3: "HMAC_Init_ex alloc c2 None None = (True, c3)" "hmac_absorbs c3 md k []"
    using HMAC_Init_ex_rewind[OF c2(2) assms(2), of None] by blast
  have u3: "hmac_absorbs (foldl HMAC_Update c3 qs) md k (concat qs)" using HMAC_Updates_ok[OF c3(2), of qs] assms(4) by simp
  obtain c4 where "HMAC_Final alloc (foldl HMAC_Update c3 qs) = (Some (Some (hmac md k (concat qs)), EVP_MD_size md), c4)"
    by (rule HMAC_Final_ok[OF u3 assms(2)])
  then show ?thesis using c1(1) c2(1) c3(1) by blast
qed

theorem HMAC_correct_witness:
  "\<exists>c1 c2 c3 c4.
    HMAC_Init_ex some_alloc HMAC_CTX_init (Some [1]) (Some MD_sha384) = (True, c1) \<and>
    HMAC_Final some_alloc (foldl HMAC_Update c1 [[2], [3, 4]]) = (Some (Some (hmac MD_sha384 [1] [2, 3, 4]), EVP_MD_size MD_sha384), c2) \<and>
    HMAC_Init_ex some_alloc c2 None None = (True, c3) \<and>
    HMAC_Final some_alloc (foldl HMAC_Update c3 [[5]]) = (Some (Some (hmac MD_sha384 [1] [5]), EVP_MD_size MD_sha384), c4)"
  using HMAC_correct[of HMAC_CTX_init MD_sha384 some_alloc "[1]" "[[2], [3, 4]]" "[[5]]"]
  by (simp add: hmac_fresh_init md_grants_some_alloc)

text \<open>The call in one step.\<close>

lemma HMAC_one_shot:
  assumes "md_grants alloc md" "length (case key of None \<Rightarrow> [] | Some k \<Rightarrow> k) < SIZE_MOD" "length inp < SIZE_MOD"
  shows "HMAC alloc md key inp = Some (Some (hmac md (case key of None \<Rightarrow> [] | Some k \<Rightarrow> k) inp), EVP_MD_size md)"
proof -
  let ?k = "case key of None \<Rightarrow> [] | Some k \<Rightarrow> k"
  obtain c where c: "HMAC_Init_ex alloc HMAC_CTX_init key (Some md) = (True, c)" "hmac_absorbs c md ?k []"
  proof (cases key)
    case None
    have n: "hmac_md HMAC_CTX_init \<noteq> Some md" by (simp add: HMAC_CTX_init_def)
    show ?thesis using HMAC_Init_ex_null[OF hmac_fresh_init assms(1) n] None by (metis option.case(1) that)
  next
    case (Some k)
    then show ?thesis using HMAC_Init_ex_key[OF hmac_fresh_init assms(1), of k "Some md"] assms(2) by (metis option.case(2) that)
  qed
  have u: "hmac_absorbs (HMAC_Update c inp) md ?k inp" using HMAC_Update_ok[OF c(2) assms(3)] by simp
  show ?thesis by (rule HMAC_Final_ok[OF u assms(1)]) (simp add: HMAC_def c(1))
qed

end
