(* ===== verification/Hkdf.thy ===== *)
theory Hkdf
  imports Hmac
begin

text \<open>HKDF: \<open>crypto/hkdf/hkdf.c\<close>, a client of HMAC that rewinds one context for every block of its output.\<close>

section \<open>Model\<close>

definition HKDF_extract :: "allocator \<Rightarrow> evp_md \<Rightarrow> bytes \<Rightarrow> bytes option \<Rightarrow> bytes option" where
  "HKDF_extract alloc md secret salt =
     (case HMAC alloc md salt secret of
        None \<Rightarrow> None
      | Some (out, len) \<Rightarrow> Some (take len (case out of None \<Rightarrow> [] | Some b \<Rightarrow> b)))"

text \<open>The loop, with the number of rounds left; \<open>i\<close> counts the rounds, \<open>out\<close> is the part of \<open>out_key\<close>
  that is written.\<close>

fun hkdf_expand_loop :: "allocator \<Rightarrow> nat \<Rightarrow> nat \<Rightarrow> bytes \<Rightarrow> nat \<Rightarrow> nat \<Rightarrow> bytes \<Rightarrow> bytes \<Rightarrow> hmac_ctx \<Rightarrow> bytes option" where
  "hkdf_expand_loop alloc digest_len out_len info 0 i previous out hctx = Some out"
| "hkdf_expand_loop alloc digest_len out_len info (Suc k) i previous out hctx =
     (let ctr = word_of_nat (i + 1);
          (ok, hctx) = (if i \<noteq> 0 then HMAC_Init_ex alloc hctx None None else (True, hctx))
      in if \<not> ok then None
         else
           (let hctx = (if i \<noteq> 0 then HMAC_Update hctx (take digest_len previous) else hctx);
                hctx = HMAC_Update hctx info;
                hctx = HMAC_Update hctx [ctr]
            in case HMAC_Final alloc hctx of
                 (None, _) \<Rightarrow> None
               | (Some (written, _), hctx) \<Rightarrow>
                   (let previous = (case written of None \<Rightarrow> previous | Some b \<Rightarrow> b);
                        todo = digest_len;
                        todo = (if (length out + todo) mod SIZE_MOD > out_len then out_len - length out else todo)
                    in hkdf_expand_loop alloc digest_len out_len info k (i + 1) previous (out @ take todo previous) hctx)))"

definition HKDF_expand :: "allocator \<Rightarrow> nat \<Rightarrow> evp_md \<Rightarrow> bytes \<Rightarrow> bytes \<Rightarrow> bytes option" where
  "HKDF_expand alloc out_len md prk info =
     (let digest_len = EVP_MD_size md;
          n = (out_len + digest_len - 1) mod SIZE_MOD div digest_len
      in if (out_len + digest_len) mod SIZE_MOD < out_len \<or> n > 255 then None
         else
           (let (ok, hctx) = HMAC_Init_ex alloc HMAC_CTX_init (Some prk) (Some md)
            in if \<not> ok then None else hkdf_expand_loop alloc digest_len out_len info n 0 [] [] hctx))"

definition HKDF :: "allocator \<Rightarrow> nat \<Rightarrow> evp_md \<Rightarrow> bytes \<Rightarrow> bytes option \<Rightarrow> bytes \<Rightarrow> bytes option" where
  "HKDF alloc out_len md secret salt info =
     (case HKDF_extract alloc md secret salt of
        None \<Rightarrow> None
      | Some prk \<Rightarrow> HKDF_expand alloc out_len md prk info)"

section \<open>RFC 5869\<close>

fun hkdf_T :: "evp_md \<Rightarrow> bytes \<Rightarrow> bytes \<Rightarrow> nat \<Rightarrow> bytes" where
  "hkdf_T md prk info 0 = []"
| "hkdf_T md prk info (Suc i) = hmac md prk (hkdf_T md prk info i @ info @ [word_of_nat (Suc i)])"

definition hkdf_stream :: "evp_md \<Rightarrow> bytes \<Rightarrow> bytes \<Rightarrow> nat \<Rightarrow> bytes" where
  "hkdf_stream md prk info n = concat (map (hkdf_T md prk info) [1..<Suc n])"

definition hkdf :: "evp_md \<Rightarrow> bytes \<Rightarrow> bytes \<Rightarrow> bytes \<Rightarrow> nat \<Rightarrow> bytes" where
  "hkdf md salt secret info len = take len (hkdf_stream md (hmac md salt secret) info 255)"

section \<open>The expansion\<close>

lemma length_hmac: "length (hmac md k m) = EVP_MD_size md"
  by (simp add: hmac_def hash_length)

lemma length_hkdf_T: "length (hkdf_T md prk info (Suc i)) = EVP_MD_size md"
  by (simp add: length_hmac)

lemma hkdf_stream_Suc: "hkdf_stream md prk info (Suc n) = hkdf_stream md prk info n @ hkdf_T md prk info (Suc n)"
  by (simp add: hkdf_stream_def)

lemma length_hkdf_stream: "length (hkdf_stream md prk info n) = n * EVP_MD_size md"
  by (induction n) (simp_all add: hkdf_stream_Suc length_hmac, simp add: hkdf_stream_def)

lemma hkdf_stream_prefix: "m \<le> n \<Longrightarrow> take (m * EVP_MD_size md) (hkdf_stream md prk info n) = hkdf_stream md prk info m"
proof (induction n)
  case (Suc n)
  show ?case
  proof (cases "m = Suc n")
    case True
    then show ?thesis using length_hkdf_stream[of md prk info "Suc n"] by simp
  next
    case False
    then have "m \<le> n" using Suc.prems by simp
    then show ?thesis using Suc.IH by (simp add: hkdf_stream_Suc length_hkdf_stream)
  qed
qed (simp add: hkdf_stream_def)

lemma digest_len_pos: "0 < EVP_MD_size md" "EVP_MD_size md \<le> 64"
  by (cases md; simp add: EVP_MD_size_def EVP_md4_def EVP_md5_def EVP_sha1_def EVP_sha224_def
        EVP_sha256_def EVP_sha384_def EVP_sha512_def EVP_sha512_256_def EVP_md5_sha1_def SHA224_DIGEST_LENGTH_def
        SHA256_DIGEST_LENGTH_def SHA384_DIGEST_LENGTH_def SHA512_DIGEST_LENGTH_def SHA512_256_DIGEST_LENGTH_def)+

text \<open>A round of the loop computes the next block under the key of the context.\<close>

lemma hkdf_round:
  assumes "if i = 0 then hmac_absorbs ctx md prk [] else hmac_keyed ctx md prk" "md_grants alloc md" "length info < SIZE_MOD"
    "previous = hkdf_T md prk info i" "i < 255"
  obtains ctx' where
    "(let (ok, hctx) = (if i \<noteq> 0 then HMAC_Init_ex alloc ctx None None else (True, ctx)) in
       ok \<and> HMAC_Final alloc (HMAC_Update (HMAC_Update
         (if i \<noteq> 0 then HMAC_Update hctx (take (EVP_MD_size md) previous) else hctx) info) [word_of_nat (i + 1)]) =
         (Some (Some (hkdf_T md prk info (Suc i)), EVP_MD_size md), ctx'))"
    "hmac_keyed ctx' md prk"
proof -
  obtain c1 where c1: "(if i \<noteq> 0 then HMAC_Init_ex alloc ctx None None else (True, ctx)) = (True, c1)" "hmac_absorbs c1 md prk []"
  proof (cases "i = 0")
    case True then show ?thesis using that[of ctx] assms(1) by simp
  next
    case False
    then have k: "hmac_keyed ctx md prk" using assms(1) by simp
    obtain c where "HMAC_Init_ex alloc ctx None None = (True, c)" "hmac_absorbs c md prk []"
      by (rule HMAC_Init_ex_rewind[OF k assms(2), of None]) simp
    then show ?thesis using that False by simp
  qed
  let ?c2 = "if i \<noteq> 0 then HMAC_Update c1 (take (EVP_MD_size md) previous) else c1"
  have "hmac_absorbs ?c2 md prk (hkdf_T md prk info i)"
  proof (cases i)
    case 0 then show ?thesis using c1(2) by simp
  next
    case (Suc j)
    then have l: "take (EVP_MD_size md) previous = previous" "length previous < SIZE_MOD"
      using length_hkdf_T[of md prk info j] digest_len_pos(2)[of md] assms(4) by simp_all
    show ?thesis using HMAC_Update_ok[OF c1(2) l(2)] Suc l(1) assms(4) by simp
  qed
  from HMAC_Update_ok[OF HMAC_Update_ok[OF this assms(3)], of "[word_of_nat (i + 1)]"]
  have u: "hmac_absorbs (HMAC_Update (HMAC_Update ?c2 info) [word_of_nat (i + 1)]) md prk
      (hkdf_T md prk info i @ info @ [word_of_nat (Suc i)])" by simp
  obtain c3 where "HMAC_Final alloc (HMAC_Update (HMAC_Update ?c2 info) [word_of_nat (i + 1)]) =
      (Some (Some (hkdf_T md prk info (Suc i)), EVP_MD_size md), c3)" "hmac_keyed c3 md prk"
    by (rule HMAC_Final_ok[OF u assms(2)]) simp
  then show ?thesis using that[of c3] c1(1) by simp
qed

lemma hkdf_expand_loop_ok:
  assumes "if i = 0 then hmac_absorbs ctx md prk [] else hmac_keyed ctx md prk" "md_grants alloc md" "length info < SIZE_MOD"
    "previous = hkdf_T md prk info i" "i + k \<le> 255" "out = take out_len (hkdf_stream md prk info i)"
    "out_len + EVP_MD_size md < SIZE_MOD" "(i + k - 1) * EVP_MD_size md \<le> out_len"
  shows "hkdf_expand_loop alloc (EVP_MD_size md) out_len info k i previous out ctx = Some (take out_len (hkdf_stream md prk info (i + k)))"
  using assms(1,4,5,6,8)
proof (induction k arbitrary: i previous out ctx)
  case (Suc k)
  let ?d = "EVP_MD_size md" let ?T = "hkdf_T md prk info (Suc i)"
  obtain c where c: "(let (ok, hctx) = (if i \<noteq> 0 then HMAC_Init_ex alloc ctx None None else (True, ctx)) in
       ok \<and> HMAC_Final alloc (HMAC_Update (HMAC_Update
         (if i \<noteq> 0 then HMAC_Update hctx (take ?d previous) else hctx) info) [word_of_nat (i + 1)]) =
         (Some (Some ?T, ?d), c))" "hmac_keyed c md prk"
    using hkdf_round[OF Suc.prems(1) assms(2,3) Suc.prems(2)] Suc.prems(3) by auto
  have "(i + k) * ?d \<le> out_len" using Suc.prems(5) by simp
  then have i: "i * ?d \<le> out_len" unfolding add_mult_distrib by linarith
  then have o: "length out = i * ?d" "out = hkdf_stream md prk info i"
    using Suc.prems(4) by (simp_all add: length_hkdf_stream min_def)
  have m: "(length out + ?d) mod SIZE_MOD = length out + ?d"
    using i o(1) assms(7) by simp
  let ?todo = "if (length out + ?d) mod SIZE_MOD > out_len then out_len - length out else ?d"
  have out: "out @ take ?todo ?T = take out_len (hkdf_stream md prk info (Suc i))"
    using i o length_hkdf_T[of md prk info i] unfolding m by (simp add: hkdf_stream_Suc del: hkdf_T.simps)
  have "hkdf_expand_loop alloc ?d out_len info (Suc k) i previous out ctx =
      hkdf_expand_loop alloc ?d out_len info k (Suc i) ?T (out @ take ?todo ?T) c"
    using c(1) by (auto simp: Let_def split: prod.splits simp del: hkdf_T.simps)
  also have "\<dots> = Some (take out_len (hkdf_stream md prk info (Suc i + k)))"
    by (rule Suc.IH) (use Suc.prems c(2) out in simp_all)
  finally show ?case by simp
qed simp

text \<open>The number of rounds, and the test of the length.\<close>

lemma rounds_bound:
  fixes d :: nat
  assumes "0 < d" "l \<le> 255 * d"
  shows "(l + d - 1) div d \<le> 255" "((l + d - 1) div d - 1) * d \<le> l" "l \<le> (l + d - 1) div d * d"
proof -
  let ?n = "(l + d - 1) div d"
  have e: "?n * d + (l + d - 1) mod d = l + d - 1" by (rule div_mult_mod_eq)
  have m: "(l + d - 1) mod d < d" using assms(1) by simp
  show "l \<le> ?n * d" using e m by linarith
  have "(?n - 1) * d = ?n * d - d" by (simp add: diff_mult_distrib)
  then show "(?n - 1) * d \<le> l" using e by linarith
  have "l + d - 1 < 256 * d" using assms by linarith
  then show "?n \<le> 255" using less_mult_imp_div_less[of "l + d - 1" 256 d] by simp
qed

lemma rounds_refused:
  fixes d :: nat
  assumes "0 < d" "255 * d < l"
  shows "255 < (l + d - 1) div d"
proof -
  have "256 * d \<le> l + d - 1" using assms by linarith
  then have "256 \<le> (l + d - 1) div d" using assms(1) by (simp add: less_eq_div_iff_mult_less_eq)
  then show ?thesis by simp
qed

text \<open>C33: HKDF is the function of RFC 5869. With memory for the digest, \<open>HKDF\<close> gives the first \<open>out_len\<close>
  bytes of the stream of blocks \<open>T(1), T(2), ...\<close> under the extracted key, an absent salt being the
  empty one, when the length is at most 255 digests; and fails for every longer output, also where
  the sum of the lengths wraps around.\<close>

theorem HKDF_correct:
  assumes "md_grants alloc md" "length secret < SIZE_MOD" "length info < SIZE_MOD" "out_len < SIZE_MOD"
    "length (case salt of None \<Rightarrow> [] | Some s \<Rightarrow> s) < SIZE_MOD"
  shows "HKDF alloc out_len md secret salt info =
    (if out_len \<le> 255 * EVP_MD_size md
     then Some (hkdf md (case salt of None \<Rightarrow> [] | Some s \<Rightarrow> s) secret info out_len) else None)"
proof -
  let ?d = "EVP_MD_size md" let ?s = "case salt of None \<Rightarrow> [] | Some s \<Rightarrow> s" let ?prk = "hmac md ?s secret"
  let ?n = "(out_len + ?d - 1) mod SIZE_MOD div ?d"
  note d = digest_len_pos[of md]
  have e: "HKDF_extract alloc md secret salt = Some ?prk"
    by (simp add: HKDF_extract_def HMAC_one_shot[OF assms(1,5,2)] length_hmac)
  have k: "length ?prk < SIZE_MOD" using d(2) by (simp add: length_hmac)
  obtain c where c: "HMAC_Init_ex alloc HMAC_CTX_init (Some ?prk) (Some md) = (True, c)" "hmac_absorbs c md ?prk []"
    using HMAC_Init_ex_key[OF hmac_fresh_init assms(1) k, of "Some md"] by blast
  show ?thesis
  proof (cases "out_len + ?d < SIZE_MOD")
    case False
    then have "(out_len + ?d) mod SIZE_MOD = out_len + ?d - SIZE_MOD" using assms(4) d(2) by (simp add: mod_if)
    then have "(out_len + ?d) mod SIZE_MOD < out_len" using False assms(4) d(2) by linarith
    then show ?thesis using False d(2) by (simp add: HKDF_def e HKDF_expand_def Let_def)
  next
    case True
    then have w: "(out_len + ?d) mod SIZE_MOD = out_len + ?d" "?n = (out_len + ?d - 1) div ?d" by simp_all
    show ?thesis
    proof (cases "out_len \<le> 255 * ?d")
      case False
      then have "255 < ?n" unfolding w(2) using rounds_refused[OF d(1)] by simp
      then show ?thesis using False by (simp add: HKDF_def e HKDF_expand_def Let_def)
    next
      case l: True
      note r = rounds_bound[OF d(1) l, folded w(2)]
      have "hkdf_expand_loop alloc ?d out_len info ?n 0 [] [] c = Some (take out_len (hkdf_stream md ?prk info (0 + ?n)))"
        by (rule hkdf_expand_loop_ok) (use c(2) assms(1,3) r True in \<open>simp_all add: hkdf_stream_def\<close>)
      moreover have "take out_len (hkdf_stream md ?prk info ?n) = hkdf md ?s secret info out_len"
        by (simp only: hkdf_def take_take min.absorb1[OF r(3)] flip: hkdf_stream_prefix[OF r(1), of md ?prk info])
      moreover have g: "((out_len + ?d) mod SIZE_MOD < out_len \<or> ?n > 255) = False" unfolding w(1) using r(1) by simp
      ultimately show ?thesis
        by (simp only: HKDF_def e HKDF_expand_def Let_def option.case g if_False if_True c(1) prod.case l add_0 not_True_eq_False)
    qed
  qed
qed

theorem HKDF_correct_witness:
  "HKDF some_alloc 42 MD_sha256 [0x0b, 0x0b] None [0xf0] = Some (hkdf MD_sha256 [] [0x0b, 0x0b] [0xf0] 42)"
  using HKDF_correct[of some_alloc MD_sha256 "[0x0b, 0x0b]" "[0xf0]" 42 None]
  by (simp add: md_grants_some_alloc EVP_MD_size_def EVP_sha256_def SHA256_DIGEST_LENGTH_def)

end
