(* ===== verification/Chacha.thy ===== *)
theory Chacha
  imports Endian Rounds
begin

text \<open>The stream cipher ChaCha20: \<open>crypto/chacha/chacha.c\<close> in the build without assembly.  The code
  works on sixteen words by index; the cipher of RFC 8439 works on a matrix of four rows.\<close>

section \<open>Model\<close>

text \<open>\<open>sigma\<close>, the characters of \<open>expand 32-byte k\<close>.\<close>

definition sigma :: bytes where
  "sigma = [0x65, 0x78, 0x70, 0x61, 0x6e, 0x64, 0x20, 0x33, 0x32, 0x2d, 0x62, 0x79, 0x74, 0x65, 0x20, 0x6b]"

definition QUARTERROUND :: "nat \<Rightarrow> nat \<Rightarrow> nat \<Rightarrow> nat \<Rightarrow> u32 list \<Rightarrow> u32 list" where
  "QUARTERROUND a b c d x =
     (let x = x[a := x ! a + x ! b];
          x = x[d := CRYPTO_rotl_u32 (x ! d XOR x ! a) 16];
          x = x[c := x ! c + x ! d];
          x = x[b := CRYPTO_rotl_u32 (x ! b XOR x ! c) 12];
          x = x[a := x ! a + x ! b];
          x = x[d := CRYPTO_rotl_u32 (x ! d XOR x ! a) 8];
          x = x[c := x ! c + x ! d]
      in x[b := CRYPTO_rotl_u32 (x ! b XOR x ! c) 7])"

text \<open>The body of the loop over the rounds, the same in \<open>CRYPTO_hchacha20\<close> and \<open>chacha_core\<close>.\<close>

definition chacha_two_rounds :: "u32 list \<Rightarrow> u32 list" where
  "chacha_two_rounds x =
     (let x = QUARTERROUND 0 4 8 12 x;
          x = QUARTERROUND 1 5 9 13 x;
          x = QUARTERROUND 2 6 10 14 x;
          x = QUARTERROUND 3 7 11 15 x;
          x = QUARTERROUND 0 5 10 15 x;
          x = QUARTERROUND 1 6 11 12 x;
          x = QUARTERROUND 2 7 8 13 x
      in QUARTERROUND 3 4 9 14 x)"

text \<open>Words copied out of bytes and into bytes by \<open>memcpy\<close>.\<close>

definition words_of_bytes :: "bytes \<Rightarrow> u32 list" where
  "words_of_bytes p = map (\<lambda>i. CRYPTO_load_u32_le (drop (4 * i) p)) [0..<length p div 4]"

definition bytes_of_words :: "u32 list \<Rightarrow> bytes" where
  "bytes_of_words x = concat (map CRYPTO_store_u32_le x)"

definition CRYPTO_hchacha20 :: "bytes \<Rightarrow> bytes \<Rightarrow> bytes" where
  "CRYPTO_hchacha20 key nonce =
     (let x = words_of_bytes sigma @ words_of_bytes key @ words_of_bytes nonce;
          x = (chacha_two_rounds ^^ 10) x
      in bytes_of_words (take 4 x) @ bytes_of_words (take 4 (drop 12 x)))"

definition chacha_core :: "u32 list \<Rightarrow> bytes" where
  "chacha_core input =
     (let x = (chacha_two_rounds ^^ 10) input;
          x = map2 (+) x input
      in concat (map CRYPTO_store_u32_le x))"

text \<open>The loop over the input, 64 bytes at a time, and the function.  The result is what is written to
  \<open>out\<close>, which is \<open>in\<close> itself or does not overlap it.\<close>

function chacha_20_loop :: "u32 list \<Rightarrow> bytes \<Rightarrow> bytes" where
  "chacha_20_loop input inp =
     (if inp = [] then []
      else
        (let todo = (if length inp < 64 then length inp else 64);
             buf = chacha_core input
         in map2 (XOR) (take todo inp) (take todo buf) @
            chacha_20_loop (input[12 := input ! 12 + 1]) (drop todo inp)))"
  by pat_completeness auto
termination by (relation "measure (length \<circ> snd)") (auto simp: Let_def)

declare chacha_20_loop.simps [simp del]

definition CRYPTO_chacha_20 :: "bytes \<Rightarrow> bytes \<Rightarrow> bytes \<Rightarrow> u32 \<Rightarrow> bytes" where
  "CRYPTO_chacha_20 inp key nonce counter =
     chacha_20_loop
       [CRYPTO_load_u32_le sigma, CRYPTO_load_u32_le (drop 4 sigma),
        CRYPTO_load_u32_le (drop 8 sigma), CRYPTO_load_u32_le (drop 12 sigma),
        CRYPTO_load_u32_le key, CRYPTO_load_u32_le (drop 4 key),
        CRYPTO_load_u32_le (drop 8 key), CRYPTO_load_u32_le (drop 12 key),
        CRYPTO_load_u32_le (drop 16 key), CRYPTO_load_u32_le (drop 20 key),
        CRYPTO_load_u32_le (drop 24 key), CRYPTO_load_u32_le (drop 28 key),
        counter, CRYPTO_load_u32_le nonce,
        CRYPTO_load_u32_le (drop 4 nonce), CRYPTO_load_u32_le (drop 8 nonce)] inp"

section \<open>RFC 8439\<close>

text \<open>The state is a matrix of four rows; the quarter round works on the columns, four at a time, and
  a diagonal round is a column round on the rows rotated by their number.\<close>

type_synonym chacha_row = "u32 list"
type_synonym chacha_state = "chacha_row \<times> chacha_row \<times> chacha_row \<times> chacha_row"

definition row_step :: "nat \<Rightarrow> chacha_row \<Rightarrow> chacha_row \<Rightarrow> chacha_row \<Rightarrow> chacha_row \<times> chacha_row" where
  "row_step n a b d = (let a = map2 (+) a b in (a, map2 (\<lambda>x y. word_rotl n (x XOR y)) d a))"

definition column_round :: "chacha_state \<Rightarrow> chacha_state" where
  "column_round = (\<lambda>(a, b, c, d).
     let (a, d) = row_step 16 a b d;
         (c, b) = row_step 12 c d b;
         (a, d) = row_step 8 a b d;
         (c, b) = row_step 7 c d b
     in (a, b, c, d))"

definition diagonal_round :: "chacha_state \<Rightarrow> chacha_state" where
  "diagonal_round = (\<lambda>(a, b, c, d).
     let (a, b, c, d) = column_round (a, rotate 1 b, rotate 2 c, rotate 3 d)
     in (a, rotate 3 b, rotate 2 c, rotate 1 d))"

definition chacha_rounds :: "chacha_state \<Rightarrow> chacha_state" where
  "chacha_rounds = (diagonal_round \<circ> column_round) ^^ 10"

definition flat :: "chacha_state \<Rightarrow> u32 list" where
  "flat = (\<lambda>(a, b, c, d). a @ b @ c @ d)"

definition chacha_start :: "bytes \<Rightarrow> bytes \<Rightarrow> chacha_state" where
  "chacha_start key tail =
     ([0x61707865, 0x3320646e, 0x79622d32, 0x6b206574], words_of_bytes (take 16 key),
      words_of_bytes (drop 16 key), words_of_bytes tail)"

definition chacha20_block :: "bytes \<Rightarrow> u32 \<Rightarrow> bytes \<Rightarrow> bytes" where
  "chacha20_block key counter nonce =
     (let s = chacha_start key (CRYPTO_store_u32_le counter @ nonce)
      in bytes_of_words (map2 (+) (flat (chacha_rounds s)) (flat s)))"

text \<open>Byte \<open>i\<close> of the key stream that starts at block \<open>counter\<close>.\<close>

definition chacha20_stream :: "bytes \<Rightarrow> u32 \<Rightarrow> bytes \<Rightarrow> nat \<Rightarrow> u8" where
  "chacha20_stream key counter nonce i =
     chacha20_block key (counter + word_of_nat (i div 64)) nonce ! (i mod 64)"


section \<open>The rounds\<close>

text \<open>The quarter round on its four words.\<close>

definition quarter :: "u32 \<Rightarrow> u32 \<Rightarrow> u32 \<Rightarrow> u32 \<Rightarrow> u32 \<times> u32 \<times> u32 \<times> u32" where
  "quarter a b c d =
     (let a = a + b; d = word_rotl 16 (d XOR a);
          c = c + d; b = word_rotl 12 (b XOR c);
          a = a + b; d = word_rotl 8 (d XOR a);
          c = c + d; b = word_rotl 7 (b XOR c)
      in (a, b, c, d))"

lemma four_updates:
  assumes "distinct [a, b, c, d]" "a < length x" "b < length x" "c < length x" "d < length x"
  shows "x[a := a', d := d', c := c', b := b', a := p, d := s, c := r, b := q] = x[a := p, b := q, c := r, d := s]"
  using assms by (intro nth_equalityI) (auto simp: nth_list_update)

lemma QUARTERROUND_quarter:
  assumes "distinct [a, b, c, d]" "a < length x" "b < length x" "c < length x" "d < length x"
    and "quarter (x ! a) (x ! b) (x ! c) (x ! d) = (p, q, r, s)"
  shows "QUARTERROUND a b c d x = x[a := p, b := q, c := r, d := s]"
proof -
  have n: "a \<noteq> b" "a \<noteq> c" "a \<noteq> d" "b \<noteq> a" "b \<noteq> c" "b \<noteq> d" "c \<noteq> a" "c \<noteq> b" "c \<noteq> d" "d \<noteq> a" "d \<noteq> b" "d \<noteq> c"
    using assms(1) by auto
  show ?thesis
    using assms(6)[symmetric]
    by (simp add: QUARTERROUND_def quarter_def Let_def CRYPTO_rotl_u32_eq four_updates[OF assms(1-5)] n assms(2-5))
qed

text \<open>A column round is a quarter round on each column.\<close>

definition quarters :: "chacha_state \<Rightarrow> (u32 \<times> u32 \<times> u32 \<times> u32) list" where
  "quarters = (\<lambda>(a, b, c, d). map (\<lambda>i. quarter (a ! i) (b ! i) (c ! i) (d ! i)) [0, 1, 2, 3])"

definition of_quarters :: "(u32 \<times> u32 \<times> u32 \<times> u32) list \<Rightarrow> chacha_state" where
  "of_quarters qs =
     (map fst qs, map (fst \<circ> snd) qs, map (fst \<circ> snd \<circ> snd) qs, map (snd \<circ> snd \<circ> snd) qs)"

definition rows_ok :: "chacha_state \<Rightarrow> bool" where
  "rows_ok = (\<lambda>(a, b, c, d). length a = 4 \<and> length b = 4 \<and> length c = 4 \<and> length d = 4)"

lemma column_round_quarters:
  assumes "rows_ok s"
  shows "column_round s = of_quarters (quarters s)"
proof -
  obtain a b c d where s: "s = (a, b, c, d)" by (cases s)
  then have l: "length a = 4" "length b = 4" "length c = 4" "length d = 4" using assms by (simp_all add: rows_ok_def)
  obtain a0 a1 a2 a3 where a: "a = [a0, a1, a2, a3]" using l(1) by (rule length_cases_4)
  obtain b0 b1 b2 b3 where b: "b = [b0, b1, b2, b3]" using l(2) by (rule length_cases_4)
  obtain c0 c1 c2 c3 where c: "c = [c0, c1, c2, c3]" using l(3) by (rule length_cases_4)
  obtain d0 d1 d2 d3 where d: "d = [d0, d1, d2, d3]" using l(4) by (rule length_cases_4)
  show ?thesis
    unfolding s a b c d by (simp add: column_round_def quarters_def of_quarters_def quarter_def row_step_def Let_def)
qed

lemma two_rounds_rows:
  assumes "rows_ok s"
  shows "chacha_two_rounds (flat s) = flat (diagonal_round (column_round s))"
    and "rows_ok (diagonal_round (column_round s))"
proof -
  obtain a b c d where s: "s = (a, b, c, d)" by (cases s)
  then have l: "length a = 4" "length b = 4" "length c = 4" "length d = 4" using assms by (simp_all add: rows_ok_def)
  obtain a0 a1 a2 a3 where a: "a = [a0, a1, a2, a3]" using l(1) by (rule length_cases_4)
  obtain b0 b1 b2 b3 where b: "b = [b0, b1, b2, b3]" using l(2) by (rule length_cases_4)
  obtain c0 c1 c2 c3 where c: "c = [c0, c1, c2, c3]" using l(3) by (rule length_cases_4)
  obtain d0 d1 d2 d3 where d: "d = [d0, d1, d2, d3]" using l(4) by (rule length_cases_4)
  obtain e0 f0 g0 h0 where 0: "quarter a0 b0 c0 d0 = (e0, f0, g0, h0)" by (rule prod_cases4)
  obtain e1 f1 g1 h1 where 1: "quarter a1 b1 c1 d1 = (e1, f1, g1, h1)" by (rule prod_cases4)
  obtain e2 f2 g2 h2 where 2: "quarter a2 b2 c2 d2 = (e2, f2, g2, h2)" by (rule prod_cases4)
  obtain e3 f3 g3 h3 where 3: "quarter a3 b3 c3 d3 = (e3, f3, g3, h3)" by (rule prod_cases4)
  obtain i0 j0 k0 m0 where 4: "quarter e0 f1 g2 h3 = (i0, j0, k0, m0)" by (rule prod_cases4)
  obtain i1 j1 k1 m1 where 5: "quarter e1 f2 g3 h0 = (i1, j1, k1, m1)" by (rule prod_cases4)
  obtain i2 j2 k2 m2 where 6: "quarter e2 f3 g0 h1 = (i2, j2, k2, m2)" by (rule prod_cases4)
  obtain i3 j3 k3 m3 where 7: "quarter e3 f0 g1 h2 = (i3, j3, k3, m3)" by (rule prod_cases4)
  note q = 0 1 2 3 4 5 6 7
  have c1: "column_round s = ([e0, e1, e2, e3], [f0, f1, f2, f3], [g0, g1, g2, g3], [h0, h1, h2, h3])"
    by (subst column_round_quarters[OF assms]) (simp add: s a b c d quarters_def of_quarters_def q)
  have r: "rotate 1 [x, y, z, w] = [y, z, w, x]" "rotate 2 [x, y, z, w] = [z, w, x, y]"
    "rotate 3 [x, y, z, w] = [w, x, y, z]" for x y z w :: u32
    by (simp_all add: rotate_drop_take)
  have c2: "diagonal_round (column_round s) =
      ([i0, i1, i2, i3], [j3, j0, j1, j2], [k2, k3, k0, k1], [m1, m2, m3, m0])"
    unfolding c1 diagonal_round_def prod.case r
    by (subst column_round_quarters) (simp_all add: rows_ok_def quarters_def of_quarters_def q r)
  show "rows_ok (diagonal_round (column_round s))" by (simp add: c2 rows_ok_def)
  show "chacha_two_rounds (flat s) = flat (diagonal_round (column_round s))"
    unfolding c2 unfolding s a b c d chacha_two_rounds_def flat_def prod.case Let_def
    by (simp add: q QUARTERROUND_quarter)
qed

lemma rounds_rows:
  assumes "rows_ok s"
  shows "(chacha_two_rounds ^^ n) (flat s) = flat (((diagonal_round \<circ> column_round) ^^ n) s) \<and>
    rows_ok (((diagonal_round \<circ> column_round) ^^ n) s)"
  using assms by (induction n) (simp_all add: two_rounds_rows)

lemma chacha_core_block:
  "rows_ok s \<Longrightarrow> chacha_core (flat s) = bytes_of_words (map2 (+) (flat (chacha_rounds s)) (flat s))"
  using rounds_rows[of s 10] by (simp add: chacha_core_def chacha_rounds_def bytes_of_words_def)

lemma rows_ok_rounds: "rows_ok s \<Longrightarrow> rows_ok (chacha_rounds s)"
  using rounds_rows[of s 10] by (simp add: chacha_rounds_def)

lemma length_flat: "rows_ok s \<Longrightarrow> length (flat s) = 16"
  by (cases s) (simp add: rows_ok_def flat_def)

lemma length_bytes_of_words [simp]: "length (bytes_of_words x) = 4 * length x"
  by (induction x) (simp_all add: bytes_of_words_def)

section \<open>The state\<close>

lemma words_of_16:
  "length p = 16 \<Longrightarrow> words_of_bytes p =
     [CRYPTO_load_u32_le p, CRYPTO_load_u32_le (drop 4 p), CRYPTO_load_u32_le (drop 8 p), CRYPTO_load_u32_le (drop 12 p)]"
  by (simp add: words_of_bytes_def upt_rec)

lemma load_take: "k + 4 \<le> n \<Longrightarrow> CRYPTO_load_u32_le (drop k (take n p)) = CRYPTO_load_u32_le (drop k p)"
  by (simp add: CRYPTO_load_u32_le_def drop_take)

lemma load_take_0: "4 \<le> n \<Longrightarrow> CRYPTO_load_u32_le (take n p) = CRYPTO_load_u32_le p"
  using load_take[of 0 n p] by simp

definition chacha_input :: "bytes \<Rightarrow> bytes \<Rightarrow> u32 \<Rightarrow> u32 list" where
  "chacha_input key nonce counter = flat (chacha_start key (CRYPTO_store_u32_le counter @ nonce))"

lemma sigma_words:
  "words_of_bytes sigma = [0x61707865, 0x3320646e, 0x79622d32, 0x6b206574]"
  by (simp add: words_of_bytes_def sigma_def upt_rec CRYPTO_load_u32_le_def)

lemma rows_ok_start: "length key = 32 \<Longrightarrow> length tail = 16 \<Longrightarrow> rows_ok (chacha_start key tail)"
  by (simp add: chacha_start_def rows_ok_def words_of_16)

lemma chacha_20_start:
  assumes "length key = 32" "length nonce = 12"
  shows "CRYPTO_chacha_20 inp key nonce counter = chacha_20_loop (chacha_input key nonce counter) inp"
proof -
  have k: "words_of_bytes (take 16 key) = [CRYPTO_load_u32_le key, CRYPTO_load_u32_le (drop 4 key),
      CRYPTO_load_u32_le (drop 8 key), CRYPTO_load_u32_le (drop 12 key)]"
    using assms by (simp add: words_of_16 load_take load_take_0)
  have k': "words_of_bytes (drop 16 key) = [CRYPTO_load_u32_le (drop 16 key), CRYPTO_load_u32_le (drop 20 key),
      CRYPTO_load_u32_le (drop 24 key), CRYPTO_load_u32_le (drop 28 key)]"
    using assms by (simp add: words_of_16)
  have n: "words_of_bytes (CRYPTO_store_u32_le counter @ nonce) = [counter, CRYPTO_load_u32_le nonce,
      CRYPTO_load_u32_le (drop 4 nonce), CRYPTO_load_u32_le (drop 8 nonce)]"
    using assms by (simp add: words_of_16)
  show ?thesis
    unfolding CRYPTO_chacha_20_def chacha_input_def chacha_start_def flat_def prod.case k k' n
    using sigma_words by (simp add: words_of_16 sigma_def)
qed

lemma chacha_input_next:
  assumes "length key = 32" "length nonce = 12"
  shows "(chacha_input key nonce c)[12 := chacha_input key nonce c ! 12 + 1] = chacha_input key nonce (c + 1)"
  using assms by (simp add: chacha_input_def chacha_start_def flat_def words_of_16)

section \<open>The key stream\<close>

lemma chacha_core_key_stream:
  assumes "length key = 32" "length nonce = 12"
  shows "chacha_core (chacha_input key nonce c) = chacha20_block key c nonce"
  using assms by (simp add: chacha_input_def chacha20_block_def Let_def chacha_core_block rows_ok_start)

lemma length_block:
  assumes "length key = 32" "length nonce = 12"
  shows "length (chacha20_block key c nonce) = 64"
  using assms by (simp add: chacha20_block_def Let_def length_flat rows_ok_rounds rows_ok_start)

lemma stream_shift: "chacha20_stream key (c + 1) nonce i = chacha20_stream key c nonce (i + 64)"
proof -
  have "(i + 64) div 64 = Suc (i div 64)" by simp
  then show ?thesis by (simp only: chacha20_stream_def of_nat_Suc mod_add_self2 add.assoc)
qed

lemma zip_take_length: "zip xs (take (length xs) ys) = zip xs ys"
  by (induction xs ys rule: list_induct2') simp_all

definition chacha20_xor :: "bytes \<Rightarrow> bytes \<Rightarrow> bytes \<Rightarrow> u32 \<Rightarrow> bytes" where
  "chacha20_xor inp key nonce c = map (\<lambda>i. inp ! i XOR chacha20_stream key c nonce i) [0..<length inp]"

lemma xor_first_block:
  assumes "length key = 32" "length nonce = 12"
  shows "chacha20_xor inp key nonce c =
    map2 (XOR) (take 64 inp) (chacha20_block key c nonce) @ chacha20_xor (drop 64 inp) key nonce (c + 1)"
proof (rule nth_equalityI)
  show "length (chacha20_xor inp key nonce c) = length (map2 (XOR) (take 64 inp) (chacha20_block key c nonce) @
      chacha20_xor (drop 64 inp) key nonce (c + 1))"
    by (simp add: chacha20_xor_def length_block[OF assms] min_def)
  fix i assume "i < length (chacha20_xor inp key nonce c)"
  then have i: "i < length inp" by (simp add: chacha20_xor_def)
  show "chacha20_xor inp key nonce c ! i = (map2 (XOR) (take 64 inp) (chacha20_block key c nonce) @
      chacha20_xor (drop 64 inp) key nonce (c + 1)) ! i"
  proof (cases "i < 64")
    case True
    then show ?thesis
      using i by (simp add: chacha20_xor_def nth_append length_block[OF assms] chacha20_stream_def)
  next
    case False
    then have "i - 64 < length inp - 64" using i by simp
    then show ?thesis
      using i False by (simp add: chacha20_xor_def nth_append length_block[OF assms] stream_shift min_def)
  qed
qed

lemma chacha_20_loop_xor:
  assumes "length key = 32" "length nonce = 12"
  shows "chacha_20_loop (chacha_input key nonce c) inp = chacha20_xor inp key nonce c"
proof (induction "length inp" arbitrary: inp c rule: less_induct)
  case less
  show ?case
  proof (cases "inp = []")
    case False
    then have "chacha_20_loop (chacha_input key nonce (c + 1)) (drop 64 inp) = chacha20_xor (drop 64 inp) key nonce (c + 1)"
      by (intro less) simp
    then show ?thesis
      using False length_block[OF assms, of c]
      by (subst chacha_20_loop.simps)
        (auto simp: xor_first_block[OF assms, of inp] chacha_core_key_stream[OF assms] Let_def
          chacha_input_next[OF assms] zip_take_length)
  qed (simp add: chacha_20_loop.simps chacha20_xor_def)
qed

lemma chacha_20_xor:
  "length key = 32 \<Longrightarrow> length nonce = 12 \<Longrightarrow> CRYPTO_chacha_20 inp key nonce c = chacha20_xor inp key nonce c"
  by (simp add: chacha_20_start chacha_20_loop_xor)

lemma length_chacha20_xor [simp]: "length (chacha20_xor inp key nonce c) = length inp"
  by (simp add: chacha20_xor_def)

lemma chacha20_xor_twice: "chacha20_xor (chacha20_xor inp key nonce c) key nonce c = inp"
  by (rule nth_equalityI) (simp_all add: chacha20_xor_def xor.assoc)

section \<open>Properties\<close>

text \<open>C35: with a key of 32 and a nonce of 12 bytes, \<open>CRYPTO_chacha_20\<close> xors the input with the key stream
  of RFC 8439 that starts at the given block: block after block of the matrix form of the cipher, the
  counter wrapping at \<open>2 ^ 32\<close>, and the last block cut to the bytes that remain.\<close>

theorem CRYPTO_chacha_20_correct:
  assumes "length key = 32" "length nonce = 12"
  shows "CRYPTO_chacha_20 inp key nonce counter =
    map (\<lambda>i. inp ! i XOR chacha20_block key (counter + word_of_nat (i div 64)) nonce ! (i mod 64)) [0..<length inp]"
  using chacha_20_xor[OF assms] by (simp add: chacha20_xor_def chacha20_stream_def)

theorem CRYPTO_chacha_20_correct_witness:
  "CRYPTO_chacha_20 [1, 2, 3] (replicate 32 7) (replicate 12 9) 0xffffffff =
   map (\<lambda>i. [1, 2, 3] ! i XOR chacha20_block (replicate 32 7) (0xffffffff + word_of_nat (i div 64)) (replicate 12 9) ! (i mod 64))
     [0..<length [1 :: u8, 2, 3]]"
  by (rule CRYPTO_chacha_20_correct) simp_all

lemma CRYPTO_hchacha20_rows:
  assumes "length key = 32" "length nonce = 16" "chacha_rounds (chacha_start key nonce) = (a, b, c, d)"
  shows "CRYPTO_hchacha20 key nonce = bytes_of_words a @ bytes_of_words d"
proof -
  have k: "words_of_bytes key = words_of_bytes (take 16 key) @ words_of_bytes (drop 16 key)"
    using assms(1) by (simp add: words_of_16 load_take load_take_0) (simp add: words_of_bytes_def upt_rec)
  have r: "rows_ok (chacha_start key nonce)" using assms by (simp add: rows_ok_start)
  then have l: "length a = 4" "length b = 4" "length c = 4" "length d = 4"
    using rows_ok_rounds[OF r] assms(3) by (simp_all add: rows_ok_def)
  have s: "words_of_bytes sigma @ words_of_bytes key @ words_of_bytes nonce = flat (chacha_start key nonce)"
    by (simp add: k chacha_start_def flat_def sigma_words)
  have "(chacha_two_rounds ^^ 10) (flat (chacha_start key nonce)) = a @ b @ c @ d"
    using rounds_rows[OF r, of 10] assms(3) by (simp add: chacha_rounds_def flat_def)
  then show ?thesis by (simp add: CRYPTO_hchacha20_def s Let_def l)
qed

lemma length_hchacha20: "length key = 32 \<Longrightarrow> length nonce = 16 \<Longrightarrow> length (CRYPTO_hchacha20 key nonce) = 32"
  using rows_ok_rounds[OF rows_ok_start, of key nonce]
  by (cases "chacha_rounds (chacha_start key nonce)") (simp add: CRYPTO_hchacha20_rows rows_ok_def)

end
