(* ===== verification/Poly1305.thy ===== *)
theory Poly1305
  imports Endian
begin

text \<open>The authenticator Poly1305: the portable code of \<open>crypto/poly1305/poly1305.c\<close>, which keeps numbers
  modulo \<open>2 ^ 130 - 5\<close> in five limbs of 26 bits, carried only in part.  It is compared with the
  arithmetic definition of RFC 8439.\<close>

section \<open>Model\<close>

definition U8TO32_LE :: "bytes \<Rightarrow> u32" where
  "U8TO32_LE m = word_of_nat (le_val (take 4 m))"

definition U32TO8_LE :: "u32 \<Rightarrow> bytes" where
  "U32TO8_LE v = le_bytes 4 (unat v)"

definition mul32x32_64 :: "u32 \<Rightarrow> u32 \<Rightarrow> u64" where
  "mul32x32_64 a b = ucast a * ucast b"

record poly1305_state_st =
  r0 :: u32  r1 :: u32  r2 :: u32  r3 :: u32  r4 :: u32
  s1 :: u32  s2 :: u32  s3 :: u32  s4 :: u32
  h0 :: u32  h1 :: u32  h2 :: u32  h3 :: u32  h4 :: u32
  poly_buf :: bytes
  poly_buf_used :: nat
  poly_key :: bytes

text \<open>The words of a block added to the accumulator: \<open>hibit\<close> is the bit above a full block, and 0 for the last
  bytes, where the block has that bit in it.\<close>

definition poly1305_add_block :: "u32 \<Rightarrow> bytes \<Rightarrow> poly1305_state_st \<Rightarrow> poly1305_state_st" where
  "poly1305_add_block hibit m st =
     (let t0 = U8TO32_LE m;
          t1 = U8TO32_LE (drop 4 m);
          t2 = U8TO32_LE (drop 8 m);
          t3 = U8TO32_LE (drop 12 m)
      in st\<lparr>h0 := h0 st + (t0 AND 0x3ffffff),
            h1 := ucast (ucast (h1 st) + (drop_bit 26 (push_bit 32 (ucast t1) OR ucast t0) AND 0x3ffffff :: u64)),
            h2 := ucast (ucast (h2 st) + (drop_bit 20 (push_bit 32 (ucast t2) OR ucast t1) AND 0x3ffffff :: u64)),
            h3 := ucast (ucast (h3 st) + (drop_bit 14 (push_bit 32 (ucast t3) OR ucast t2) AND 0x3ffffff :: u64)),
            h4 := h4 st + (drop_bit 8 t3 OR hibit)\<rparr>)"

text \<open>The code at \<open>poly1305_donna_mul\<close>.\<close>

definition poly1305_mul :: "poly1305_state_st \<Rightarrow> poly1305_state_st" where
  "poly1305_mul st =
     (let t0 = mul32x32_64 (h0 st) (r0 st) + mul32x32_64 (h1 st) (s4 st) + mul32x32_64 (h2 st) (s3 st) +
            mul32x32_64 (h3 st) (s2 st) + mul32x32_64 (h4 st) (s1 st);
          t1 = mul32x32_64 (h0 st) (r1 st) + mul32x32_64 (h1 st) (r0 st) + mul32x32_64 (h2 st) (s4 st) +
            mul32x32_64 (h3 st) (s3 st) + mul32x32_64 (h4 st) (s2 st);
          t2 = mul32x32_64 (h0 st) (r2 st) + mul32x32_64 (h1 st) (r1 st) + mul32x32_64 (h2 st) (r0 st) +
            mul32x32_64 (h3 st) (s4 st) + mul32x32_64 (h4 st) (s3 st);
          t3 = mul32x32_64 (h0 st) (r3 st) + mul32x32_64 (h1 st) (r2 st) + mul32x32_64 (h2 st) (r1 st) +
            mul32x32_64 (h3 st) (r0 st) + mul32x32_64 (h4 st) (s4 st);
          t4 = mul32x32_64 (h0 st) (r4 st) + mul32x32_64 (h1 st) (r3 st) + mul32x32_64 (h2 st) (r2 st) +
            mul32x32_64 (h3 st) (r1 st) + mul32x32_64 (h4 st) (r0 st);
          h0' = ucast t0 AND 0x3ffffff;
          c = drop_bit 26 t0;
          t1 = t1 + c;
          h1' = ucast t1 AND 0x3ffffff;
          b = (ucast (drop_bit 26 t1) :: u32);
          t2 = t2 + ucast b;
          h2' = ucast t2 AND 0x3ffffff;
          b = (ucast (drop_bit 26 t2) :: u32);
          t3 = t3 + ucast b;
          h3' = ucast t3 AND 0x3ffffff;
          b = (ucast (drop_bit 26 t3) :: u32);
          t4 = t4 + ucast b;
          h4' = ucast t4 AND 0x3ffffff;
          b = ucast (drop_bit 26 t4)
      in st\<lparr>h0 := h0' + b * 5, h1 := h1', h2 := h2', h3 := h3', h4 := h4'\<rparr>)"

text \<open>\<open>poly1305_update\<close>: the loop at \<open>poly1305_donna_16bytes\<close>, then \<open>poly1305_donna_atmost15bytes\<close>.\<close>

definition poly1305_atmost15bytes :: "poly1305_state_st \<Rightarrow> bytes \<Rightarrow> poly1305_state_st" where
  "poly1305_atmost15bytes st inp =
     (if inp = [] then st
      else let mp = inp @ [1] @ replicate (15 - length inp) 0
           in poly1305_mul (poly1305_add_block 0 mp st))"

function poly1305_update :: "poly1305_state_st \<Rightarrow> bytes \<Rightarrow> poly1305_state_st" where
  "poly1305_update st inp =
     (if length inp < 16 then poly1305_atmost15bytes st inp
      else poly1305_update (poly1305_mul (poly1305_add_block (push_bit 24 1) inp st)) (drop 16 inp))"
  by pat_completeness auto
termination by (relation "measure (length \<circ> snd)") auto

declare poly1305_update.simps [simp del]

definition CRYPTO_poly1305_init :: "bytes \<Rightarrow> poly1305_state_st \<Rightarrow> poly1305_state_st" where
  "CRYPTO_poly1305_init key st =
     (let t0 = U8TO32_LE key;
          t1 = U8TO32_LE (drop 4 key);
          t2 = U8TO32_LE (drop 8 key);
          t3 = U8TO32_LE (drop 12 key);
          r0' = t0 AND 0x3ffffff;
          t0 = drop_bit 26 t0 OR push_bit 6 t1;
          r1' = t0 AND 0x3ffff03;
          t1 = drop_bit 20 t1 OR push_bit 12 t2;
          r2' = t1 AND 0x3ffc0ff;
          t2 = drop_bit 14 t2 OR push_bit 18 t3;
          r3' = t2 AND 0x3f03fff;
          t3 = drop_bit 8 t3;
          r4' = t3 AND 0x00fffff
      in st\<lparr>r0 := r0', r1 := r1', r2 := r2', r3 := r3', r4 := r4',
            s1 := r1' * 5, s2 := r2' * 5, s3 := r3' * 5, s4 := r4' * 5,
            h0 := 0, h1 := 0, h2 := 0, h3 := 0, h4 := 0,
            poly_buf_used := 0, poly_key := take 16 (drop 16 key)\<rparr>)"

text \<open>\<open>CRYPTO_poly1305_update\<close>: bytes go to a block that was begun first, then whole blocks from the input, and
  the rest is kept.\<close>

definition poly1305_fill :: "bytes \<Rightarrow> poly1305_state_st \<Rightarrow> poly1305_state_st \<times> bytes" where
  "poly1305_fill inp st =
     (if poly_buf_used st \<noteq> 0 then
        let todo = 16 - poly_buf_used st;
            todo = (if length inp < todo then length inp else todo);
            st = st\<lparr>poly_buf := take (poly_buf_used st) (poly_buf st) @ take todo inp @ drop (poly_buf_used st + todo) (poly_buf st)\<rparr>;
            st = st\<lparr>poly_buf_used := poly_buf_used st + todo\<rparr>;
            st = (if poly_buf_used st = 16 then (poly1305_update st (take 16 (poly_buf st)))\<lparr>poly_buf_used := 0\<rparr> else st)
        in (st, drop todo inp)
      else (st, inp))"

definition CRYPTO_poly1305_update :: "poly1305_state_st \<Rightarrow> bytes \<Rightarrow> poly1305_state_st" where
  "CRYPTO_poly1305_update st inp =
     (let (st, inp) = poly1305_fill inp st;
          (st, inp) = (if 16 \<le> length inp
            then let todo = 16 * (length inp div 16) in (poly1305_update st (take todo inp), drop todo inp)
            else (st, inp))
      in if inp \<noteq> []
         then st\<lparr>poly_buf := inp @ drop (length inp) (poly_buf st), poly_buf_used := length inp\<rparr>
         else st)"

text \<open>\<open>CRYPTO_poly1305_finish\<close> in three steps: the carry, the subtraction of \<open>2 ^ 130 - 5\<close> where it is due,
  and the addition of the second half of the key.\<close>

definition poly1305_carry :: "poly1305_state_st \<Rightarrow> poly1305_state_st" where
  "poly1305_carry st =
     (let b = drop_bit 26 (h0 st);
          h0' = h0 st AND 0x3ffffff;
          h1' = h1 st + b;
          b = drop_bit 26 h1';
          h1' = h1' AND 0x3ffffff;
          h2' = h2 st + b;
          b = drop_bit 26 h2';
          h2' = h2' AND 0x3ffffff;
          h3' = h3 st + b;
          b = drop_bit 26 h3';
          h3' = h3' AND 0x3ffffff;
          h4' = h4 st + b;
          b = drop_bit 26 h4';
          h4' = h4' AND 0x3ffffff
      in st\<lparr>h0 := h0' + b * 5, h1 := h1', h2 := h2', h3 := h3', h4 := h4'\<rparr>)"

definition poly1305_reduce :: "poly1305_state_st \<Rightarrow> poly1305_state_st" where
  "poly1305_reduce st =
     (let g0 = h0 st + 5;
          b = drop_bit 26 g0;
          g0 = g0 AND 0x3ffffff;
          g1 = h1 st + b;
          b = drop_bit 26 g1;
          g1 = g1 AND 0x3ffffff;
          g2 = h2 st + b;
          b = drop_bit 26 g2;
          g2 = g2 AND 0x3ffffff;
          g3 = h3 st + b;
          b = drop_bit 26 g3;
          g3 = g3 AND 0x3ffffff;
          g4 = h4 st + b - push_bit 26 1;
          b = drop_bit 31 g4 - 1;
          nb = NOT b
      in st\<lparr>h0 := (h0 st AND nb) OR (g0 AND b), h1 := (h1 st AND nb) OR (g1 AND b),
            h2 := (h2 st AND nb) OR (g2 AND b), h3 := (h3 st AND nb) OR (g3 AND b),
            h4 := (h4 st AND nb) OR (g4 AND b)\<rparr>)"

definition poly1305_tag :: "poly1305_state_st \<Rightarrow> bytes" where
  "poly1305_tag st =
     (let f0 = ucast (h0 st OR push_bit 26 (h1 st)) + (ucast (U8TO32_LE (poly_key st)) :: u64);
          f1 = ucast (drop_bit 6 (h1 st) OR push_bit 20 (h2 st)) + (ucast (U8TO32_LE (drop 4 (poly_key st))) :: u64);
          f2 = ucast (drop_bit 12 (h2 st) OR push_bit 14 (h3 st)) + (ucast (U8TO32_LE (drop 8 (poly_key st))) :: u64);
          f3 = ucast (drop_bit 18 (h3 st) OR push_bit 8 (h4 st)) + (ucast (U8TO32_LE (drop 12 (poly_key st))) :: u64);
          f1 = f1 + drop_bit 32 f0;
          f2 = f2 + drop_bit 32 f1;
          f3 = f3 + drop_bit 32 f2
      in U32TO8_LE (ucast f0) @ U32TO8_LE (ucast f1) @ U32TO8_LE (ucast f2) @ U32TO8_LE (ucast f3))"

definition CRYPTO_poly1305_finish :: "poly1305_state_st \<Rightarrow> bytes \<times> poly1305_state_st" where
  "CRYPTO_poly1305_finish st =
     (let st = (if poly_buf_used st \<noteq> 0 then poly1305_update st (take (poly_buf_used st) (poly_buf st)) else st);
          st = poly1305_reduce (poly1305_carry st)
      in (poly1305_tag st, st))"

section \<open>RFC 8439\<close>

abbreviation P1305 :: nat where "P1305 \<equiv> 2 ^ 130 - 5"

definition poly1305_r :: "bytes \<Rightarrow> nat" where
  "poly1305_r key = le_val (take 16 key) AND 0x0ffffffc0ffffffc0ffffffc0fffffff"

function poly1305_acc :: "nat \<Rightarrow> nat \<Rightarrow> bytes \<Rightarrow> nat" where
  "poly1305_acc r a msg =
     (if msg = [] then a
      else poly1305_acc r ((a + le_val (take 16 msg @ [1])) * r mod P1305) (drop 16 msg))"
  by pat_completeness auto
termination by (relation "measure (length \<circ> snd \<circ> snd)") auto

declare poly1305_acc.simps [simp del]

definition poly1305_mac :: "bytes \<Rightarrow> bytes \<Rightarrow> bytes" where
  "poly1305_mac key msg =
     le_bytes 16 (poly1305_acc (poly1305_r key) 0 msg + le_val (take 16 (drop 16 key)))"

section \<open>Words as numbers\<close>

lemma unat_and26: "unat ((w :: 'a::len word) AND 0x3ffffff) = unat w mod 67108864"
  using unat_and_mask[of w 26] by (simp add: mask_eq_exp_minus_1)

lemma unat_ucast_u64_u32: "unat (ucast (w :: u64) :: u32) = unat w mod 4294967296"
  by (simp add: unsigned_ucast_eq take_bit_eq_mod)

lemma unat_ucast_u32_u64 [simp]: "unat (ucast (w :: u32) :: u64) = unat w"
  by (rule unat_ucast_le) simp

lemma unat_drop26: "unat (drop_bit 26 (w :: 'a::len word)) = unat w div 67108864"
  by (simp add: unat_drop_bit)

lemma unat_add_small: "unat a + unat b < 2 ^ LENGTH('a) \<Longrightarrow> unat (a + b :: 'a::len word) = unat a + unat b"
  by (simp add: unat_word_ariths)

lemma unat_mul32x32_64: "unat (mul32x32_64 a b) = unat a * unat b"
proof -
  have "unat a * unat b \<le> 4294967295 * 4294967295"
    using unat_u32_less[of a] unat_u32_less[of b] by (intro mult_le_mono) simp_all
  then show ?thesis by (simp add: mul32x32_64_def unat_word_ariths)
qed

lemma unat_sum5:
  assumes "unat a + unat b + unat c + unat d + unat e < 18446744073709551616"
  shows "unat (a + b + c + d + e :: u64) = unat a + unat b + unat c + unat d + unat e"
  using assms by (simp add: unat_add_small)

section \<open>The limbs\<close>

definition limbs :: "poly1305_state_st \<Rightarrow> nat" where
  "limbs st = unat (h0 st) + 2 ^ 26 * unat (h1 st) + 2 ^ 52 * unat (h2 st) + 2 ^ 78 * unat (h3 st) + 2 ^ 104 * unat (h4 st)"

definition multiplier :: "poly1305_state_st \<Rightarrow> nat" where
  "multiplier st = unat (r0 st) + 2 ^ 26 * unat (r1 st) + 2 ^ 52 * unat (r2 st) + 2 ^ 78 * unat (r3 st) + 2 ^ 104 * unat (r4 st)"

definition multiplier_ok :: "poly1305_state_st \<Rightarrow> bool" where
  "multiplier_ok st \<longleftrightarrow>
     unat (r0 st) \<le> 0x3ffffff \<and> unat (r1 st) \<le> 0x3ffff03 \<and> unat (r2 st) \<le> 0x3ffc0ff \<and>
     unat (r3 st) \<le> 0x3f03fff \<and> unat (r4 st) \<le> 0x00fffff \<and>
     unat (s1 st) = 5 * unat (r1 st) \<and> unat (s2 st) = 5 * unat (r2 st) \<and>
     unat (s3 st) = 5 * unat (r3 st) \<and> unat (s4 st) = 5 * unat (r4 st)"

text \<open>Between blocks the first limb may exceed 26 bits, by a factor of at most 42; a block added to
  that leaves every product within 64 bits and every carry but the first within 32.\<close>

definition carried :: "poly1305_state_st \<Rightarrow> bool" where
  "carried st \<longleftrightarrow>
     unat (h0 st) \<le> 42 * 2 ^ 26 \<and> unat (h1 st) < 2 ^ 26 \<and> unat (h2 st) < 2 ^ 26 \<and>
     unat (h3 st) < 2 ^ 26 \<and> unat (h4 st) < 2 ^ 26"

definition block_added :: "poly1305_state_st \<Rightarrow> bool" where
  "block_added st \<longleftrightarrow>
     unat (h0 st) \<le> 43 * 2 ^ 26 \<and> unat (h1 st) \<le> 2 ^ 27 \<and> unat (h2 st) \<le> 2 ^ 27 \<and>
     unat (h3 st) \<le> 2 ^ 27 \<and> unat (h4 st) \<le> 2 ^ 26 + 2 ^ 25"

text \<open>The product of the limbs, folded at \<open>2 ^ 130\<close>, and the carry, over the natural numbers.\<close>

lemma limb_product:
  fixes x0 x1 x2 x3 x4 y0 y1 y2 y3 y4 :: nat
  shows "(x0 + 2 ^ 26 * x1 + 2 ^ 52 * x2 + 2 ^ 78 * x3 + 2 ^ 104 * x4) *
      (y0 + 2 ^ 26 * y1 + 2 ^ 52 * y2 + 2 ^ 78 * y3 + 2 ^ 104 * y4) =
    (x0 * y0 + x1 * (5 * y4) + x2 * (5 * y3) + x3 * (5 * y2) + x4 * (5 * y1)) +
    2 ^ 26 * (x0 * y1 + x1 * y0 + x2 * (5 * y4) + x3 * (5 * y3) + x4 * (5 * y2)) +
    2 ^ 52 * (x0 * y2 + x1 * y1 + x2 * y0 + x3 * (5 * y4) + x4 * (5 * y3)) +
    2 ^ 78 * (x0 * y3 + x1 * y2 + x2 * y1 + x3 * y0 + x4 * (5 * y4)) +
    2 ^ 104 * (x0 * y4 + x1 * y3 + x2 * y2 + x3 * y1 + x4 * y0) +
    P1305 * ((x1 * y4 + x2 * y3 + x3 * y2 + x4 * y1) + 2 ^ 26 * (x2 * y4 + x3 * y3 + x4 * y2) +
      2 ^ 52 * (x3 * y4 + x4 * y3) + 2 ^ 78 * (x4 * y4))"
  by (simp add: algebra_simps)

lemma limb_carry:
  fixes t0 t1 t2 t3 t4 :: nat
  defines "c0 \<equiv> t0 div 2 ^ 26"
  defines "c1 \<equiv> (t1 + c0) div 2 ^ 26"
  defines "c2 \<equiv> (t2 + c1) div 2 ^ 26"
  defines "c3 \<equiv> (t3 + c2) div 2 ^ 26"
  defines "c4 \<equiv> (t4 + c3) div 2 ^ 26"
  shows "t0 + 2 ^ 26 * t1 + 2 ^ 52 * t2 + 2 ^ 78 * t3 + 2 ^ 104 * t4 =
    (t0 mod 2 ^ 26 + c4 * 5) + 2 ^ 26 * ((t1 + c0) mod 2 ^ 26) + 2 ^ 52 * ((t2 + c1) mod 2 ^ 26) +
    2 ^ 78 * ((t3 + c2) mod 2 ^ 26) + 2 ^ 104 * ((t4 + c3) mod 2 ^ 26) + P1305 * c4"
proof -
  have "t0 = 2 ^ 26 * c0 + t0 mod 2 ^ 26" "t1 + c0 = 2 ^ 26 * c1 + (t1 + c0) mod 2 ^ 26"
    "t2 + c1 = 2 ^ 26 * c2 + (t2 + c1) mod 2 ^ 26" "t3 + c2 = 2 ^ 26 * c3 + (t3 + c2) mod 2 ^ 26"
    "t4 + c3 = 2 ^ 26 * c4 + (t4 + c3) mod 2 ^ 26"
    unfolding assms by (simp_all only: mult_div_mod_eq)
  then show ?thesis by simp
qed

lemma limb_product_bounds:
  fixes x0 x1 x2 x3 x4 y0 y1 y2 y3 y4 :: nat
  defines "t0 \<equiv> x0 * y0 + x1 * (5 * y4) + x2 * (5 * y3) + x3 * (5 * y2) + x4 * (5 * y1)"
  defines "t1 \<equiv> x0 * y1 + x1 * y0 + x2 * (5 * y4) + x3 * (5 * y3) + x4 * (5 * y2)"
  defines "t2 \<equiv> x0 * y2 + x1 * y1 + x2 * y0 + x3 * (5 * y4) + x4 * (5 * y3)"
  defines "t3 \<equiv> x0 * y3 + x1 * y2 + x2 * y1 + x3 * y0 + x4 * (5 * y4)"
  defines "t4 \<equiv> x0 * y4 + x1 * y3 + x2 * y2 + x3 * y1 + x4 * y0"
  assumes x: "x0 \<le> 43 * 2 ^ 26" "x1 \<le> 2 ^ 27" "x2 \<le> 2 ^ 27" "x3 \<le> 2 ^ 27" "x4 \<le> 2 ^ 26 + 2 ^ 25"
    and y: "y0 \<le> 0x3ffffff" "y1 \<le> 0x3ffff03" "y2 \<le> 0x3ffc0ff" "y3 \<le> 0x3f03fff" "y4 \<le> 0x00fffff"
  shows "t0 \<le> 71 * 2 ^ 52" "t1 \<le> 63 * 2 ^ 52" "t2 \<le> 63 * 2 ^ 52" "t3 \<le> 63 * 2 ^ 52" "t4 \<le> 0x82400000000000"
proof -
  note m = mult_le_mono
  note b = m[OF x(1) y(1)] m[OF x(1) y(2)] m[OF x(1) y(3)] m[OF x(1) y(4)] m[OF x(1) y(5)]
    m[OF x(2) y(1)] m[OF x(2) y(2)] m[OF x(2) y(3)] m[OF x(2) y(4)] m[OF x(2) y(5)]
    m[OF x(3) y(1)] m[OF x(3) y(2)] m[OF x(3) y(3)] m[OF x(3) y(4)] m[OF x(3) y(5)]
    m[OF x(4) y(1)] m[OF x(4) y(2)] m[OF x(4) y(3)] m[OF x(4) y(4)] m[OF x(4) y(5)]
    m[OF x(5) y(1)] m[OF x(5) y(2)] m[OF x(5) y(3)] m[OF x(5) y(4)] m[OF x(5) y(5)]
  show "t0 \<le> 71 * 2 ^ 52" using b(1) b(10) b(14) b(18) b(22) unfolding t0_def by simp
  show "t1 \<le> 63 * 2 ^ 52" using b(2) b(6) b(15) b(19) b(23) unfolding t1_def by simp
  show "t2 \<le> 63 * 2 ^ 52" using b(3) b(7) b(11) b(20) b(24) unfolding t2_def by simp
  show "t3 \<le> 63 * 2 ^ 52" using b(4) b(8) b(12) b(16) b(25) unfolding t3_def by simp
  show "t4 \<le> 0x82400000000000" using b(5) b(9) b(13) b(17) b(21) unfolding t4_def by simp
qed

lemma poly1305_mul_fields [simp]:
  "r0 (poly1305_mul st) = r0 st" "r1 (poly1305_mul st) = r1 st" "r2 (poly1305_mul st) = r2 st"
  "r3 (poly1305_mul st) = r3 st" "r4 (poly1305_mul st) = r4 st" "s1 (poly1305_mul st) = s1 st"
  "s2 (poly1305_mul st) = s2 st" "s3 (poly1305_mul st) = s3 st" "s4 (poly1305_mul st) = s4 st"
  "poly_buf (poly1305_mul st) = poly_buf st" "poly_buf_used (poly1305_mul st) = poly_buf_used st"
  "poly_key (poly1305_mul st) = poly_key st"
  by (simp_all add: poly1305_mul_def Let_def)

text \<open>The columns of the product and the carries, as numbers.\<close>

definition poly_t :: "poly1305_state_st \<Rightarrow> nat \<times> nat \<times> nat \<times> nat \<times> nat" where
  "poly_t st =
     (let x0 = unat (h0 st); x1 = unat (h1 st); x2 = unat (h2 st); x3 = unat (h3 st); x4 = unat (h4 st);
          y0 = unat (r0 st); y1 = unat (r1 st); y2 = unat (r2 st); y3 = unat (r3 st); y4 = unat (r4 st)
      in (x0 * y0 + x1 * (5 * y4) + x2 * (5 * y3) + x3 * (5 * y2) + x4 * (5 * y1),
          x0 * y1 + x1 * y0 + x2 * (5 * y4) + x3 * (5 * y3) + x4 * (5 * y2),
          x0 * y2 + x1 * y1 + x2 * y0 + x3 * (5 * y4) + x4 * (5 * y3),
          x0 * y3 + x1 * y2 + x2 * y1 + x3 * y0 + x4 * (5 * y4),
          x0 * y4 + x1 * y3 + x2 * y2 + x3 * y1 + x4 * y0))"

lemma poly_t_bounds:
  assumes "block_added st" "multiplier_ok st" "poly_t st = (t0, t1, t2, t3, t4)"
  shows "t0 \<le> 71 * 2 ^ 52" "t1 \<le> 63 * 2 ^ 52" "t2 \<le> 63 * 2 ^ 52" "t3 \<le> 63 * 2 ^ 52" "t4 \<le> 0x82400000000000"
proof -
  note x = assms(1)[unfolded block_added_def]
  note y = assms(2)[unfolded multiplier_ok_def]
  note b = limb_product_bounds[of "unat (h0 st)" "unat (h1 st)" "unat (h2 st)" "unat (h3 st)" "unat (h4 st)"
      "unat (r0 st)" "unat (r1 st)" "unat (r2 st)" "unat (r3 st)" "unat (r4 st)"]
  note t = assms(3)[symmetric, unfolded poly_t_def Let_def prod.inject]
  show "t0 \<le> 71 * 2 ^ 52" unfolding t[THEN conjunct1] by (rule b(1)) (use x y in blast)+
  show "t1 \<le> 63 * 2 ^ 52" unfolding t[THEN conjunct2, THEN conjunct1] by (rule b(2)) (use x y in blast)+
  show "t2 \<le> 63 * 2 ^ 52" unfolding t[THEN conjunct2, THEN conjunct2, THEN conjunct1] by (rule b(3)) (use x y in blast)+
  show "t3 \<le> 63 * 2 ^ 52" unfolding t[THEN conjunct2, THEN conjunct2, THEN conjunct2, THEN conjunct1] by (rule b(4)) (use x y in blast)+
  show "t4 \<le> 0x82400000000000" unfolding t[THEN conjunct2, THEN conjunct2, THEN conjunct2, THEN conjunct2] by (rule b(5)) (use x y in blast)+
qed

lemma unat_products:
  assumes "unat (a1 :: u32) * unat (b1 :: u32) + unat a2 * unat (b2 :: u32) + unat a3 * unat (b3 :: u32) +
      unat a4 * unat (b4 :: u32) + unat a5 * unat (b5 :: u32) = t" "t \<le> 71 * 2 ^ 52"
  shows "unat (mul32x32_64 a1 b1 + mul32x32_64 a2 b2 + mul32x32_64 a3 b3 + mul32x32_64 a4 b4 + mul32x32_64 a5 b5) = t"
  using assms by (subst unat_sum5) (simp_all only: unat_mul32x32_64, simp)

text \<open>One carry: the limb that stays, and the sum of the carry and the next column.\<close>

lemma limb_of_column: "unat (t :: u64) = n \<Longrightarrow> unat (ucast t AND 0x3ffffff :: u32) = n mod 2 ^ 26"
  using mod_mod_cancel[of 67108864 4294967296 n] by (simp add: unat_and26 unat_ucast_u64_u32)

lemma carry_of_column: "unat (t :: u64) = n \<Longrightarrow> n < 2 ^ 58 \<Longrightarrow> unat (ucast (drop_bit 26 t) :: u32) = n div 2 ^ 26"
  by (simp add: unat_drop26 unat_ucast_u64_u32)

lemma add_carry:
  "unat (t :: u64) = n \<Longrightarrow> unat (b :: u32) = c \<Longrightarrow> n < 2 ^ 63 \<Longrightarrow> unat (t + ucast b) = n + c"
  using unat_u32_less[of b] by (simp add: unat_add_small)

lemma poly1305_mul_limbs:
  assumes st: "block_added st" "multiplier_ok st" "poly_t st = (t0, t1, t2, t3, t4)"
  defines "c0 \<equiv> t0 div 2 ^ 26"
  defines "c1 \<equiv> (t1 + c0) div 2 ^ 26"
  defines "c2 \<equiv> (t2 + c1) div 2 ^ 26"
  defines "c3 \<equiv> (t3 + c2) div 2 ^ 26"
  defines "c4 \<equiv> (t4 + c3) div 2 ^ 26"
  shows "unat (h0 (poly1305_mul st)) = t0 mod 2 ^ 26 + c4 * 5" "unat (h1 (poly1305_mul st)) = (t1 + c0) mod 2 ^ 26"
    "unat (h2 (poly1305_mul st)) = (t2 + c1) mod 2 ^ 26" "unat (h3 (poly1305_mul st)) = (t3 + c2) mod 2 ^ 26"
    "unat (h4 (poly1305_mul st)) = (t4 + c3) mod 2 ^ 26" "t0 mod 2 ^ 26 + c4 * 5 \<le> 42 * 2 ^ 26"
proof -
  note b = poly_t_bounds[OF st]
  note t = st(3)[unfolded poly_t_def Let_def prod.inject, simplified]
  have c: "c0 \<le> 71 * 2 ^ 26" "c1 < 2 ^ 32" "c2 < 2 ^ 32" "c3 < 2 ^ 32" "t0 mod 2 ^ 26 + c4 * 5 \<le> 42 * 2 ^ 26"
    using b unfolding c0_def c1_def c2_def c3_def c4_def by simp_all
  show "t0 mod 2 ^ 26 + c4 * 5 \<le> 42 * 2 ^ 26" by (rule c(5))
  let ?p = "\<lambda>a1 b1 a2 b2 a3 b3 a4 b4 a5 b5. mul32x32_64 (a1 st) (b1 st) + mul32x32_64 (a2 st) (b2 st) +
    mul32x32_64 (a3 st) (b3 st) + mul32x32_64 (a4 st) (b4 st) + mul32x32_64 (a5 st) (b5 st)"
  define w0 where "w0 = ?p h0 r0 h1 s4 h2 s3 h3 s2 h4 s1"
  define w1 where "w1 = ?p h0 r1 h1 r0 h2 s4 h3 s3 h4 s2"
  define w2 where "w2 = ?p h0 r2 h1 r1 h2 r0 h3 s4 h4 s3"
  define w3 where "w3 = ?p h0 r3 h1 r2 h2 r1 h3 r0 h4 s4"
  define w4 where "w4 = ?p h0 r4 h1 r3 h2 r2 h3 r1 h4 r0"
  have w: "unat w0 = t0" "unat w1 = t1" "unat w2 = t2" "unat w3 = t3" "unat w4 = t4"
    unfolding w0_def w1_def w2_def w3_def w4_def
    by (rule unat_products; use b t st(2) in \<open>simp add: multiplier_ok_def\<close>)+
  define b1 where "b1 = (ucast (drop_bit 26 (w1 + drop_bit 26 w0)) :: u32)"
  define b2 where "b2 = (ucast (drop_bit 26 (w2 + ucast b1)) :: u32)"
  define b3 where "b3 = (ucast (drop_bit 26 (w3 + ucast b2)) :: u32)"
  define b4 where "b4 = (ucast (drop_bit 26 (w4 + ucast b3)) :: u32)"
  have v1: "unat (w1 + drop_bit 26 w0) = t1 + c0" using b c by (simp add: unat_add_small unat_drop26 w c0_def)
  have b1: "unat b1 = c1" unfolding b1_def c1_def by (rule carry_of_column[OF v1]) (use b c in simp)
  have v2: "unat (w2 + ucast b1) = t2 + c1" by (rule add_carry[OF w(3) b1]) (use b in simp)
  have b2: "unat b2 = c2" unfolding b2_def c2_def by (rule carry_of_column[OF v2]) (use b c in simp)
  have v3: "unat (w3 + ucast b2) = t3 + c2" by (rule add_carry[OF w(4) b2]) (use b in simp)
  have b3: "unat b3 = c3" unfolding b3_def c3_def by (rule carry_of_column[OF v3]) (use b c in simp)
  have v4: "unat (w4 + ucast b3) = t4 + c3" by (rule add_carry[OF w(5) b3]) (use b in simp)
  have b4: "unat b4 = c4" unfolding b4_def c4_def by (rule carry_of_column[OF v4]) (use b c in simp)
  have mul: "poly1305_mul st = st\<lparr>h0 := (ucast w0 AND 0x3ffffff) + b4 * 5, h1 := ucast (w1 + drop_bit 26 w0) AND 0x3ffffff,
      h2 := ucast (w2 + ucast b1) AND 0x3ffffff, h3 := ucast (w3 + ucast b2) AND 0x3ffffff, h4 := ucast (w4 + ucast b3) AND 0x3ffffff\<rparr>"
    unfolding poly1305_mul_def Let_def w0_def [symmetric] w1_def [symmetric] w2_def [symmetric] w3_def [symmetric]
      w4_def [symmetric] b1_def [symmetric] b2_def [symmetric] b3_def [symmetric] b4_def [symmetric] by (rule refl)
  have "unat (b4 * 5) = c4 * 5" using c(5) by (simp add: unat_word_ariths b4)
  then show "unat (h0 (poly1305_mul st)) = t0 mod 2 ^ 26 + c4 * 5"
    using c(5) limb_of_column[OF w(1)] by (simp add: mul unat_add_small)
  show "unat (h1 (poly1305_mul st)) = (t1 + c0) mod 2 ^ 26" "unat (h2 (poly1305_mul st)) = (t2 + c1) mod 2 ^ 26"
    "unat (h3 (poly1305_mul st)) = (t3 + c2) mod 2 ^ 26" "unat (h4 (poly1305_mul st)) = (t4 + c3) mod 2 ^ 26"
    using limb_of_column[OF v1] limb_of_column[OF v2] limb_of_column[OF v3] limb_of_column[OF v4] by (simp_all add: mul)
qed

lemma poly1305_mul_value:
  assumes "block_added st" "multiplier_ok st"
  shows "limbs (poly1305_mul st) mod P1305 = limbs st * multiplier st mod P1305"
    and "carried (poly1305_mul st)"
proof -
  obtain t0 t1 t2 t3 t4 where t: "poly_t st = (t0, t1, t2, t3, t4)" by (rule prod_cases5)
  note m = poly1305_mul_limbs[OF assms t]
  show "carried (poly1305_mul st)"
    using m(6) unfolding carried_def m(1-5) by simp
  note e = t[unfolded poly_t_def Let_def prod.inject]
  note q = limb_product[of "unat (h0 st)" "unat (h1 st)" "unat (h2 st)" "unat (h3 st)" "unat (h4 st)"
      "unat (r0 st)" "unat (r1 st)" "unat (r2 st)" "unat (r3 st)" "unat (r4 st)", folded limbs_def multiplier_def,
      unfolded e[THEN conjunct1] e[THEN conjunct2, THEN conjunct1] e[THEN conjunct2, THEN conjunct2, THEN conjunct1]
        e[THEN conjunct2, THEN conjunct2, THEN conjunct2, THEN conjunct1] e[THEN conjunct2, THEN conjunct2, THEN conjunct2, THEN conjunct2]]
  have "limbs st * multiplier st mod P1305 = (t0 + 2 ^ 26 * t1 + 2 ^ 52 * t2 + 2 ^ 78 * t3 + 2 ^ 104 * t4) mod P1305"
    unfolding q by (rule mod_mult_self2)
  also have "\<dots> = limbs (poly1305_mul st) mod P1305"
    by (subst limb_carry) (simp only: mod_mult_self2 limbs_def m(1-5))
  finally show "limbs (poly1305_mul st) mod P1305 = limbs st * multiplier st mod P1305" by (rule sym)
qed

section \<open>Blocks\<close>

lemma U8TO32_value: "unat (U8TO32_LE p) = le_val (take 4 p)"
proof -
  have "le_val (take 4 p) < 256 ^ length (take 4 p)" by (rule le_val_less)
  also have "\<dots> \<le> 256 ^ 4" by (rule power_increasing) simp_all
  finally show ?thesis by (simp add: U8TO32_LE_def unat_of_nat)
qed

lemma le_val_words:
  assumes "16 \<le> length m"
  shows "le_val (take 16 m) = unat (U8TO32_LE m) + 2 ^ 32 * unat (U8TO32_LE (drop 4 m)) +
    2 ^ 64 * unat (U8TO32_LE (drop 8 m)) + 2 ^ 96 * unat (U8TO32_LE (drop 12 m))"
proof -
  have "take 16 m = take 4 m @ take 4 (drop 4 m) @ take 4 (drop 8 m) @ take 4 (drop 12 m)"
    using take_add[of 4 12 m] take_add[of 4 8 "drop 4 m"] take_add[of 4 4 "drop 8 m"] by simp
  then have "le_val (take 16 m) = le_val (take 4 m @ take 4 (drop 4 m) @ take 4 (drop 8 m) @ take 4 (drop 12 m))"
    by (rule arg_cong)
  then show ?thesis
    using assms by (simp add: le_val_append U8TO32_value)
qed

lemma limb_of_words:
  "unat (drop_bit k (push_bit 32 (ucast v) OR ucast w) AND 0x3ffffff :: u64) =
     (unat (v :: u32) * 2 ^ 32 + unat (w :: u32)) div 2 ^ k mod 2 ^ 26"
proof -
  have "unat (push_bit 32 (ucast v) OR ucast w :: u64) = unat v * 2 ^ 32 + unat w"
    using unat_u32_less[of v] unat_u32_less[of w] by (subst unat_shift_or) simp_all
  then show ?thesis by (simp only: unat_and26 unat_drop_bit) simp
qed

lemma add_limb:
  "unat (h :: u32) < 2 ^ 26 \<Longrightarrow> unat (x :: u64) < 2 ^ 26 \<Longrightarrow> unat (ucast (ucast h + x) :: u32) = unat h + unat x"
  by (simp add: unat_ucast_u64_u32 unat_add_small)

text \<open>Four words of 32 bits are five limbs.\<close>

lemma mod_shifted: "c < m \<Longrightarrow> (a * m + c) mod (m * n) = (a mod n) * m + (c :: nat)"
  by (simp add: mod_mult2_eq mult.commute)

lemma words_limbs:
  fixes t0 t1 t2 t3 :: nat
  assumes "t0 < 2 ^ 32" "t1 < 2 ^ 32" "t2 < 2 ^ 32" "t3 < 2 ^ 32"
  shows "t0 mod 2 ^ 26 + 2 ^ 26 * ((t1 * 2 ^ 32 + t0) div 2 ^ 26 mod 2 ^ 26) + 2 ^ 52 * ((t2 * 2 ^ 32 + t1) div 2 ^ 20 mod 2 ^ 26) +
      2 ^ 78 * ((t3 * 2 ^ 32 + t2) div 2 ^ 14 mod 2 ^ 26) + 2 ^ 104 * (t3 div 2 ^ 8) =
    t0 + 2 ^ 32 * t1 + 2 ^ 64 * t2 + 2 ^ 96 * t3"
proof -
  have d: "(t1 * 2 ^ 32 + t0) div 2 ^ 26 = t1 * 2 ^ 6 + t0 div 2 ^ 26" "(t2 * 2 ^ 32 + t1) div 2 ^ 20 = t2 * 2 ^ 12 + t1 div 2 ^ 20"
    "(t3 * 2 ^ 32 + t2) div 2 ^ 14 = t3 * 2 ^ 18 + t2 div 2 ^ 14"
    by simp_all
  have m: "(t1 * 2 ^ 6 + t0 div 2 ^ 26) mod 2 ^ 26 = (t1 mod 2 ^ 20) * 2 ^ 6 + t0 div 2 ^ 26"
    "(t2 * 2 ^ 12 + t1 div 2 ^ 20) mod 2 ^ 26 = (t2 mod 2 ^ 14) * 2 ^ 12 + t1 div 2 ^ 20"
    "(t3 * 2 ^ 18 + t2 div 2 ^ 14) mod 2 ^ 26 = (t3 mod 2 ^ 8) * 2 ^ 18 + t2 div 2 ^ 14"
    using assms mod_shifted[of "t0 div 2 ^ 26" "2 ^ 6" t1 "2 ^ 20"] mod_shifted[of "t1 div 2 ^ 20" "2 ^ 12" t2 "2 ^ 14"]
      mod_shifted[of "t2 div 2 ^ 14" "2 ^ 18" t3 "2 ^ 8"] by simp_all
  obtain a0 b0 where 0: "t0 = 2 ^ 26 * a0 + b0" "t0 div 2 ^ 26 = a0" "t0 mod 2 ^ 26 = b0" using mult_div_mod_eq[of "2 ^ 26" t0] by metis
  obtain a1 b1 where 1: "t1 = 2 ^ 20 * a1 + b1" "t1 div 2 ^ 20 = a1" "t1 mod 2 ^ 20 = b1" using mult_div_mod_eq[of "2 ^ 20" t1] by metis
  obtain a2 b2 where 2: "t2 = 2 ^ 14 * a2 + b2" "t2 div 2 ^ 14 = a2" "t2 mod 2 ^ 14 = b2" using mult_div_mod_eq[of "2 ^ 14" t2] by metis
  obtain a3 b3 where 3: "t3 = 2 ^ 8 * a3 + b3" "t3 div 2 ^ 8 = a3" "t3 mod 2 ^ 8 = b3" using mult_div_mod_eq[of "2 ^ 8" t3] by metis
  show ?thesis unfolding d m unfolding 0(2,3) 1(2,3) 2(2,3) 3(2,3) unfolding 0(1) 1(1) 2(1) 3(1) by simp
qed

definition hibit_ok :: "u32 \<Rightarrow> bool" where
  "hibit_ok hibit \<longleftrightarrow> hibit = 0 \<or> hibit = push_bit 24 1"

lemma top_limb: "hibit_ok hibit \<Longrightarrow> unat (drop_bit 8 t OR hibit :: u32) = unat t div 2 ^ 8 + unat hibit"
proof -
  assume h: "hibit_ok hibit"
  have "unat t div 2 ^ 8 < 2 ^ 24" using unat_u32_less[of t] by simp
  then have "unat (push_bit 24 1 OR drop_bit 8 t :: u32) = unat (1 :: u32) * 2 ^ 24 + unat (drop_bit 8 t)"
    by (intro unat_shift_or) (simp_all add: unat_drop_bit)
  moreover have "unat (push_bit 24 1 :: u32) = 2 ^ 24" by simp
  ultimately show ?thesis using h by (auto simp: hibit_ok_def unat_drop_bit or.commute)
qed

lemma poly1305_add_block_fields [simp]:
  "r0 (poly1305_add_block b m st) = r0 st" "r1 (poly1305_add_block b m st) = r1 st" "r2 (poly1305_add_block b m st) = r2 st"
  "r3 (poly1305_add_block b m st) = r3 st" "r4 (poly1305_add_block b m st) = r4 st" "s1 (poly1305_add_block b m st) = s1 st"
  "s2 (poly1305_add_block b m st) = s2 st" "s3 (poly1305_add_block b m st) = s3 st" "s4 (poly1305_add_block b m st) = s4 st"
  "poly_buf (poly1305_add_block b m st) = poly_buf st" "poly_buf_used (poly1305_add_block b m st) = poly_buf_used st"
  "poly_key (poly1305_add_block b m st) = poly_key st"
  by (simp_all add: poly1305_add_block_def Let_def)

lemma add_limb_of_words:
  "unat (h :: u32) < 2 ^ 26 \<Longrightarrow>
   unat (ucast (ucast h + (drop_bit k (push_bit 32 (ucast v) OR ucast w) AND 0x3ffffff :: u64)) :: u32) =
     unat h + (unat (v :: u32) * 2 ^ 32 + unat (w :: u32)) div 2 ^ k mod 2 ^ 26"
  unfolding limb_of_words[symmetric] by (rule add_limb) (simp_all only: limb_of_words, simp)

lemma poly1305_add_block_limbs:
  "h0 (poly1305_add_block b m st) = h0 st + (U8TO32_LE m AND 0x3ffffff)"
  "h1 (poly1305_add_block b m st) =
     ucast (ucast (h1 st) + (drop_bit 26 (push_bit 32 (ucast (U8TO32_LE (drop 4 m))) OR ucast (U8TO32_LE m)) AND 0x3ffffff :: u64))"
  "h2 (poly1305_add_block b m st) =
     ucast (ucast (h2 st) + (drop_bit 20 (push_bit 32 (ucast (U8TO32_LE (drop 8 m))) OR ucast (U8TO32_LE (drop 4 m))) AND 0x3ffffff :: u64))"
  "h3 (poly1305_add_block b m st) =
     ucast (ucast (h3 st) + (drop_bit 14 (push_bit 32 (ucast (U8TO32_LE (drop 12 m))) OR ucast (U8TO32_LE (drop 8 m))) AND 0x3ffffff :: u64))"
  "h4 (poly1305_add_block b m st) = h4 st + (drop_bit 8 (U8TO32_LE (drop 12 m)) OR b)"
  by (simp_all add: poly1305_add_block_def Let_def)

lemma poly1305_add_block_unat:
  assumes "carried st" "hibit_ok hibit"
  shows "unat (h0 (poly1305_add_block hibit m st)) = unat (h0 st) + unat (U8TO32_LE m) mod 2 ^ 26"
    "unat (h1 (poly1305_add_block hibit m st)) =
       unat (h1 st) + (unat (U8TO32_LE (drop 4 m)) * 2 ^ 32 + unat (U8TO32_LE m)) div 2 ^ 26 mod 2 ^ 26"
    "unat (h2 (poly1305_add_block hibit m st)) =
       unat (h2 st) + (unat (U8TO32_LE (drop 8 m)) * 2 ^ 32 + unat (U8TO32_LE (drop 4 m))) div 2 ^ 20 mod 2 ^ 26"
    "unat (h3 (poly1305_add_block hibit m st)) =
       unat (h3 st) + (unat (U8TO32_LE (drop 12 m)) * 2 ^ 32 + unat (U8TO32_LE (drop 8 m))) div 2 ^ 14 mod 2 ^ 26"
    "unat (h4 (poly1305_add_block hibit m st)) = unat (h4 st) + (unat (U8TO32_LE (drop 12 m)) div 2 ^ 8 + unat hibit)"
proof -
  have c: "unat (h0 st) \<le> 42 * 2 ^ 26" "unat (h1 st) < 2 ^ 26" "unat (h2 st) < 2 ^ 26" "unat (h3 st) < 2 ^ 26" "unat (h4 st) < 2 ^ 26"
    using assms(1) unfolding carried_def by blast+
  have hb: "unat hibit \<le> 2 ^ 24" using assms(2) by (auto simp: hibit_ok_def)
  have d: "unat (drop_bit 8 (U8TO32_LE (drop 12 m)) OR hibit) = unat (U8TO32_LE (drop 12 m)) div 2 ^ 8 + unat hibit"
    by (rule top_limb[OF assms(2)])
  have b: "unat (U8TO32_LE (drop 12 m)) div 2 ^ 8 < 2 ^ 24" using unat_u32_less[of "U8TO32_LE (drop 12 m)"] by simp
  have a: "unat (U8TO32_LE m AND 0x3ffffff) = unat (U8TO32_LE m) mod 2 ^ 26" by (simp add: unat_and26)
  have a': "unat (U8TO32_LE m AND 0x3ffffff) < 2 ^ 26" unfolding a by simp
  have "unat (h4 st) + unat (drop_bit 8 (U8TO32_LE (drop 12 m)) OR hibit) < 2 ^ LENGTH(32)"
    unfolding d using c(5) b hb by simp
  then show "unat (h4 (poly1305_add_block hibit m st)) = unat (h4 st) + (unat (U8TO32_LE (drop 12 m)) div 2 ^ 8 + unat hibit)"
    unfolding poly1305_add_block_limbs d[symmetric] by (rule unat_add_small)
  have "unat (h0 st) + unat (U8TO32_LE m AND 0x3ffffff) < 2 ^ LENGTH(32)" using c(1) a' by simp
  then show "unat (h0 (poly1305_add_block hibit m st)) = unat (h0 st) + unat (U8TO32_LE m) mod 2 ^ 26"
    unfolding poly1305_add_block_limbs a[symmetric] by (rule unat_add_small)
  show "unat (h1 (poly1305_add_block hibit m st)) =
       unat (h1 st) + (unat (U8TO32_LE (drop 4 m)) * 2 ^ 32 + unat (U8TO32_LE m)) div 2 ^ 26 mod 2 ^ 26"
    unfolding poly1305_add_block_limbs by (rule add_limb_of_words[OF c(2)])
  show "unat (h2 (poly1305_add_block hibit m st)) =
       unat (h2 st) + (unat (U8TO32_LE (drop 8 m)) * 2 ^ 32 + unat (U8TO32_LE (drop 4 m))) div 2 ^ 20 mod 2 ^ 26"
    unfolding poly1305_add_block_limbs by (rule add_limb_of_words[OF c(3)])
  show "unat (h3 (poly1305_add_block hibit m st)) =
       unat (h3 st) + (unat (U8TO32_LE (drop 12 m)) * 2 ^ 32 + unat (U8TO32_LE (drop 8 m))) div 2 ^ 14 mod 2 ^ 26"
    unfolding poly1305_add_block_limbs by (rule add_limb_of_words[OF c(4)])
qed

lemma poly1305_add_block_value:
  assumes "carried st" "16 \<le> length m" "hibit_ok hibit"
  shows "limbs (poly1305_add_block hibit m st) = limbs st + le_val (take 16 m) + 2 ^ 104 * unat hibit"
    and "block_added (poly1305_add_block hibit m st)"
proof -
  let ?s = "poly1305_add_block hibit m st"
  note h = poly1305_add_block_unat[OF assms(1,3), of m]
  have l: "unat (w :: u32) < 2 ^ 32" for w using unat_u32_less[of w] by simp
  have e: "h0 + 2 ^ 26 * h1 + 2 ^ 52 * h2 + 2 ^ 78 * h3 + 2 ^ 104 * h4 + (x0 + 2 ^ 26 * x1 + 2 ^ 52 * x2 + 2 ^ 78 * x3 + 2 ^ 104 * x4) + 2 ^ 104 * b =
    (h0 + x0) + 2 ^ 26 * (h1 + x1) + 2 ^ 52 * (h2 + x2) + 2 ^ 78 * (h3 + x3) + 2 ^ 104 * (h4 + (x4 + b))"
    for h0 h1 h2 h3 h4 x0 x1 x2 x3 x4 b :: nat
    by simp
  show "limbs ?s = limbs st + le_val (take 16 m) + 2 ^ 104 * unat hibit"
    unfolding limbs_def h le_val_words[OF assms(2)] words_limbs[OF l l l l, symmetric] by (rule e[symmetric])
  have q: "x mod 2 ^ 26 \<le> 2 ^ 26" for x :: nat by (simp add: less_imp_le)
  have c: "unat (h0 st) \<le> 42 * 2 ^ 26" "unat (h1 st) \<le> 2 ^ 26" "unat (h2 st) \<le> 2 ^ 26" "unat (h3 st) \<le> 2 ^ 26" "unat (h4 st) \<le> 2 ^ 26"
    using assms(1) unfolding carried_def by simp_all
  have hb: "unat hibit \<le> 2 ^ 24" using assms(3) by (auto simp: hibit_ok_def)
  have b: "unat (U8TO32_LE (drop 12 m)) div 2 ^ 8 \<le> 2 ^ 24" using l[of "U8TO32_LE (drop 12 m)"] by simp
  have n: "(42 :: nat) * 2 ^ 26 + 2 ^ 26 = 43 * 2 ^ 26" "(2 :: nat) ^ 26 + 2 ^ 26 = 2 ^ 27" "(2 :: nat) ^ 24 + 2 ^ 24 = 2 ^ 25" by simp_all
  show "block_added ?s"
    unfolding block_added_def h n[symmetric] by (intro conjI add_mono c q b hb)
qed

lemma multiplier_keep:
  "multiplier (poly1305_mul st) = multiplier st" "multiplier_ok (poly1305_mul st) = multiplier_ok st"
  "multiplier (poly1305_add_block b m st) = multiplier st" "multiplier_ok (poly1305_add_block b m st) = multiplier_ok st"
  by (simp_all add: multiplier_def multiplier_ok_def)

lemma poly1305_block_step:
  assumes "carried st" "multiplier_ok st" "16 \<le> length m" "hibit_ok hibit"
  shows "carried (poly1305_mul (poly1305_add_block hibit m st))"
    and "limbs (poly1305_mul (poly1305_add_block hibit m st)) mod P1305 =
      (limbs st mod P1305 + (le_val (take 16 m) + 2 ^ 104 * unat hibit)) * multiplier st mod P1305"
proof -
  note b = poly1305_add_block_value[OF assms(1,3,4)]
  have m: "multiplier_ok (poly1305_add_block hibit m st)" using assms(2) by (simp only: multiplier_keep)
  show "carried (poly1305_mul (poly1305_add_block hibit m st))" by (rule poly1305_mul_value(2)[OF b(2) m])
  show "limbs (poly1305_mul (poly1305_add_block hibit m st)) mod P1305 =
      (limbs st mod P1305 + (le_val (take 16 m) + 2 ^ 104 * unat hibit)) * multiplier st mod P1305"
    unfolding poly1305_mul_value(1)[OF b(2) m] b(1) multiplier_keep add.assoc
    by (metis mod_add_left_eq mod_mult_left_eq)
qed

text \<open>What a call of \<open>poly1305_update\<close> does to the accumulator.\<close>

definition poly_ok :: "poly1305_state_st \<Rightarrow> bool" where
  "poly_ok st \<longleftrightarrow> carried st \<and> multiplier_ok st"

lemma le_val_zeros [simp]: "le_val (replicate n 0) = 0"
  by (induction n) simp_all

lemma poly1305_atmost15_value:
  assumes "poly_ok st" "length inp < 16"
  shows "poly_ok (poly1305_atmost15bytes st inp)" "multiplier (poly1305_atmost15bytes st inp) = multiplier st"
    "limbs (poly1305_atmost15bytes st inp) mod P1305 = poly1305_acc (multiplier st) (limbs st mod P1305) inp"
proof -
  let ?m = "inp @ [1] @ replicate (15 - length inp) 0"
  have c: "carried st" "multiplier_ok st" using assms(1) by (simp_all add: poly_ok_def)
  have m: "16 \<le> length ?m" "take 16 ?m = ?m" using assms(2) by simp_all
  have v: "le_val ?m = le_val (take 16 inp @ [1])" using assms(2) by (simp add: le_val_append)
  have h: "hibit_ok 0" by (simp add: hibit_ok_def)
  note s = poly1305_block_step[OF c m(1) h]
  show "poly_ok (poly1305_atmost15bytes st inp)" "multiplier (poly1305_atmost15bytes st inp) = multiplier st"
    using s(1) c by (simp_all add: poly1305_atmost15bytes_def poly_ok_def multiplier_keep Let_def)
  show "limbs (poly1305_atmost15bytes st inp) mod P1305 = poly1305_acc (multiplier st) (limbs st mod P1305) inp"
  proof (cases "inp = []")
    case False
    have d: "drop 16 inp = []" using assms(2) by simp
    have "limbs (poly1305_atmost15bytes st inp) mod P1305 = (limbs st mod P1305 + le_val (take 16 inp @ [1])) * multiplier st mod P1305"
      using False s(2)[unfolded m(2) v] by (simp add: poly1305_atmost15bytes_def)
    also have "\<dots> = poly1305_acc (multiplier st) (limbs st mod P1305) inp"
      using False by (simp only: poly1305_acc.simps[of _ _ inp] d poly1305_acc.simps[of _ _ "[]"] if_True if_False simp_thms)
    finally show ?thesis .
  qed (simp add: poly1305_atmost15bytes_def poly1305_acc.simps)
qed

lemma poly1305_update_value:
  assumes "poly_ok st"
  shows "poly_ok (poly1305_update st inp) \<and> multiplier (poly1305_update st inp) = multiplier st \<and>
    limbs (poly1305_update st inp) mod P1305 = poly1305_acc (multiplier st) (limbs st mod P1305) inp"
  using assms
proof (induction st inp rule: poly1305_update.induct)
  case (1 st inp)
  show ?case
  proof (cases "length inp < 16")
    case True
    then show ?thesis
      using poly1305_atmost15_value[OF 1(2) True] by (simp only: poly1305_update.simps[of st inp] if_True simp_thms)
  next
    case False
    let ?s = "poly1305_mul (poly1305_add_block (push_bit 24 1) inp st)"
    have c: "carried st" "multiplier_ok st" using 1(2) by (simp_all add: poly_ok_def)
    have l: "16 \<le> length inp" "inp \<noteq> []" using False by auto
    have h: "hibit_ok (push_bit 24 1)" by (simp add: hibit_ok_def)
    note s = poly1305_block_step[OF c l(1) h]
    have ok: "poly_ok ?s" using s(1) c by (simp add: poly_ok_def multiplier_keep)
    have t: "unat (push_bit 24 1 :: u32) = 2 ^ 24" by simp
    have v: "le_val (take 16 inp) + 2 ^ 104 * unat (push_bit 24 1 :: u32) = le_val (take 16 inp @ [1])"
      unfolding t using l by (simp add: le_val_append)
    have "poly1305_acc (multiplier st) (limbs st mod P1305) inp = poly1305_acc (multiplier ?s) (limbs ?s mod P1305) (drop 16 inp)"
      unfolding s(2) v multiplier_keep using l(2) by (simp only: poly1305_acc.simps[of _ _ inp] if_False)
    then show ?thesis
      using 1(1)[OF False ok] False by (simp only: poly1305_update.simps[of st inp] if_False multiplier_keep simp_thms)
  qed
qed

section \<open>The key\<close>

lemma bit_shift_add: "(a :: nat) < 2 ^ k \<Longrightarrow> bit (a + 2 ^ k * b) n \<longleftrightarrow> (if n < k then bit a n else bit b (n - k))"
proof -
  assume a: "a < 2 ^ k"
  have t: "take_bit k (a + 2 ^ k * b) = take_bit k a" by (simp add: take_bit_eq_mod)
  have d: "drop_bit k (a + 2 ^ k * b) = b" using a by (simp add: drop_bit_eq_div)
  have "bit (a + 2 ^ k * b) n \<longleftrightarrow> bit (take_bit k a) n" if "n < k"
    unfolding t[symmetric] using that by (simp only: bit_take_bit_iff simp_thms)
  moreover have "bit (a + 2 ^ k * b) n \<longleftrightarrow> bit b (n - k)" if "\<not> n < k"
    using that arg_cong[OF d, of "\<lambda>x. bit x (n - k)"] by (simp only: bit_drop_bit_eq o_apply not_less le_add_diff_inverse)
  ultimately show ?thesis by (simp add: bit_take_bit_iff)
qed

lemma and_less_nat: "(a :: nat) < 2 ^ k \<Longrightarrow> a AND b < 2 ^ k"
proof -
  assume "a < 2 ^ k"
  then have "take_bit k a = a" by (rule take_bit_nat_eq_self)
  then have "a AND b = take_bit k (a AND b)"
    by (intro bit_eqI) (metis bit_and_iff bit_take_bit_iff)
  then show ?thesis by (metis take_bit_nat_less_exp)
qed

lemma and_shift_add:
  assumes "a < 2 ^ k" "c < 2 ^ k"
  shows "(a + 2 ^ k * b) AND (c + 2 ^ k * d) = (a AND c) + 2 ^ k * (b AND d :: nat)"
  using assms and_less_nat[OF assms(1), of c] by (intro bit_eqI) (auto simp: bit_and_iff bit_shift_add)

lemma key_limb:
  assumes "k + j = 32"
  shows "unat (drop_bit k v OR push_bit j w :: u32) mod 2 ^ 26 = (unat w * 2 ^ 32 + unat v) div 2 ^ k mod 2 ^ 26"
proof -
  have v: "unat v < 2 ^ 32" using unat_u32_less[of v] by simp
  have "unat w * 2 ^ 32 + unat v = unat v + 2 ^ 32 * unat w" by simp
  then have r: "(unat w * 2 ^ 32 + unat v) div 2 ^ k mod 2 ^ 26 = take_bit 26 (drop_bit k (unat v + 2 ^ 32 * unat w))"
    by (simp only: take_bit_eq_mod drop_bit_eq_div)
  have l: "unat (drop_bit k v OR push_bit j w) mod 2 ^ 26 = take_bit 26 (unat (drop_bit k v OR push_bit j w))"
    by (simp only: take_bit_eq_mod)
  have b: "bit (unat v + 4294967296 * unat w) n \<longleftrightarrow> (if n < 32 then bit (unat v) n else bit (unat w) (n - 32))" for n
    using bit_shift_add[OF v, of "unat w" n] by simp
  have "n + k - 32 = n - j" for n using assms by arith
  then show ?thesis
    unfolding r l using assms
    by (intro bit_eqI) (auto simp: bit_take_bit_iff bit_drop_bit_eq b bit_unsigned_iff bit_or_iff bit_push_bit_iff
        possible_bit_def add.commute dest: bit_imp_le_length)
qed

lemma unat_and_le: "unat (w AND c :: 'a::len word) \<le> unat c"
  using word_and_le1[of w c] by (simp add: word_le_nat_alt)

lemma and_small: "c < 2 ^ k \<Longrightarrow> n AND c = n mod 2 ^ k AND (c :: nat)"
proof -
  assume "c < 2 ^ k"
  then have "take_bit k c = c" by (rule take_bit_nat_eq_self)
  then show ?thesis unfolding take_bit_eq_mod[symmetric] by (intro bit_eqI) (metis bit_and_iff bit_take_bit_iff)
qed

lemma poly1305_init_words:
  "r0 (CRYPTO_poly1305_init key st) = U8TO32_LE key AND 0x3ffffff"
  "r1 (CRYPTO_poly1305_init key st) = (drop_bit 26 (U8TO32_LE key) OR push_bit 6 (U8TO32_LE (drop 4 key))) AND 0x3ffff03"
  "r2 (CRYPTO_poly1305_init key st) = (drop_bit 20 (U8TO32_LE (drop 4 key)) OR push_bit 12 (U8TO32_LE (drop 8 key))) AND 0x3ffc0ff"
  "r3 (CRYPTO_poly1305_init key st) = (drop_bit 14 (U8TO32_LE (drop 8 key)) OR push_bit 18 (U8TO32_LE (drop 12 key))) AND 0x3f03fff"
  "r4 (CRYPTO_poly1305_init key st) = drop_bit 8 (U8TO32_LE (drop 12 key)) AND 0x00fffff"
  by (simp_all add: CRYPTO_poly1305_init_def Let_def)

text \<open>The words of \<open>r\<close> as the code computes them.\<close>

lemma poly1305_init_r:
  defines "l \<equiv> \<lambda>k v w. (unat w * 2 ^ 32 + unat v) div 2 ^ k mod 2 ^ 26"
  shows "unat (r0 (CRYPTO_poly1305_init key st)) = unat (U8TO32_LE key) mod 2 ^ 26 AND 0x3ffffff"
    "unat (r1 (CRYPTO_poly1305_init key st)) = l 26 (U8TO32_LE key) (U8TO32_LE (drop 4 key)) AND 0x3ffff03"
    "unat (r2 (CRYPTO_poly1305_init key st)) = l 20 (U8TO32_LE (drop 4 key)) (U8TO32_LE (drop 8 key)) AND 0x3ffc0ff"
    "unat (r3 (CRYPTO_poly1305_init key st)) = l 14 (U8TO32_LE (drop 8 key)) (U8TO32_LE (drop 12 key)) AND 0x3f03fff"
    "unat (r4 (CRYPTO_poly1305_init key st)) = unat (U8TO32_LE (drop 12 key)) div 2 ^ 8 AND 0x00fffff"
proof -
  have c: "unat (x AND c :: u32) = unat x AND unat c" for x c by (rule unsigned_and_eq)
  have n: "unat (0x3ffffff :: u32) = 0x3ffffff" "unat (0x3ffff03 :: u32) = 0x3ffff03" "unat (0x3ffc0ff :: u32) = 0x3ffc0ff"
    "unat (0x3f03fff :: u32) = 0x3f03fff" "unat (0x00fffff :: u32) = 0x00fffff"
    by simp_all
  have s: "(0x3ffffff :: nat) < 2 ^ 26" "(0x3ffff03 :: nat) < 2 ^ 26" "(0x3ffc0ff :: nat) < 2 ^ 26" "(0x3f03fff :: nat) < 2 ^ 26"
    by simp_all
  have k: "(26 :: nat) + 6 = 32" "(20 :: nat) + 12 = 32" "(14 :: nat) + 18 = 32" by simp_all
  show "unat (r0 (CRYPTO_poly1305_init key st)) = unat (U8TO32_LE key) mod 2 ^ 26 AND 0x3ffffff"
    unfolding poly1305_init_words c n by (rule and_small[OF s(1)])
  show "unat (r1 (CRYPTO_poly1305_init key st)) = l 26 (U8TO32_LE key) (U8TO32_LE (drop 4 key)) AND 0x3ffff03"
    unfolding poly1305_init_words c n l_def key_limb[OF k(1), symmetric] by (rule and_small[OF s(2)])
  show "unat (r2 (CRYPTO_poly1305_init key st)) = l 20 (U8TO32_LE (drop 4 key)) (U8TO32_LE (drop 8 key)) AND 0x3ffc0ff"
    unfolding poly1305_init_words c n l_def key_limb[OF k(2), symmetric] by (rule and_small[OF s(3)])
  show "unat (r3 (CRYPTO_poly1305_init key st)) = l 14 (U8TO32_LE (drop 8 key)) (U8TO32_LE (drop 12 key)) AND 0x3f03fff"
    unfolding poly1305_init_words c n l_def key_limb[OF k(3), symmetric] by (rule and_small[OF s(4)])
  show "unat (r4 (CRYPTO_poly1305_init key st)) = unat (U8TO32_LE (drop 12 key)) div 2 ^ 8 AND 0x00fffff"
    unfolding poly1305_init_words c n unat_drop_bit by (rule refl)
qed

lemma poly1305_init_multiplier_ok: "multiplier_ok (CRYPTO_poly1305_init key st)"
proof -
  have b: "unat (x AND 0x3ffffff :: u32) \<le> 0x3ffffff" "unat (x AND 0x3ffff03 :: u32) \<le> 0x3ffff03" "unat (x AND 0x3ffc0ff :: u32) \<le> 0x3ffc0ff"
    "unat (x AND 0x3f03fff :: u32) \<le> 0x3f03fff" "unat (x AND 0x00fffff :: u32) \<le> 0x00fffff" for x
    using unat_and_le[of x "0x3ffffff"] unat_and_le[of x "0x3ffff03"] unat_and_le[of x "0x3ffc0ff"] unat_and_le[of x "0x3f03fff"] unat_and_le[of x "0x00fffff"]
    by simp_all
  have m: "unat (w * 5 :: u32) = 5 * unat w" if "unat w \<le> 0x3ffffff" for w
    using that by (simp add: unat_word_ariths)
  let ?s = "CRYPTO_poly1305_init key st"
  have r: "unat (r0 ?s) \<le> 0x3ffffff" "unat (r1 ?s) \<le> 0x3ffff03" "unat (r2 ?s) \<le> 0x3ffc0ff" "unat (r3 ?s) \<le> 0x3f03fff" "unat (r4 ?s) \<le> 0x00fffff"
    unfolding poly1305_init_words by (rule b)+
  have s: "s1 ?s = r1 ?s * 5" "s2 ?s = r2 ?s * 5" "s3 ?s = r3 ?s * 5" "s4 ?s = r4 ?s * 5"
    by (simp_all add: CRYPTO_poly1305_init_def Let_def)
  show ?thesis
    unfolding multiplier_ok_def s using r by (simp add: m)
qed

lemma poly1305_init_multiplier:
  assumes "16 \<le> length key"
  shows "multiplier (CRYPTO_poly1305_init key st) = poly1305_r key"
proof -
  define t where "t = (\<lambda>k. unat (U8TO32_LE (drop k key)))"
  define a0 a1 a2 a3 a4 where a: "a0 = t 0 mod 2 ^ 26" "a1 = (t 4 * 2 ^ 32 + t 0) div 2 ^ 26 mod 2 ^ 26"
    "a2 = (t 8 * 2 ^ 32 + t 4) div 2 ^ 20 mod 2 ^ 26" "a3 = (t 12 * 2 ^ 32 + t 8) div 2 ^ 14 mod 2 ^ 26" "a4 = t 12 div 2 ^ 8"
  have l: "t k < 2 ^ 32" for k using unat_u32_less[of "U8TO32_LE (drop k key)"] by (simp add: t_def)
  have b: "a0 < 2 ^ 26" "a1 < 2 ^ 26" "a2 < 2 ^ 26" "a3 < 2 ^ 26" by (simp_all add: a)
  have k: "le_val (take 16 key) = a0 + 2 ^ 26 * (a1 + 2 ^ 26 * (a2 + 2 ^ 26 * (a3 + 2 ^ 26 * a4)))"
    unfolding le_val_words[OF assms] using words_limbs[OF l[of 0] l[of 4] l[of 8] l[of 12], folded a]
    by (simp add: t_def)
  have m: "(0x0ffffffc0ffffffc0ffffffc0fffffff :: nat) =
      0x3ffffff + 2 ^ 26 * (0x3ffff03 + 2 ^ 26 * (0x3ffc0ff + 2 ^ 26 * (0x3f03fff + 2 ^ 26 * 0x00fffff)))"
    by simp
  have "poly1305_r key = (a0 AND 0x3ffffff) + 2 ^ 26 * ((a1 AND 0x3ffff03) + 2 ^ 26 * ((a2 AND 0x3ffc0ff) +
      2 ^ 26 * ((a3 AND 0x3f03fff) + 2 ^ 26 * (a4 AND 0x00fffff))))"
    unfolding poly1305_r_def k m by (subst and_shift_add; (rule b | simp; fail)?)+
  also have "\<dots> = multiplier (CRYPTO_poly1305_init key st)"
    unfolding multiplier_def poly1305_init_r a t_def by simp
  finally show ?thesis by (rule sym)
qed

section \<open>The tag\<close>

lemma le_bytes_mod: "n \<le> m \<Longrightarrow> le_bytes n (v mod 256 ^ m) = le_bytes n v"
  by (simp add: le_bytes_eq_rev be_bytes_mod)

lemma le_bytes_add: "le_bytes (m + n) v = le_bytes m v @ le_bytes n (v div 256 ^ m)"
  by (induction m arbitrary: v) (simp_all add: div_mult2_eq)

lemma le_bytes_split: "le_bytes (4 + n) (x + 2 ^ 32 * y) = le_bytes 4 x @ le_bytes n (y + x div 2 ^ 32)"
proof -
  have "(x + 2 ^ 32 * y) mod 256 ^ 4 = x mod 256 ^ 4" by simp
  then have "le_bytes 4 (x + 2 ^ 32 * y) = le_bytes 4 x" by (metis le_bytes_mod order_refl)
  moreover have "(x + 2 ^ 32 * y) div 256 ^ 4 = y + x div 2 ^ 32" by simp
  ultimately show ?thesis by (simp only: le_bytes_add)
qed

lemma le_bytes_16:
  "le_bytes 16 (x0 + 2 ^ 32 * (x1 + 2 ^ 32 * (x2 + 2 ^ 32 * x3))) =
     (let y1 = x1 + x0 div 2 ^ 32; y2 = x2 + y1 div 2 ^ 32; y3 = x3 + y2 div 2 ^ 32
      in le_bytes 4 x0 @ le_bytes 4 y1 @ le_bytes 4 y2 @ le_bytes 4 y3)"
proof -
  have "le_bytes (4 + (4 + (4 + 4))) (x0 + 2 ^ 32 * (x1 + 2 ^ 32 * (x2 + 2 ^ 32 * x3))) =
      le_bytes 4 x0 @ le_bytes (4 + (4 + 4)) ((x1 + x0 div 2 ^ 32) + 2 ^ 32 * (x2 + 2 ^ 32 * x3))"
    unfolding le_bytes_split[of "4 + (4 + 4)"] by (simp only: add.assoc add.commute add.left_commute)
  also have "le_bytes (4 + (4 + 4)) ((x1 + x0 div 2 ^ 32) + 2 ^ 32 * (x2 + 2 ^ 32 * x3)) =
      le_bytes 4 (x1 + x0 div 2 ^ 32) @ le_bytes (4 + 4) ((x2 + (x1 + x0 div 2 ^ 32) div 2 ^ 32) + 2 ^ 32 * x3)"
    unfolding le_bytes_split[of "4 + 4"] by (simp only: add.assoc add.commute add.left_commute)
  also have "le_bytes (4 + 4) ((x2 + (x1 + x0 div 2 ^ 32) div 2 ^ 32) + 2 ^ 32 * x3) =
      le_bytes 4 (x2 + (x1 + x0 div 2 ^ 32) div 2 ^ 32) @ le_bytes 4 (x3 + (x2 + (x1 + x0 div 2 ^ 32) div 2 ^ 32) div 2 ^ 32)"
    by (rule le_bytes_split)
  finally show ?thesis by (simp only: Let_def) simp
qed

lemma U32TO8_value: "U32TO8_LE (ucast (f :: u64)) = le_bytes 4 (unat f)"
  using le_bytes_mod[of 4 4 "unat f"] by (simp add: U32TO8_LE_def unat_ucast_u64_u32)

definition tag_words :: "poly1305_state_st \<Rightarrow> nat" where
  "tag_words st =
     unat (h0 st OR push_bit 26 (h1 st)) + 2 ^ 32 * (unat (drop_bit 6 (h1 st) OR push_bit 20 (h2 st)) +
     2 ^ 32 * (unat (drop_bit 12 (h2 st) OR push_bit 14 (h3 st)) + 2 ^ 32 * unat (drop_bit 18 (h3 st) OR push_bit 8 (h4 st))))"

lemma unat_word_sum:
  "unat (ucast (a :: u32) + ucast (b :: u32) :: u64) = unat a + unat b"
  using unat_u32_less[of a] unat_u32_less[of b] by (simp add: unat_add_small)

lemma unat_word_sum_carry:
  "unat (f :: u64) < 2 ^ 40 \<Longrightarrow>
   unat (ucast (a :: u32) + ucast (b :: u32) + drop_bit 32 f :: u64) = unat a + unat b + unat f div 2 ^ 32 \<and>
   unat (ucast a + ucast b + drop_bit 32 f :: u64) < 2 ^ 40"
proof -
  assume f: "unat f < 2 ^ 40"
  then have d: "unat (drop_bit 32 f) < 2 ^ 8" by (simp add: unat_drop_bit)
  have "unat (ucast a + ucast b + drop_bit 32 f :: u64) = unat (ucast a + ucast b :: u64) + unat (drop_bit 32 f)"
    using d unat_u32_less[of a] unat_u32_less[of b] by (intro unat_add_small) (simp add: unat_word_sum)
  then have e: "unat (ucast a + ucast b + drop_bit 32 f :: u64) = unat a + unat b + unat f div 2 ^ 32"
    by (simp only: unat_word_sum unat_drop_bit)
  then show ?thesis using d unat_u32_less[of a] unat_u32_less[of b] by (simp add: unat_drop_bit)
qed

lemma poly1305_tag_value:
  assumes "length (poly_key st) = 16"
  shows "poly1305_tag st = le_bytes 16 (tag_words st + le_val (poly_key st))"
proof -
  define w0 where "w0 = (h0 st OR push_bit 26 (h1 st))"
  define w1 where "w1 = (drop_bit 6 (h1 st) OR push_bit 20 (h2 st))"
  define w2 where "w2 = (drop_bit 12 (h2 st) OR push_bit 14 (h3 st))"
  define w3 where "w3 = (drop_bit 18 (h3 st) OR push_bit 8 (h4 st))"
  let ?p = "\<lambda>k. U8TO32_LE (drop k (poly_key st))"
  define f0 where "f0 = (ucast w0 + ucast (?p 0) :: u64)"
  define f1 where "f1 = (ucast w1 + ucast (?p 4) + drop_bit 32 f0 :: u64)"
  define f2 where "f2 = (ucast w2 + ucast (?p 8) + drop_bit 32 f1 :: u64)"
  define f3 where "f3 = (ucast w3 + ucast (?p 12) + drop_bit 32 f2 :: u64)"
  have f0: "unat f0 = unat w0 + unat (?p 0)" unfolding f0_def by (rule unat_word_sum)
  have b0: "unat f0 < 2 ^ 40" using f0 unat_u32_less[of w0] unat_u32_less[of "?p 0"] by simp
  note f1 = unat_word_sum_carry[OF b0, of w1 "?p 4", folded f1_def]
  note f2 = unat_word_sum_carry[OF f1[THEN conjunct2], of w2 "?p 8", folded f2_def]
  note f3 = unat_word_sum_carry[OF f2[THEN conjunct2], of w3 "?p 12", folded f3_def]
  have "poly1305_tag st = U32TO8_LE (ucast f0) @ U32TO8_LE (ucast f1) @ U32TO8_LE (ucast f2) @ U32TO8_LE (ucast f3)"
    unfolding poly1305_tag_def Let_def f0_def f1_def f2_def f3_def w0_def w1_def w2_def w3_def by simp
  also have "\<dots> = le_bytes 4 (unat f0) @ le_bytes 4 (unat f1) @ le_bytes 4 (unat f2) @ le_bytes 4 (unat f3)"
    by (simp only: U32TO8_value)
  also have "\<dots> = le_bytes 16 ((unat w0 + unat (?p 0)) + 2 ^ 32 * ((unat w1 + unat (?p 4)) +
      2 ^ 32 * ((unat w2 + unat (?p 8)) + 2 ^ 32 * (unat w3 + unat (?p 12)))))"
    unfolding le_bytes_16 Let_def f0[symmetric] f1[THEN conjunct1, symmetric] f2[THEN conjunct1, symmetric] f3[THEN conjunct1, symmetric]
    by (rule refl)
  also have "(unat w0 + unat (?p 0)) + 2 ^ 32 * ((unat w1 + unat (?p 4)) + 2 ^ 32 * ((unat w2 + unat (?p 8)) + 2 ^ 32 * (unat w3 + unat (?p 12)))) =
      tag_words st + le_val (take 16 (poly_key st))"
    using le_val_words[of "poly_key st"] assms
    unfolding tag_words_def w0_def[symmetric] w1_def[symmetric] w2_def[symmetric] w3_def[symmetric] by simp
  finally show ?thesis using assms by simp
qed

lemma unat_low_or_high:
  assumes "unat (v :: u32) < 2 ^ k" "k + j = 32"
  shows "unat (v OR push_bit k w) = unat v + 2 ^ k * (unat w mod 2 ^ j)"
  unfolding take_bit_eq_mod[symmetric] using assms
  by (intro bit_eqI) (auto simp: bit_shift_add bit_unsigned_iff bit_or_iff bit_push_bit_iff bit_take_bit_iff possible_bit_def
      dest: bit_unat_bound bit_imp_le_length)

definition limbs_small :: "poly1305_state_st \<Rightarrow> bool" where
  "limbs_small st \<longleftrightarrow>
     unat (h0 st) < 2 ^ 26 \<and> unat (h1 st) < 2 ^ 26 \<and> unat (h2 st) < 2 ^ 26 \<and> unat (h3 st) < 2 ^ 26 \<and> unat (h4 st) < 2 ^ 26"

lemma tag_words_small:
  assumes "limbs_small st"
  shows "limbs st = tag_words st + 2 ^ 128 * (unat (h4 st) div 2 ^ 24)"
proof -
  have b: "unat (h0 st) < 2 ^ 26" "unat (h1 st) < 2 ^ 26" "unat (h2 st) < 2 ^ 26" "unat (h3 st) < 2 ^ 26"
    using assms unfolding limbs_small_def by blast+
  have d: "unat (drop_bit 6 (h1 st)) < 2 ^ 20" "unat (drop_bit 12 (h2 st)) < 2 ^ 14" "unat (drop_bit 18 (h3 st)) < 2 ^ 8"
    using b by (simp_all add: unat_drop_bit)
  have k: "(26 :: nat) + 6 = 32" "(20 :: nat) + 12 = 32" "(14 :: nat) + 18 = 32" "(8 :: nat) + 24 = 32" by simp_all
  obtain a1 b1 where 1: "unat (h1 st) = 2 ^ 6 * a1 + b1" "unat (h1 st) div 2 ^ 6 = a1" "unat (h1 st) mod 2 ^ 6 = b1"
    using mult_div_mod_eq[of "2 ^ 6" "unat (h1 st)"] by metis
  obtain a2 b2 where 2: "unat (h2 st) = 2 ^ 12 * a2 + b2" "unat (h2 st) div 2 ^ 12 = a2" "unat (h2 st) mod 2 ^ 12 = b2"
    using mult_div_mod_eq[of "2 ^ 12" "unat (h2 st)"] by metis
  obtain a3 b3 where 3: "unat (h3 st) = 2 ^ 18 * a3 + b3" "unat (h3 st) div 2 ^ 18 = a3" "unat (h3 st) mod 2 ^ 18 = b3"
    using mult_div_mod_eq[of "2 ^ 18" "unat (h3 st)"] by metis
  obtain a4 b4 where 4: "unat (h4 st) = 2 ^ 24 * a4 + b4" "unat (h4 st) div 2 ^ 24 = a4" "unat (h4 st) mod 2 ^ 24 = b4"
    using mult_div_mod_eq[of "2 ^ 24" "unat (h4 st)"] by metis
  have t: "tag_words st = unat (h0 st) + 2 ^ 26 * b1 + 2 ^ 32 * (a1 + 2 ^ 20 * b2 + 2 ^ 32 * (a2 + 2 ^ 14 * b3 + 2 ^ 32 * (a3 + 2 ^ 8 * b4)))"
    unfolding tag_words_def unat_low_or_high[OF b(1) k(1)] unat_low_or_high[OF d(1) k(2)] unat_low_or_high[OF d(2) k(3)]
      unat_low_or_high[OF d(3) k(4)] unat_drop_bit 1(2,3) 2(2,3) 3(2,3) 4(3) by (rule refl)
  show ?thesis unfolding t limbs_def 4(2) unfolding 1(1) 2(1) 3(1) 4(1) by simp
qed

section \<open>The last carry\<close>

lemma unat_carry_step:
  assumes "unat (h :: u32) < 2 ^ 26" "unat (b :: u32) < 2 ^ 6"
  shows "unat (h + b) = unat h + unat b" "unat (drop_bit 26 (h + b)) = (unat h + unat b) div 2 ^ 26"
    "unat ((h + b) AND 0x3ffffff) = (unat h + unat b) mod 2 ^ 26"
proof -
  show a: "unat (h + b) = unat h + unat b" using assms by (intro unat_add_small) simp
  show "unat (drop_bit 26 (h + b)) = (unat h + unat b) div 2 ^ 26" by (simp only: unat_drop_bit a)
  show "unat ((h + b) AND 0x3ffffff) = (unat h + unat b) mod 2 ^ 26" by (simp add: unat_and26 a)
qed

lemma small_carry: "a < 2 ^ 26 \<Longrightarrow> b < 2 ^ 6 \<Longrightarrow> (a + b) div 2 ^ 26 \<le> (1 :: nat)"
  by simp

lemma poly1305_carry_limbs:
  fixes st :: poly1305_state_st
  assumes "carried st"
  defines "x0 \<equiv> unat (h0 st)" and "x1 \<equiv> unat (h1 st)" and "x2 \<equiv> unat (h2 st)" and "x3 \<equiv> unat (h3 st)" and "x4 \<equiv> unat (h4 st)"
  defines "c0 \<equiv> x0 div 2 ^ 26"
  defines "c1 \<equiv> (x1 + c0) div 2 ^ 26"
  defines "c2 \<equiv> (x2 + c1) div 2 ^ 26"
  defines "c3 \<equiv> (x3 + c2) div 2 ^ 26"
  defines "c4 \<equiv> (x4 + c3) div 2 ^ 26"
  shows "unat (h0 (poly1305_carry st)) = x0 mod 2 ^ 26 + c4 * 5" "unat (h1 (poly1305_carry st)) = (x1 + c0) mod 2 ^ 26"
    "unat (h2 (poly1305_carry st)) = (x2 + c1) mod 2 ^ 26" "unat (h3 (poly1305_carry st)) = (x3 + c2) mod 2 ^ 26"
    "unat (h4 (poly1305_carry st)) = (x4 + c3) mod 2 ^ 26" "c0 \<le> 42" "c1 \<le> 1" "c2 \<le> 1" "c3 \<le> 1" "c4 \<le> 1"
proof -
  have x: "x0 \<le> 42 * 2 ^ 26" "x1 < 2 ^ 26" "x2 < 2 ^ 26" "x3 < 2 ^ 26" "x4 < 2 ^ 26"
    using assms(1) unfolding carried_def x0_def x1_def x2_def x3_def x4_def by blast+
  show c: "c0 \<le> 42" using x(1) by (simp add: c0_def)
  show c': "c1 \<le> 1" unfolding c1_def by (rule small_carry[OF x(2)]) (use c in simp)
  show c'': "c2 \<le> 1" unfolding c2_def by (rule small_carry[OF x(3)]) (use c' in simp)
  show c3: "c3 \<le> 1" unfolding c3_def by (rule small_carry[OF x(4)]) (use c'' in simp)
  show c4: "c4 \<le> 1" unfolding c4_def by (rule small_carry[OF x(5)]) (use c3 in simp)
  define b0 where "b0 = drop_bit 26 (h0 st)"
  define b1 where "b1 = drop_bit 26 (h1 st + b0)"
  define b2 where "b2 = drop_bit 26 (h2 st + b1)"
  define b3 where "b3 = drop_bit 26 (h3 st + b2)"
  define b4 where "b4 = drop_bit 26 (h4 st + b3)"
  have b0: "unat b0 = c0" by (simp add: b0_def c0_def unat_drop_bit x0_def)
  then have "unat b0 < 2 ^ 6" using c by simp
  note s1 = unat_carry_step[OF x(2)[unfolded x1_def] this, folded b1_def x1_def, unfolded b0, folded c1_def]
  have "unat b1 < 2 ^ 6" using s1(2) c' by simp
  note s2 = unat_carry_step[OF x(3)[unfolded x2_def] this, folded b2_def x2_def, unfolded s1(2), folded c2_def]
  have "unat b2 < 2 ^ 6" using s2(2) c'' by simp
  note s3 = unat_carry_step[OF x(4)[unfolded x3_def] this, folded b3_def x3_def, unfolded s2(2), folded c3_def]
  have "unat b3 < 2 ^ 6" using s3(2) c3 by simp
  note s4 = unat_carry_step[OF x(5)[unfolded x4_def] this, folded b4_def x4_def, unfolded s3(2), folded c4_def]
  have "unat (b4 * 5) = c4 * 5" using s4(2) c4 by (simp add: unat_word_ariths)
  moreover have "unat (h0 st AND 0x3ffffff) = x0 mod 2 ^ 26" by (simp add: unat_and26 x0_def)
  moreover obtain m0 where "x0 mod 2 ^ 26 = m0" "m0 < 2 ^ 26" by simp
  ultimately have h: "unat ((h0 st AND 0x3ffffff) + b4 * 5) = x0 mod 2 ^ 26 + c4 * 5"
    using c4 by (simp add: unat_add_small)
  have st: "poly1305_carry st = st\<lparr>h0 := (h0 st AND 0x3ffffff) + b4 * 5, h1 := (h1 st + b0) AND 0x3ffffff,
      h2 := (h2 st + b1) AND 0x3ffffff, h3 := (h3 st + b2) AND 0x3ffffff, h4 := (h4 st + b3) AND 0x3ffffff\<rparr>"
    unfolding poly1305_carry_def Let_def b0_def b1_def b2_def b3_def b4_def by (rule refl)
  show "unat (h0 (poly1305_carry st)) = x0 mod 2 ^ 26 + c4 * 5" "unat (h1 (poly1305_carry st)) = (x1 + c0) mod 2 ^ 26"
    "unat (h2 (poly1305_carry st)) = (x2 + c1) mod 2 ^ 26" "unat (h3 (poly1305_carry st)) = (x3 + c2) mod 2 ^ 26"
    "unat (h4 (poly1305_carry st)) = (x4 + c3) mod 2 ^ 26"
    unfolding st using h s1(3) s2(3) s3(3) s4(3) by simp_all
qed

text \<open>After the carry every limb has 26 bits, except that the number may have wrapped at \<open>2 ^ 130\<close>; then it
  is small, and the last addition to its first limb is not carried on.\<close>

definition wrapped :: "poly1305_state_st \<Rightarrow> bool" where
  "wrapped st \<longleftrightarrow>
     unat (h0 st) < 2 ^ 26 + 5 \<and> unat (h1 st) \<le> 41 \<and> unat (h2 st) = 0 \<and> unat (h3 st) = 0 \<and> unat (h4 st) = 0"

lemma carried_over:
  "a < m \<Longrightarrow> c \<le> 1 \<Longrightarrow> (a + c) div m = 1 \<Longrightarrow> (a + c) mod m = 0 \<and> c = (1 :: nat)"
proof -
  assume a: "a < m" "c \<le> 1" "(a + c) div m = 1"
  then have "m \<le> a + c" by (metis div_less not_less zero_neq_one)
  then have "a + c = m" "c = 1" using a by linarith+
  then show ?thesis by simp
qed

lemma poly1305_carry_value:
  assumes "carried st"
  shows "limbs (poly1305_carry st) mod P1305 = limbs st mod P1305"
    and "limbs_small (poly1305_carry st) \<or> wrapped (poly1305_carry st)"
proof -
  note c = poly1305_carry_limbs[OF assms]
  let ?c0 = "unat (h0 st) div 2 ^ 26"
  let ?c1 = "(unat (h1 st) + ?c0) div 2 ^ 26"
  let ?c2 = "(unat (h2 st) + ?c1) div 2 ^ 26"
  let ?c3 = "(unat (h3 st) + ?c2) div 2 ^ 26"
  let ?c4 = "(unat (h4 st) + ?c3) div 2 ^ 26"
  have "limbs st = limbs (poly1305_carry st) + P1305 * ?c4"
    unfolding limbs_def c(1-5) by (rule limb_carry)
  then show "limbs (poly1305_carry st) mod P1305 = limbs st mod P1305" by (simp only: mod_mult_self2)
  have m: "x mod 2 ^ 26 < 2 ^ 26" for x :: nat by simp
  have x: "unat (h1 st) < 2 ^ 26" "unat (h2 st) < 2 ^ 26" "unat (h3 st) < 2 ^ 26" "unat (h4 st) < 2 ^ 26"
    using assms unfolding carried_def by blast+
  show "limbs_small (poly1305_carry st) \<or> wrapped (poly1305_carry st)"
  proof (cases "?c4 = 0")
    case True
    then show ?thesis unfolding limbs_small_def c(1-5) True mult_0 add_0_right using m by blast
  next
    case False
    then have 4: "?c4 = 1" using c(10) by linarith
    note k4 = carried_over[OF x(4) c(9) this]
    note k3 = carried_over[OF x(3) c(8) k4[THEN conjunct2]]
    note k2 = carried_over[OF x(2) c(7) k3[THEN conjunct2]]
    have "2 ^ 26 \<le> unat (h1 st) + ?c0" using k2[THEN conjunct2] by (metis div_less not_less zero_neq_one)
    then have "(unat (h1 st) + ?c0) mod 2 ^ 26 = unat (h1 st) + ?c0 - 2 ^ 26"
      using x(1) c(6) by (subst le_mod_geq) simp_all
    then have "(unat (h1 st) + ?c0) mod 2 ^ 26 \<le> 41" using x(1) c(6) by simp
    moreover have "unat (h0 st) mod 2 ^ 26 + 1 * 5 < 2 ^ 26 + 5" using m[of "unat (h0 st)"] by simp
    ultimately have "wrapped (poly1305_carry st)"
      unfolding wrapped_def c(1-5) 4 using k4 k3 k2 by blast
    then show ?thesis ..
  qed
qed

section \<open>The last subtraction\<close>

lemma select_word: "(a AND NOT 0) OR (g AND 0) = (a :: u32)" "(a AND NOT (- 1)) OR (g AND - 1) = (g :: u32)"
  by simp_all

lemma top_bit_mask:
  assumes "unat (g :: u32) \<le> 2 ^ 26"
  shows "drop_bit 31 (g - push_bit 26 1) - 1 = (if unat g < 2 ^ 26 then 0 else - 1 :: u32)"
proof (cases "unat g < 2 ^ 26")
  case True
  have "unat (g - push_bit 26 1) = unat g + 2 ^ 32 - 2 ^ 26"
    using True by (simp add: unat_sub_if' word_le_nat_alt unat_word_ariths)
  then have "unat (drop_bit 31 (g - push_bit 26 1)) = 1" using True by (simp add: unat_drop_bit div_nat_eqI)
  then have "drop_bit 31 (g - push_bit 26 1) = 1" by (metis word_unat_eq_iff unsigned_1)
  then show ?thesis using True by simp
next
  case False
  then have "unat g = unat (push_bit 26 1 :: u32)" using assms by simp
  then have "g = push_bit 26 1" by (simp only: word_unat_eq_iff)
  then show ?thesis by simp
qed

lemma add5_carry:
  fixes x0 x1 x2 x3 x4 :: nat
  defines "c0 \<equiv> (x0 + 5) div 2 ^ 26"
  defines "c1 \<equiv> (x1 + c0) div 2 ^ 26"
  defines "c2 \<equiv> (x2 + c1) div 2 ^ 26"
  defines "c3 \<equiv> (x3 + c2) div 2 ^ 26"
  shows "x0 + 2 ^ 26 * x1 + 2 ^ 52 * x2 + 2 ^ 78 * x3 + 2 ^ 104 * x4 + 5 =
    ((x0 + 5) mod 2 ^ 26 + 2 ^ 26 * ((x1 + c0) mod 2 ^ 26) + 2 ^ 52 * ((x2 + c1) mod 2 ^ 26) + 2 ^ 78 * ((x3 + c2) mod 2 ^ 26)) +
    2 ^ 104 * (x4 + c3)"
proof -
  have "x0 + 5 = 2 ^ 26 * c0 + (x0 + 5) mod 2 ^ 26" "x1 + c0 = 2 ^ 26 * c1 + (x1 + c0) mod 2 ^ 26"
    "x2 + c1 = 2 ^ 26 * c2 + (x2 + c1) mod 2 ^ 26" "x3 + c2 = 2 ^ 26 * c3 + (x3 + c2) mod 2 ^ 26"
    unfolding assms by (simp_all only: mult_div_mod_eq)
  then show ?thesis by simp
qed

lemma low_limbs_less:
  "y0 < 2 ^ 26 \<Longrightarrow> y1 < 2 ^ 26 \<Longrightarrow> y2 < 2 ^ 26 \<Longrightarrow> y3 < 2 ^ 26 \<Longrightarrow>
   y0 + 2 ^ 26 * y1 + 2 ^ 52 * y2 + 2 ^ 78 * y3 < (2 :: nat) ^ 104"
  by simp

text \<open>The limbs of the number plus 5, and the mask that selects between the two.\<close>

lemma poly1305_reduce_words:
  assumes "unat (h0 st) < 2 ^ 26 + 5" "unat (h1 st) < 2 ^ 26" "unat (h2 st) < 2 ^ 26" "unat (h3 st) < 2 ^ 26" "unat (h4 st) < 2 ^ 26"
  obtains g0 g1 g2 g3 and g4 :: u32 where
    "poly1305_reduce st = (if unat g4 < 2 ^ 26 then st else st\<lparr>h0 := g0, h1 := g1, h2 := g2, h3 := g3, h4 := 0\<rparr>)"
    "limbs st + 5 = (unat g0 + 2 ^ 26 * unat g1 + 2 ^ 52 * unat g2 + 2 ^ 78 * unat g3) + 2 ^ 104 * unat g4"
    "unat g0 < 2 ^ 26" "unat g1 < 2 ^ 26" "unat g2 < 2 ^ 26" "unat g3 < 2 ^ 26" "unat g4 \<le> 2 ^ 26"
proof -
  define d0 where "d0 = drop_bit 26 (h0 st + 5)"
  define d1 where "d1 = drop_bit 26 (h1 st + d0)"
  define d2 where "d2 = drop_bit 26 (h2 st + d1)"
  define d3 where "d3 = drop_bit 26 (h3 st + d2)"
  have g0: "unat (h0 st + 5) = unat (h0 st) + 5" using assms(1) by (simp add: unat_add_small)
  have e0: "unat d0 = (unat (h0 st) + 5) div 2 ^ 26" by (simp only: d0_def unat_drop_bit g0)
  then have l0: "unat d0 \<le> 1" using assms(1) by simp
  have lt: "c \<le> 1 \<Longrightarrow> c < 2 ^ 6" for c :: nat by simp
  note s1 = unat_carry_step[OF assms(2) lt[OF l0], folded d1_def]
  have l1: "unat d1 \<le> 1" unfolding s1(2) by (rule small_carry[OF assms(2) lt[OF l0]])
  note s2 = unat_carry_step[OF assms(3) lt[OF l1], folded d2_def]
  have l2: "unat d2 \<le> 1" unfolding s2(2) by (rule small_carry[OF assms(3) lt[OF l1]])
  note s3 = unat_carry_step[OF assms(4) lt[OF l2], folded d3_def]
  have l3: "unat d3 \<le> 1" unfolding s3(2) by (rule small_carry[OF assms(4) lt[OF l2]])
  have g4: "unat (h4 st + d3) = unat (h4 st) + unat d3" "unat (h4 st + d3) \<le> 2 ^ 26"
    using unat_carry_step(1)[OF assms(5) lt[OF l3]] assms(5) l3 by simp_all
  have m0: "unat ((h0 st + 5) AND 0x3ffffff) = (unat (h0 st) + 5) mod 2 ^ 26" by (simp only: unat_and26 g0) simp
  let ?b = "drop_bit 31 (h4 st + d3 - push_bit 26 1) - 1"
  have r: "poly1305_reduce st =
      st\<lparr>h0 := (h0 st AND NOT ?b) OR (((h0 st + 5) AND 0x3ffffff) AND ?b), h1 := (h1 st AND NOT ?b) OR (((h1 st + d0) AND 0x3ffffff) AND ?b),
         h2 := (h2 st AND NOT ?b) OR (((h2 st + d1) AND 0x3ffffff) AND ?b), h3 := (h3 st AND NOT ?b) OR (((h3 st + d2) AND 0x3ffffff) AND ?b),
         h4 := (h4 st AND NOT ?b) OR ((h4 st + d3 - push_bit 26 1) AND ?b)\<rparr>"
    unfolding poly1305_reduce_def Let_def d0_def d1_def d2_def d3_def by (rule refl)
  have z: "h4 st + d3 - push_bit 26 1 = 0" if "\<not> unat (h4 st + d3) < 2 ^ 26"
  proof -
    have "unat (h4 st + d3) = unat (push_bit 26 1 :: u32)" using that g4(2) by simp
    then show ?thesis by (simp only: word_unat_eq_iff[symmetric]) simp
  qed
  have 1: "poly1305_reduce st = (if unat (h4 st + d3) < 2 ^ 26 then st else st\<lparr>h0 := (h0 st + 5) AND 0x3ffffff,
        h1 := (h1 st + d0) AND 0x3ffffff, h2 := (h2 st + d1) AND 0x3ffffff, h3 := (h3 st + d2) AND 0x3ffffff, h4 := 0\<rparr>)"
    unfolding r top_bit_mask[OF g4(2)]
    by (cases "unat (h4 st + d3) < 2 ^ 26") (simp_all only: if_True if_False select_word z not_False_eq_True, simp)
  have 2: "limbs st + 5 = (unat ((h0 st + 5) AND 0x3ffffff) + 2 ^ 26 * unat ((h1 st + d0) AND 0x3ffffff) +
        2 ^ 52 * unat ((h2 st + d1) AND 0x3ffffff) + 2 ^ 78 * unat ((h3 st + d2) AND 0x3ffffff)) + 2 ^ 104 * unat (h4 st + d3)"
    unfolding limbs_def m0 s1(3) s2(3) s3(3) g4(1) s3(2) s2(2) s1(2) e0 by (rule add5_carry)
  have m: "x mod 2 ^ 26 < 2 ^ 26" for x :: nat by simp
  show ?thesis
    by (rule that[OF 1 2]) (simp_all only: m0 s1(3) s2(3) s3(3) g4(2) m)
qed

lemma poly1305_reduce_value:
  assumes "limbs_small st \<or> wrapped st"
  shows "limbs st < P1305 \<Longrightarrow> poly1305_reduce st = st"
    and "P1305 \<le> limbs st \<Longrightarrow> limbs_small st \<Longrightarrow> limbs (poly1305_reduce st) = limbs st - P1305 \<and> limbs_small (poly1305_reduce st)"
proof -
  have b: "unat (h0 st) < 2 ^ 26 + 5" "unat (h1 st) < 2 ^ 26" "unat (h2 st) < 2 ^ 26" "unat (h3 st) < 2 ^ 26" "unat (h4 st) < 2 ^ 26"
    using assms unfolding limbs_small_def wrapped_def by auto
  obtain g0 g1 g2 g3 and g4 :: u32 where
    r: "poly1305_reduce st = (if unat g4 < 2 ^ 26 then st else st\<lparr>h0 := g0, h1 := g1, h2 := g2, h3 := g3, h4 := 0\<rparr>)"
    and e: "limbs st + 5 = (unat g0 + 2 ^ 26 * unat g1 + 2 ^ 52 * unat g2 + 2 ^ 78 * unat g3) + 2 ^ 104 * unat g4"
    and g: "unat g0 < 2 ^ 26" "unat g1 < 2 ^ 26" "unat g2 < 2 ^ 26" "unat g3 < 2 ^ 26" "unat g4 \<le> 2 ^ 26"
    by (rule poly1305_reduce_words[OF b])
  note l = low_limbs_less[OF g(1-4)]
  have iff: "unat g4 < 2 ^ 26 \<longleftrightarrow> limbs st < P1305"
    by (rule iffI) (use e l g(5) in \<open>simp, linarith?\<close>)+
  show "poly1305_reduce st = st" if "limbs st < P1305" using that iff r by simp
  show "limbs (poly1305_reduce st) = limbs st - P1305 \<and> limbs_small (poly1305_reduce st)" if "P1305 \<le> limbs st"
  proof -
    have n: "\<not> unat g4 < 2 ^ 26" using that iff by linarith
    then have "unat g4 = 2 ^ 26" using g(5) by linarith
    then have "limbs (poly1305_reduce st) = limbs st - P1305"
      using e n unfolding r limbs_def by simp
    then show ?thesis using g n unfolding r limbs_small_def by simp
  qed
qed

section \<open>The lost carry\<close>

text \<open>The values of the accumulator for which the tag may be wrong: after the wrap the first limb is \<open>2 ^ 26\<close> or
  a little more, and \<open>OR\<close> joins its top bit with the lowest bit of the second limb.\<close>

definition poly1305_lost_carry :: "nat \<Rightarrow> bool" where
  "poly1305_lost_carry a \<longleftrightarrow>
     a mod 2 ^ 26 < 5 \<and> even (a div 2 ^ 26) \<and> 2 \<le> a div 2 ^ 26 \<and> a div 2 ^ 26 \<le> 42"

lemma wrapped_first_word:
  assumes "unat (h0 st) = 2 ^ 26 + e" "e < 5" "unat (h1 st) \<le> 41"
  shows "unat (h0 st OR push_bit 26 (h1 st)) = e + 2 ^ 26 * (unat (h1 st) + of_bool (even (unat (h1 st))))"
proof -
  define v :: u32 where "v = word_of_nat e"
  have v: "unat v = e" using assms(2) by (simp add: v_def unat_of_nat)
  have k: "(26 :: nat) + 6 = 32" by simp
  have e: "unat v < 2 ^ 26" using v assms(2) by simp
  have "unat (v OR push_bit 26 1) = unat (h0 st)"
    unfolding unat_low_or_high[OF e k] assms(1) v by simp
  then have h: "h0 st = v OR push_bit 26 1" by (simp only: word_unat_eq_iff)
  have o: "h0 st OR push_bit 26 (h1 st) = v OR push_bit 26 (h1 st OR 1)"
    unfolding h by (simp add: push_bit_or or.assoc or.commute or.left_commute)
  have "unat (h1 st OR 1) = unat (h1 st) OR 1" by (simp only: unsigned_or_eq unsigned_1)
  then have u: "unat (h1 st OR 1) = unat (h1 st) + of_bool (even (unat (h1 st)))" by (simp only: or_one_eq)
  have "unat (h1 st OR 1) mod 2 ^ 6 = unat (h1 st OR 1)"
    unfolding u using assms(3) by (cases "even (unat (h1 st))") simp_all
  then show ?thesis unfolding o unat_low_or_high[OF e k] v by (simp only: u)
qed

lemma wrapped_tag_words:
  assumes "wrapped st" "\<not> limbs_small st"
  shows "tag_words st = limbs st \<or> poly1305_lost_carry (limbs st) \<and> tag_words st = limbs st - 2 ^ 26" "limbs st < P1305"
proof -
  have w: "unat (h0 st) < 2 ^ 26 + 5" "unat (h1 st) \<le> 41" "unat (h2 st) = 0" "unat (h3 st) = 0" "unat (h4 st) = 0"
    using assms(1) unfolding wrapped_def by blast+
  then have z: "h2 st = 0" "h3 st = 0" "h4 st = 0" by (simp_all add: unat_eq_0)
  have ge: "2 ^ 26 \<le> unat (h0 st)" using assms(2) w unfolding limbs_small_def by simp
  then obtain e where e: "unat (h0 st) = 2 ^ 26 + e" using le_Suc_ex by blast
  then have e5: "e < 5" using w(1) by simp
  have "unat (drop_bit 6 (h1 st)) = 0" using w(2) by (simp add: unat_drop_bit)
  then have d: "drop_bit 6 (h1 st) = 0" by (simp add: unat_eq_0)
  have t: "tag_words st = e + 2 ^ 26 * (unat (h1 st) + of_bool (even (unat (h1 st))))"
    unfolding tag_words_def wrapped_first_word[OF e e5 w(2)] d z by simp
  have l: "limbs st = e + 2 ^ 26 * Suc (unat (h1 st))"
    unfolding limbs_def e w(3-5) by simp
  show "limbs st < P1305" unfolding l using e5 w(2) by simp
  show "tag_words st = limbs st \<or> poly1305_lost_carry (limbs st) \<and> tag_words st = limbs st - 2 ^ 26"
  proof (cases "even (unat (h1 st))")
    case True
    then show ?thesis unfolding t l by simp
  next
    case False
    have e26: "e < 2 ^ 26" using e5 by simp
    have "(e + 2 ^ 26 * k) mod 2 ^ 26 = e" "(e + 2 ^ 26 * k) div 2 ^ 26 = k" for k using e26 by simp_all
    then have m: "limbs st mod 2 ^ 26 = e" "limbs st div 2 ^ 26 = Suc (unat (h1 st))" unfolding l by blast+
    have "0 < unat (h1 st)" using False by (cases "unat (h1 st)") simp_all
    then have "poly1305_lost_carry (limbs st)"
      unfolding poly1305_lost_carry_def m using e5 w(2) False by simp
    moreover have "tag_words st = limbs st - 2 ^ 26" unfolding t l using False by simp
    ultimately show ?thesis by blast
  qed
qed

lemma poly1305_final_words:
  assumes "carried st"
  defines "a \<equiv> limbs st mod P1305" and "t \<equiv> tag_words (poly1305_reduce (poly1305_carry st))"
  shows "\<exists>k. a = t + 2 ^ 128 * k \<or> poly1305_lost_carry a \<and> a - 2 ^ 26 = t + 2 ^ 128 * k"
proof -
  let ?s = "poly1305_carry st"
  note c = poly1305_carry_value[OF assms(1)]
  have a: "limbs ?s mod P1305 = a" unfolding c(1) a_def by (rule refl)
  note r = poly1305_reduce_value[OF c(2)]
  show ?thesis
  proof (cases "limbs_small ?s")
    case True
    have small: "limbs_small (poly1305_reduce ?s)" "limbs (poly1305_reduce ?s) = a"
    proof -
      have le: "limbs ?s < P1305 + P1305"
        using True unfolding limbs_small_def limbs_def by simp
      show "limbs_small (poly1305_reduce ?s)" using r True by (cases "limbs ?s < P1305") (simp_all only: not_less)
      show "limbs (poly1305_reduce ?s) = a"
      proof (cases "limbs ?s < P1305")
        case True
        then show ?thesis using r(1) a by (metis mod_less)
      next
        case False
        then have "limbs ?s mod P1305 = limbs ?s - P1305"
          using le by (metis le_mod_geq mod_less not_less less_diff_conv2)
        then show ?thesis using r(2) True False a by (metis not_less)
      qed
    qed
    then show ?thesis using tag_words_small[OF small(1)] unfolding t_def by auto
  next
    case False
    then have w: "wrapped ?s" using c(2) by blast
    note t = wrapped_tag_words[OF w False]
    have "limbs ?s = a" using a t(2) by (metis mod_less)
    then show ?thesis using t(1) r(1)[OF t(2)] unfolding t_def by (intro exI[of _ 0]) auto
  qed
qed

section \<open>Streams\<close>

lemma poly1305_update_append:
  "length a = 16 * n \<Longrightarrow> poly1305_update st (a @ b) = poly1305_update (poly1305_update st a) b"
proof (induction n arbitrary: a st)
  case 0
  then show ?case by (simp add: poly1305_update.simps[of st "[]"] poly1305_atmost15bytes_def)
next
  case (Suc n)
  let ?m = "\<lambda>m. poly1305_mul (poly1305_add_block (push_bit 24 1) m st)"
  have l: "16 \<le> length a" "length (drop 16 a) = 16 * n" using Suc.prems by simp_all
  have "poly1305_add_block (push_bit 24 1) (a @ b) st = poly1305_add_block (push_bit 24 1) a st"
    using l(1) by (simp add: poly1305_add_block_def U8TO32_LE_def)
  then have "poly1305_update st (a @ b) = poly1305_update (?m a) (drop 16 a @ b)"
    using l(1) by (simp add: poly1305_update.simps[of st "a @ b"])
  also have "\<dots> = poly1305_update (poly1305_update (?m a) (drop 16 a)) b" by (rule Suc.IH[OF l(2)])
  also have "poly1305_update (?m a) (drop 16 a) = poly1305_update st a"
    using l(1) by (simp add: poly1305_update.simps[of st a])
  finally show ?case .
qed

text \<open>The buffer plays no part in the arithmetic.\<close>

definition unbuffered :: "poly1305_state_st \<Rightarrow> poly1305_state_st" where
  "unbuffered st = st\<lparr>poly_buf := [], poly_buf_used := 0\<rparr>"

lemma unbuffered_mul: "unbuffered (poly1305_mul st) = poly1305_mul (unbuffered st)"
  by (simp add: poly1305_mul_def Let_def unbuffered_def)

lemma unbuffered_add_block: "unbuffered (poly1305_add_block b m st) = poly1305_add_block b m (unbuffered st)"
  by (simp add: poly1305_add_block_def Let_def unbuffered_def)

lemma unbuffered_update: "unbuffered (poly1305_update st m) = poly1305_update (unbuffered st) m"
proof (induction st m rule: poly1305_update.induct)
  case (1 st m)
  then show ?case
    by (simp add: poly1305_update.simps[of _ m] poly1305_atmost15bytes_def unbuffered_mul unbuffered_add_block Let_def)
qed

lemma unbuffered_fields:
  "limbs (unbuffered st) = limbs st" "carried (unbuffered st) = carried st" "poly_key (unbuffered st) = poly_key st"
  "unbuffered (st\<lparr>poly_buf := x\<rparr>) = unbuffered st" "unbuffered (st\<lparr>poly_buf_used := n\<rparr>) = unbuffered st"
  by (simp_all add: unbuffered_def limbs_def carried_def)

lemma poly1305_update_buffer:
  "poly_buf (poly1305_update st m) = poly_buf st" "poly_buf_used (poly1305_update st m) = poly_buf_used st"
  "poly_key (poly1305_update st m) = poly_key st"
proof (induction st m rule: poly1305_update.induct)
  case (1 st m)
  { case 1 then show ?case using "1.IH"(1) by (simp add: poly1305_update.simps[of st m] poly1305_atmost15bytes_def Let_def) }
  { case 2 then show ?case using "1.IH"(2) by (simp add: poly1305_update.simps[of st m] poly1305_atmost15bytes_def Let_def) }
  { case 3 then show ?case using "1.IH"(3) by (simp add: poly1305_update.simps[of st m] poly1305_atmost15bytes_def Let_def) }
qed

text \<open>After a message: its whole blocks are in the accumulator, the rest is in the buffer.\<close>

definition absorbed :: "poly1305_state_st \<Rightarrow> bytes \<Rightarrow> poly1305_state_st \<Rightarrow> bool" where
  "absorbed s0 msg st \<longleftrightarrow>
     (\<exists>full rest n. msg = full @ rest \<and> length full = 16 * n \<and> length rest < 16 \<and>
        poly_buf_used st = length rest \<and> take (length rest) (poly_buf st) = rest \<and>
        unbuffered st = poly1305_update (unbuffered s0) full)"

lemma absorbedI:
  "msg = full @ rest \<Longrightarrow> length full = 16 * n \<Longrightarrow> length rest < 16 \<Longrightarrow>
   poly_buf_used st = length rest \<Longrightarrow> take (length rest) (poly_buf st) = rest \<Longrightarrow>
   unbuffered st = poly1305_update (unbuffered s0) full \<Longrightarrow> absorbed s0 msg st"
  unfolding absorbed_def by blast

lemma absorbed_start: "poly_buf_used st = 0 \<Longrightarrow> absorbed st [] st"
  by (simp add: absorbed_def poly1305_update.simps[of _ "[]"] poly1305_atmost15bytes_def)

lemma absorbed_blocks:
  assumes "absorbed s0 msg st" "poly_buf_used st = 0" "length m = 16 * k"
  shows "absorbed s0 (msg @ m) (poly1305_update st m)"
proof -
  obtain n where n: "length msg = 16 * n" "unbuffered st = poly1305_update (unbuffered s0) msg"
    using assms(1,2) unfolding absorbed_def by auto
  show ?thesis
    by (rule absorbedI[of _ "msg @ m" "[]" "n + k"])
      (simp_all add: n assms(2,3) poly1305_update_buffer unbuffered_update poly1305_update_append[OF n(1)])
qed

lemma absorbed_rest:
  assumes "absorbed s0 msg st" "poly_buf_used st = 0" "length m < 16"
  shows "absorbed s0 (msg @ m) (st\<lparr>poly_buf := m @ drop (length m) (poly_buf st), poly_buf_used := length m\<rparr>)"
proof -
  obtain n where n: "length msg = 16 * n" "unbuffered st = poly1305_update (unbuffered s0) msg"
    using assms(1,2) unfolding absorbed_def by auto
  show ?thesis
    by (rule absorbedI[of _ msg m n]) (use assms(3) in \<open>simp_all add: n unbuffered_fields\<close>)
qed

lemma absorbed_fill:
  assumes "absorbed s0 msg st" "poly1305_fill inp st = (st', inp')"
  obtains taken where "inp = taken @ inp'" "absorbed s0 (msg @ taken) st'" "inp' = [] \<or> poly_buf_used st' = 0"
proof (cases "poly_buf_used st = 0")
  case True
  then show ?thesis using assms by (intro that[of "[]"]) (simp_all add: poly1305_fill_def)
next
  case False
  obtain full rest n where a: "msg = full @ rest" "length full = 16 * n" "length rest < 16"
      "poly_buf_used st = length rest" "take (length rest) (poly_buf st) = rest"
      "unbuffered st = poly1305_update (unbuffered s0) full"
    using assms(1) unfolding absorbed_def by blast
  define k where "k = (if length inp < 16 - length rest then length inp else 16 - length rest)"
  define buf where "buf = rest @ take k inp @ drop (length rest + k) (poly_buf st)"
  define s where "s = st\<lparr>poly_buf := buf, poly_buf_used := length rest + k\<rparr>"
  have k: "k \<le> length inp" "length rest + k \<le> 16" "drop k inp \<noteq> [] \<Longrightarrow> length rest + k = 16"
    using a(3) by (auto simp: k_def)
  have f: "st' = (if length rest + k = 16 then (poly1305_update s (take 16 buf))\<lparr>poly_buf_used := 0\<rparr> else s)" "inp' = drop k inp"
    using assms(2) False
    unfolding poly1305_fill_def Let_def a(4,5) k_def[symmetric] buf_def[symmetric] s_def
    by (simp_all add: a(4) split: if_splits)
  have "absorbed s0 (msg @ take k inp) st'"
  proof (cases "length rest + k = 16")
    case True
    then have "k = 16 - length rest" by simp
    then have b: "take 16 buf = rest @ take k inp" using k(1) a(3) by (simp add: buf_def)
    have u: "unbuffered (poly1305_update s (take 16 buf)) = poly1305_update (poly1305_update (unbuffered s0) full) (take 16 buf)"
      by (simp add: unbuffered_update s_def unbuffered_fields a(6))
    show ?thesis
      by (rule absorbedI[of _ "msg @ take k inp" "[]" "n + 1"])
        (use u True k in \<open>simp_all add: f a(1,2) b poly1305_update_append[OF a(2)] unbuffered_fields poly1305_update_buffer s_def\<close>)
  next
    case False
    then have l: "length rest + k < 16" using k by simp
    show ?thesis
      by (rule absorbedI[of _ full "rest @ take k inp" n])
        (use False l k in \<open>simp_all add: f a(1,2,6) unbuffered_fields s_def buf_def\<close>)
  qed
  moreover have "inp' = [] \<or> poly_buf_used st' = 0" using k(3) f by auto
  moreover have "inp = take k inp @ inp'" using f by simp
  ultimately show ?thesis by (rule that[rotated])
qed

lemma absorbed_update:
  assumes "absorbed s0 msg st"
  shows "absorbed s0 (msg @ inp) (CRYPTO_poly1305_update st inp)"
proof -
  obtain st1 inp1 where f: "poly1305_fill inp st = (st1, inp1)" by (cases "poly1305_fill inp st")
  obtain taken where t: "inp = taken @ inp1" "absorbed s0 (msg @ taken) st1" "inp1 = [] \<or> poly_buf_used st1 = 0"
    using absorbed_fill[OF assms f] by blast
  define k where "k = 16 * (length inp1 div 16)"
  define st2 where "st2 = (if 16 \<le> length inp1 then poly1305_update st1 (take k inp1) else st1)"
  have d: "drop k inp1 = inp1" if "\<not> 16 \<le> length inp1" using that by (simp add: k_def)
  have u: "CRYPTO_poly1305_update st inp =
      (if drop k inp1 \<noteq> [] then st2\<lparr>poly_buf := drop k inp1 @ drop (length (drop k inp1)) (poly_buf st2), poly_buf_used := length (drop k inp1)\<rparr>
       else st2)"
    unfolding CRYPTO_poly1305_update_def f prod.case Let_def k_def[symmetric] st2_def using d by (cases "16 \<le> length inp1") simp_all
  have l: "length (take k inp1) = 16 * (length inp1 div 16)" "length (drop k inp1) < 16"
    by (simp_all add: k_def minus_mult_div_eq_mod)
  have s2: "absorbed s0 (msg @ taken @ take k inp1) st2"
  proof (cases "16 \<le> length inp1")
    case True
    then have "poly_buf_used st1 = 0" using t(3) by auto
    then show ?thesis using absorbed_blocks[OF t(2) _ l(1)] True by (simp add: st2_def)
  qed (use t(2) in \<open>simp add: st2_def k_def\<close>)
  show ?thesis
  proof (cases "drop k inp1 = []")
    case True
    then have "inp = taken @ take k inp1" using t(1) by simp
    then show ?thesis using s2 True u by simp
  next
    case False
    then have "poly_buf_used st2 = 0" using t(3) by (auto simp: st2_def poly1305_update_buffer)
    from absorbed_rest[OF s2 this l(2)] show ?thesis using False t(1) u by simp
  qed
qed

lemma absorbed_updates:
  "absorbed s0 msg st \<Longrightarrow> absorbed s0 (msg @ concat ps) (foldl CRYPTO_poly1305_update st ps)"
proof (induction ps arbitrary: msg st)
  case (Cons p ps)
  then show ?case using Cons.IH[OF absorbed_update[OF Cons.prems, of p]] by simp
qed simp

lemma poly_ok_unbuffered: "poly_ok (unbuffered st) = poly_ok st" "multiplier (unbuffered st) = multiplier st"
  by (simp_all add: poly_ok_def carried_def multiplier_ok_def multiplier_def unbuffered_def)

lemma poly1305_init_start:
  "poly_ok (CRYPTO_poly1305_init key st)" "limbs (CRYPTO_poly1305_init key st) = 0"
  "poly_buf_used (CRYPTO_poly1305_init key st) = 0" "poly_buf (CRYPTO_poly1305_init key st) = poly_buf st"
  "poly_key (CRYPTO_poly1305_init key st) = take 16 (drop 16 key)"
proof -
  have "carried (CRYPTO_poly1305_init key st)" by (simp add: CRYPTO_poly1305_init_def Let_def carried_def)
  then show "poly_ok (CRYPTO_poly1305_init key st)" by (simp only: poly_ok_def poly1305_init_multiplier_ok)
qed (simp_all add: CRYPTO_poly1305_init_def Let_def limbs_def)

text \<open>The accumulator and the key at the end of a stream.\<close>

lemma absorbed_final:
  assumes "absorbed (CRYPTO_poly1305_init key s0) msg st" "16 \<le> length key"
  defines "fin \<equiv> (if poly_buf_used st \<noteq> 0 then poly1305_update st (take (poly_buf_used st) (poly_buf st)) else st)"
  shows "carried fin" "limbs fin mod P1305 = poly1305_acc (poly1305_r key) 0 msg" "poly_key fin = take 16 (drop 16 key)"
proof -
  let ?i = "CRYPTO_poly1305_init key s0"
  obtain full rest n where a: "msg = full @ rest" "length full = 16 * n" "poly_buf_used st = length rest"
      "take (length rest) (poly_buf st) = rest" "unbuffered st = poly1305_update (unbuffered ?i) full"
    using assms(1) unfolding absorbed_def by blast
  have fin: "fin = poly1305_update st rest"
    unfolding fin_def a(3,4) by (simp add: poly1305_update.simps[of st "[]"] poly1305_atmost15bytes_def)
  have u: "unbuffered fin = poly1305_update (unbuffered ?i) msg"
    unfolding fin unbuffered_update a(5) a(1) by (rule poly1305_update_append[OF a(2), symmetric])
  have "poly_ok (unbuffered ?i)" by (simp only: poly_ok_unbuffered poly1305_init_start)
  note v = poly1305_update_value[OF this, of msg, folded u]
  show "carried fin" using v unfolding poly_ok_def unbuffered_fields(2) by blast
  have "limbs fin mod P1305 = poly1305_acc (multiplier (unbuffered ?i)) (limbs (unbuffered ?i) mod P1305) msg"
    using v unfolding unbuffered_fields(1) by blast
  then show "limbs fin mod P1305 = poly1305_acc (poly1305_r key) 0 msg"
    unfolding unbuffered_fields(1) poly_ok_unbuffered(2) poly1305_init_start(2) poly1305_init_multiplier[OF assms(2)] mod_0 .
  have "poly_key (unbuffered fin) = poly_key (unbuffered ?i)" unfolding u by (rule poly1305_update_buffer)
  then show "poly_key fin = take 16 (drop 16 key)" by (simp only: unbuffered_fields(3) poly1305_init_start(5))
qed

lemma poly_key_finish: "poly_key (poly1305_reduce (poly1305_carry st)) = poly_key st"
  by (simp add: poly1305_reduce_def poly1305_carry_def Let_def)

text \<open>A state with nothing in it, for the concrete inputs below.\<close>

definition poly1305_zero_state :: poly1305_state_st where
  "poly1305_zero_state =
     \<lparr>r0 = 0, r1 = 0, r2 = 0, r3 = 0, r4 = 0, s1 = 0, s2 = 0, s3 = 0, s4 = 0,
      h0 = 0, h1 = 0, h2 = 0, h3 = 0, h4 = 0, poly_buf = replicate 16 0, poly_buf_used = 0, poly_key = []\<rparr>"

text \<open>The tag of a message in one piece; it does not depend on how the message was cut, nor on what was in
  the state before \<open>CRYPTO_poly1305_init\<close>.\<close>

definition poly1305_once :: "bytes \<Rightarrow> bytes \<Rightarrow> bytes" where
  "poly1305_once key msg =
     poly1305_tag (poly1305_reduce (poly1305_carry (poly1305_update (unbuffered (CRYPTO_poly1305_init key poly1305_zero_state)) msg)))"

lemma unbuffered_init: "unbuffered (CRYPTO_poly1305_init key st) = unbuffered (CRYPTO_poly1305_init key st')"
  by (simp add: CRYPTO_poly1305_init_def Let_def unbuffered_def)

lemma poly1305_tag_unbuffered:
  "poly1305_tag (poly1305_reduce (poly1305_carry (unbuffered st))) = poly1305_tag (poly1305_reduce (poly1305_carry st))"
  by (simp add: poly1305_tag_def poly1305_reduce_def poly1305_carry_def unbuffered_def Let_def)

lemma absorbed_once:
  assumes "absorbed (CRYPTO_poly1305_init key s0) msg st"
  shows "fst (CRYPTO_poly1305_finish st) = poly1305_once key msg"
proof -
  obtain full rest n where a: "msg = full @ rest" "length full = 16 * n" "poly_buf_used st = length rest"
      "take (length rest) (poly_buf st) = rest" "unbuffered st = poly1305_update (unbuffered (CRYPTO_poly1305_init key s0)) full"
    using assms unfolding absorbed_def by blast
  define fin where "fin = (if poly_buf_used st \<noteq> 0 then poly1305_update st (take (poly_buf_used st) (poly_buf st)) else st)"
  have "fin = poly1305_update st rest"
    unfolding fin_def a(3,4) by (simp add: poly1305_update.simps[of st "[]"] poly1305_atmost15bytes_def)
  then have u: "unbuffered fin = poly1305_update (unbuffered (CRYPTO_poly1305_init key poly1305_zero_state)) msg"
    by (simp only: unbuffered_update a(5) a(1) poly1305_update_append[OF a(2)] unbuffered_init[of key s0 poly1305_zero_state])
  have "fst (CRYPTO_poly1305_finish st) = poly1305_tag (poly1305_reduce (poly1305_carry fin))"
    unfolding CRYPTO_poly1305_finish_def Let_def fin_def[symmetric] by (rule fst_conv)
  then show ?thesis unfolding poly1305_once_def u[symmetric] poly1305_tag_unbuffered .
qed

lemma poly1305_stream_once:
  "fst (CRYPTO_poly1305_finish (foldl CRYPTO_poly1305_update (CRYPTO_poly1305_init key st) ps)) = poly1305_once key (concat ps)"
  using absorbed_once[OF absorbed_updates[OF absorbed_start]] by (simp add: poly1305_init_start)

lemma length_poly1305_tag [simp]: "length (poly1305_tag st) = 16"
  by (simp add: poly1305_tag_def U32TO8_LE_def Let_def)

lemma absorbed_finish:
  assumes "absorbed (CRYPTO_poly1305_init key s0) msg st" "length key = 32"
  defines "a \<equiv> poly1305_acc (poly1305_r key) 0 msg"
  shows "fst (CRYPTO_poly1305_finish st) = poly1305_mac key msg \<or>
    poly1305_lost_carry a \<and> fst (CRYPTO_poly1305_finish st) = le_bytes 16 (a - 2 ^ 26 + le_val (take 16 (drop 16 key)))"
proof -
  have k: "16 \<le> length key" using assms(2) by simp
  define fin where "fin = (if poly_buf_used st \<noteq> 0 then poly1305_update st (take (poly_buf_used st) (poly_buf st)) else st)"
  let ?r = "poly1305_reduce (poly1305_carry fin)"
  let ?s = "le_val (take 16 (drop 16 key))"
  note f = absorbed_final[OF assms(1) k, folded fin_def a_def]
  have "fst (CRYPTO_poly1305_finish st) = poly1305_tag ?r"
    unfolding CRYPTO_poly1305_finish_def Let_def fin_def[symmetric] by (rule fst_conv)
  also have "\<dots> = le_bytes 16 (tag_words ?r + ?s)"
    by (subst poly1305_tag_value) (simp_all add: poly_key_finish f(3) assms(2))
  finally have t: "fst (CRYPTO_poly1305_finish st) = le_bytes 16 (tag_words ?r + ?s)" .
  have m: "le_bytes 16 (x + ?s) = le_bytes 16 (y + ?s)" if "x = y + 2 ^ 128 * q" for x y q
  proof -
    have "(x + ?s) mod 256 ^ 16 = (y + ?s) mod 256 ^ 16" using mod_mult_self2[of "y + ?s" "2 ^ 128" q] unfolding that by (simp add: add.assoc add.commute add.left_commute)
    then show ?thesis by (metis le_bytes_mod order_refl)
  qed
  obtain q where "a = tag_words ?r + 2 ^ 128 * q \<or> poly1305_lost_carry a \<and> a - 2 ^ 26 = tag_words ?r + 2 ^ 128 * q"
    using poly1305_final_words[OF f(1)] unfolding f(2) by blast
  then show ?thesis
    unfolding t poly1305_mac_def a_def[symmetric] using m[of a _ q] m[of "a - 2 ^ 26" _ q] by metis
qed

lemma poly1305_once_mac:
  assumes "length key = 32"
  shows "poly1305_once key msg = poly1305_mac key msg \<or>
    poly1305_lost_carry (poly1305_acc (poly1305_r key) 0 msg) \<and>
    poly1305_once key msg = le_bytes 16 (poly1305_acc (poly1305_r key) 0 msg - 2 ^ 26 + le_val (take 16 (drop 16 key)))"
proof -
  let ?i = "CRYPTO_poly1305_init key poly1305_zero_state"
  have "absorbed ?i ([] @ concat [msg]) (foldl CRYPTO_poly1305_update ?i [msg])"
    by (intro absorbed_updates absorbed_start) (simp add: poly1305_init_start)
  then have a: "absorbed ?i msg (CRYPTO_poly1305_update ?i msg)" by simp
  show ?thesis using absorbed_finish[OF a assms] unfolding absorbed_once[OF a] .
qed

section \<open>Properties\<close>

text \<open>C36: Poly1305 over a stream: whatever the pieces in which a message is passed, the tag is the one
  of RFC 8439, the sum of the second half of the key and of the polynomial in \<open>r\<close> modulo \<open>2 ^ 130 - 5\<close>
  over the blocks; no limb and no product overflows.  The one exception is an accumulator of a particular
  form (a small even multiple of \<open>2 ^ 26\<close> plus less than 5), for which the tag may be too small by \<open>2 ^ 26\<close>.\<close>

theorem poly1305_stream_correct:
  assumes "length key = 32"
  shows "let tag = fst (CRYPTO_poly1305_finish (foldl CRYPTO_poly1305_update (CRYPTO_poly1305_init key st) ps));
             a = poly1305_acc (poly1305_r key) 0 (concat ps)
         in tag = poly1305_mac key (concat ps) \<or>
            poly1305_lost_carry a \<and> tag = le_bytes 16 (a - 2 ^ 26 + le_val (take 16 (drop 16 key)))"
  unfolding Let_def poly1305_stream_once by (rule poly1305_once_mac[OF assms])

theorem poly1305_stream_correct_witness:
  "let tag = fst (CRYPTO_poly1305_finish (foldl CRYPTO_poly1305_update (CRYPTO_poly1305_init (replicate 32 3) poly1305_zero_state) [[1, 2], replicate 20 5]));
       a = poly1305_acc (poly1305_r (replicate 32 3)) 0 (concat [[1, 2], replicate 20 5])
   in tag = poly1305_mac (replicate 32 3) (concat [[1, 2], replicate 20 5]) \<or>
      poly1305_lost_carry a \<and> tag = le_bytes 16 (a - 2 ^ 26 + le_val (take 16 (drop 16 (replicate 32 3))))"
  by (rule poly1305_stream_correct) simp

definition lost_carry_key :: bytes where
  "lost_carry_key = [0xe8, 0xb2, 0x0c, 0x13, 0x05, 0x20, 0x5c, 0xec, 0xd8, 0xc5, 0xde, 0xb1, 0x03, 0x4d, 0x61, 0xcc] @ replicate 16 0"

definition lost_carry_block :: bytes where
  "lost_carry_block = [0x73, 0xd5, 0xde, 0xfe, 0x42, 0x03, 0x8b, 0x58, 0xce, 0x18, 0x87, 0xb6, 0xad, 0x0a, 0x1f, 0x9d]"

lemma le_bytes_numeral: "le_bytes (numeral k) v = word_of_nat v # le_bytes (pred_numeral k) (v div 256)"
  by (simp only: numeral_eq_Suc le_bytes.simps)

lemmas poly1305_key_eval = CRYPTO_poly1305_init_def poly1305_zero_state_def lost_carry_key_def U8TO32_LE_def Let_def

lemmas poly1305_block_eval = poly1305_add_block_def poly1305_mul_def mul32x32_64_def lost_carry_block_def

lemma lost_carry_update:
  "CRYPTO_poly1305_update (CRYPTO_poly1305_init lost_carry_key poly1305_zero_state) lost_carry_block =
   poly1305_mul (poly1305_add_block (push_bit 24 1) lost_carry_block (CRYPTO_poly1305_init lost_carry_key poly1305_zero_state))"
  by (simp add: CRYPTO_poly1305_update_def poly1305_fill_def poly1305_init_start lost_carry_block_def poly1305_update.simps
      poly1305_atmost15bytes_def Let_def)

lemma lost_carry_finish:
  "CRYPTO_poly1305_finish (poly1305_mul (poly1305_add_block (push_bit 24 1) lost_carry_block
      (CRYPTO_poly1305_init lost_carry_key poly1305_zero_state))) =
    (let st = poly1305_reduce (poly1305_carry (poly1305_mul (poly1305_add_block (push_bit 24 1) lost_carry_block
      (CRYPTO_poly1305_init lost_carry_key poly1305_zero_state)))) in (poly1305_tag st, st))"
  by (simp add: CRYPTO_poly1305_finish_def poly1305_init_start)

text \<open>C37: The exception occurs: for this key and this block of 16 bytes the code's tag differs from the
  one of RFC 8439 in its fourth byte.\<close>

theorem poly1305_wrong_tag:
  "fst (CRYPTO_poly1305_finish (CRYPTO_poly1305_update (CRYPTO_poly1305_init lost_carry_key poly1305_zero_state) lost_carry_block)) =
     [4, 0, 0, 4, 0, 0, 0, 0, 0, 0, 0, 0, 0, 0, 0, 0] \<and>
   poly1305_mac lost_carry_key lost_carry_block = [4, 0, 0, 8, 0, 0, 0, 0, 0, 0, 0, 0, 0, 0, 0, 0]"
proof
  show "poly1305_mac lost_carry_key lost_carry_block = [4, 0, 0, 8, 0, 0, 0, 0, 0, 0, 0, 0, 0, 0, 0, 0]"
    by (simp add: poly1305_mac_def lost_carry_key_def lost_carry_block_def poly1305_r_def poly1305_acc.simps le_bytes_numeral)
  show "fst (CRYPTO_poly1305_finish (CRYPTO_poly1305_update (CRYPTO_poly1305_init lost_carry_key poly1305_zero_state) lost_carry_block)) =
     [4, 0, 0, 4, 0, 0, 0, 0, 0, 0, 0, 0, 0, 0, 0, 0]"
    unfolding lost_carry_update lost_carry_finish
    by (simp add: poly1305_key_eval poly1305_block_eval poly1305_carry_def poly1305_reduce_def poly1305_tag_def
        U32TO8_LE_def le_bytes_numeral)
qed

end
