(* ===== verification/Aead.thy ===== *)
theory Aead
  imports Prelude
begin

text \<open>Authenticated encryption: \<open>crypto/fipsmodule/cipher/aead.c\<close>, the interface over a table of functions
  for each algorithm.  The locale \<open>aead_algorithm\<close> is the contract of such a table; the properties of the
  interface are proved from it.\<close>

section \<open>Model\<close>

datatype evp_aead_direction_t = evp_aead_open | evp_aead_seal

text \<open>\<open>struct evp_aead_st\<close>.  A method gets the state and the tag length of the context, the only parts it
  uses; \<open>cleanup\<close> releases what \<open>init\<close> allocated.\<close>

record 'st evp_aead =
  key_len :: nat
  nonce_len :: nat
  overhead :: nat
  max_tag_len :: nat
  seal_scatter_supports_extra_in :: bool
  aead_init :: "(bytes \<Rightarrow> nat \<Rightarrow> ('st \<times> nat) option) option"
  aead_init_with_direction :: "(bytes \<Rightarrow> nat \<Rightarrow> evp_aead_direction_t \<Rightarrow> ('st \<times> nat) option) option"
  aead_open :: "('st \<Rightarrow> nat \<Rightarrow> nat \<Rightarrow> bytes \<Rightarrow> bytes \<Rightarrow> bytes \<Rightarrow> bytes option) option"
  aead_seal_scatter :: "'st \<Rightarrow> nat \<Rightarrow> nat \<Rightarrow> bytes \<Rightarrow> bytes \<Rightarrow> bytes \<Rightarrow> bytes \<Rightarrow> (bytes \<times> bytes) option"
  aead_open_gather :: "('st \<Rightarrow> nat \<Rightarrow> bytes \<Rightarrow> bytes \<Rightarrow> bytes \<Rightarrow> bytes \<Rightarrow> bytes option) option"
  aead_get_iv :: "('st \<Rightarrow> bytes option) option"
  aead_tag_len :: "('st \<Rightarrow> nat \<Rightarrow> nat \<Rightarrow> nat) option"

text \<open>\<open>EVP_AEAD_CTX\<close>.\<close>

record 'st evp_aead_ctx =
  ctx_aead :: "'st evp_aead option"
  ctx_state :: 'st
  ctx_tag_len :: nat

definition EVP_AEAD_key_length :: "'st evp_aead \<Rightarrow> nat" where "EVP_AEAD_key_length aead = key_len aead"
definition EVP_AEAD_nonce_length :: "'st evp_aead \<Rightarrow> nat" where "EVP_AEAD_nonce_length aead = nonce_len aead"
definition EVP_AEAD_max_overhead :: "'st evp_aead \<Rightarrow> nat" where "EVP_AEAD_max_overhead aead = overhead aead"
definition EVP_AEAD_max_tag_len :: "'st evp_aead \<Rightarrow> nat" where "EVP_AEAD_max_tag_len aead = max_tag_len aead"

definition EVP_AEAD_CTX_init_with_direction ::
  "'st evp_aead_ctx \<Rightarrow> 'st evp_aead \<Rightarrow> bytes \<Rightarrow> nat \<Rightarrow> evp_aead_direction_t \<Rightarrow> bool \<times> 'st evp_aead_ctx" where
  "EVP_AEAD_CTX_init_with_direction ctx aead key tag_len dir =
     (if length key \<noteq> key_len aead then (False, ctx\<lparr>ctx_aead := None\<rparr>)
      else let ctx = ctx\<lparr>ctx_aead := Some aead\<rparr>;
               ok = (case aead_init aead of
                 Some f \<Rightarrow> f key tag_len
               | None \<Rightarrow> Option.bind (aead_init_with_direction aead) (\<lambda>f. f key tag_len dir))
           in case ok of
             None \<Rightarrow> (False, ctx\<lparr>ctx_aead := None\<rparr>)
           | Some (st, t) \<Rightarrow> (True, ctx\<lparr>ctx_state := st, ctx_tag_len := t\<rparr>))"

definition EVP_AEAD_CTX_init :: "'st evp_aead_ctx \<Rightarrow> 'st evp_aead \<Rightarrow> bytes \<Rightarrow> nat \<Rightarrow> bool \<times> 'st evp_aead_ctx" where
  "EVP_AEAD_CTX_init ctx aead key tag_len =
     (if aead_init aead = None then (False, ctx\<lparr>ctx_aead := None\<rparr>)
      else EVP_AEAD_CTX_init_with_direction ctx aead key tag_len evp_aead_open)"

definition EVP_AEAD_CTX_cleanup :: "'st evp_aead_ctx \<Rightarrow> 'st evp_aead_ctx" where
  "EVP_AEAD_CTX_cleanup ctx = (if ctx_aead ctx = None then ctx else ctx\<lparr>ctx_aead := None\<rparr>)"

text \<open>Zeroed memory is a context without an algorithm; \<open>z\<close> is the state in it.\<close>

definition EVP_AEAD_CTX_zero :: "'st \<Rightarrow> 'st evp_aead_ctx" where
  "EVP_AEAD_CTX_zero z = \<lparr>ctx_aead = None, ctx_state = z, ctx_tag_len = 0\<rparr>"

text \<open>The result of the allocation goes to \<open>EVP_AEAD_CTX_zero\<close> without a test, so that when the allocator
  fails (\<open>allocated\<close> is false) memory at \<open>NULL\<close> is written.  \<open>EVP_AEAD_CTX_free\<close> is
  \<open>EVP_AEAD_CTX_cleanup\<close> and the release of the memory.\<close>

datatype undefined_behaviour = null_write

definition EVP_AEAD_CTX_new :: "bool \<Rightarrow> 'st \<Rightarrow> 'st evp_aead \<Rightarrow> bytes \<Rightarrow> nat \<Rightarrow> undefined_behaviour + 'st evp_aead_ctx option" where
  "EVP_AEAD_CTX_new allocated z aead key tag_len =
     (if \<not> allocated then Inl null_write
      else case EVP_AEAD_CTX_init (EVP_AEAD_CTX_zero z) aead key tag_len of
          (True, ctx) \<Rightarrow> Inr (Some ctx)
        | (False, ctx) \<Rightarrow> Inr None)"

text \<open>\<open>buffers_alias\<close> of \<open>internal.h\<close>, on addresses.\<close>

definition buffers_alias :: "nat \<Rightarrow> nat \<Rightarrow> nat \<Rightarrow> nat \<Rightarrow> bool" where
  "buffers_alias a a_len b b_len \<longleftrightarrow> (a + a_len) mod SIZE_MOD > b \<and> (b + b_len) mod SIZE_MOD > a"

definition check_alias :: "nat \<Rightarrow> nat \<Rightarrow> nat \<Rightarrow> nat \<Rightarrow> bool" where
  "check_alias inp in_len out out_len = (if \<not> buffers_alias inp in_len out out_len then True else inp = out)"

text \<open>The functions below take the address of each buffer whose overlap they check, the contents of the
  buffers they read, and of the output buffer the contents before the call, whose length is \<open>max_out_len\<close>.
  They return whether they succeeded, the contents of the output buffer and the length put in \<open>*out_len\<close>.
  Input and output may be the same buffer: the methods read a byte of the input before they write the byte
  of the output at its place.\<close>

definition EVP_AEAD_CTX_seal ::
  "'st evp_aead_ctx \<Rightarrow> nat \<Rightarrow> bytes \<Rightarrow> bytes \<Rightarrow> nat \<Rightarrow> bytes \<Rightarrow> bytes \<Rightarrow> bool \<times> bytes \<times> nat" where
  "EVP_AEAD_CTX_seal ctx out out_buf nonce in_ptr inp ad =
     (let aead = the (ctx_aead ctx);
          in_len = length inp;
          max_out_len = length out_buf;
          error = (False, replicate max_out_len 0, 0)
      in if (in_len + overhead aead) mod SIZE_MOD < in_len then error
         else if max_out_len < in_len then error
         else if \<not> check_alias in_ptr in_len out max_out_len then error
         else case aead_seal_scatter aead (ctx_state ctx) (ctx_tag_len ctx) (max_out_len - in_len) nonce inp [] ad of
             Some (c, tag) \<Rightarrow> (True, c @ tag @ drop (length c + length tag) out_buf, in_len + length tag)
           | None \<Rightarrow> error)"

definition EVP_AEAD_CTX_seal_scatter ::
  "'st evp_aead_ctx \<Rightarrow> nat \<Rightarrow> bytes \<Rightarrow> nat \<Rightarrow> bytes \<Rightarrow> bytes \<Rightarrow> nat \<Rightarrow> bytes \<Rightarrow> bytes \<Rightarrow> bytes \<Rightarrow> bool \<times> bytes \<times> bytes \<times> nat" where
  "EVP_AEAD_CTX_seal_scatter ctx out out_buf out_tag tag_buf nonce in_ptr inp extra_in ad =
     (let aead = the (ctx_aead ctx);
          in_len = length inp;
          max_out_tag_len = length tag_buf;
          error = (False, replicate in_len 0 @ drop in_len out_buf, replicate max_out_tag_len 0, 0)
      in if \<not> check_alias in_ptr in_len out in_len \<or> buffers_alias out in_len out_tag max_out_tag_len \<or>
            buffers_alias in_ptr in_len out_tag max_out_tag_len then error
         else if \<not> seal_scatter_supports_extra_in aead \<and> extra_in \<noteq> [] then error
         else case aead_seal_scatter aead (ctx_state ctx) (ctx_tag_len ctx) max_out_tag_len nonce inp extra_in ad of
             Some (c, tag) \<Rightarrow> (True, c @ drop (length c) out_buf, tag @ drop (length tag) tag_buf, length tag)
           | None \<Rightarrow> error)"

definition EVP_AEAD_CTX_open_gather ::
  "'st evp_aead_ctx \<Rightarrow> nat \<Rightarrow> bytes \<Rightarrow> bytes \<Rightarrow> nat \<Rightarrow> bytes \<Rightarrow> bytes \<Rightarrow> bytes \<Rightarrow> bool \<times> bytes" where
  "EVP_AEAD_CTX_open_gather ctx out out_buf nonce in_ptr inp in_tag ad =
     (let aead = the (ctx_aead ctx);
          in_len = length inp;
          error = (False, replicate in_len 0 @ drop in_len out_buf)
      in if \<not> check_alias in_ptr in_len out in_len then error
         else case aead_open_gather aead of
             None \<Rightarrow> error
           | Some open_gather \<Rightarrow>
               (case open_gather (ctx_state ctx) (ctx_tag_len ctx) nonce inp in_tag ad of
                  Some p \<Rightarrow> (True, p @ drop (length p) out_buf)
                | None \<Rightarrow> error))"

definition EVP_AEAD_CTX_open ::
  "'st evp_aead_ctx \<Rightarrow> nat \<Rightarrow> bytes \<Rightarrow> bytes \<Rightarrow> nat \<Rightarrow> bytes \<Rightarrow> bytes \<Rightarrow> bool \<times> bytes \<times> nat" where
  "EVP_AEAD_CTX_open ctx out out_buf nonce in_ptr inp ad =
     (let aead = the (ctx_aead ctx);
          in_len = length inp;
          max_out_len = length out_buf;
          error = (False, replicate max_out_len 0, 0)
      in if \<not> check_alias in_ptr in_len out max_out_len then error
         else case aead_open aead of
             Some open_fn \<Rightarrow>
               (case open_fn (ctx_state ctx) (ctx_tag_len ctx) max_out_len nonce inp ad of
                  Some p \<Rightarrow> (True, p @ drop (length p) out_buf, length p)
                | None \<Rightarrow> error)
           | None \<Rightarrow>
               if in_len < ctx_tag_len ctx then error
               else let plaintext_len = in_len - ctx_tag_len ctx
                    in if max_out_len < plaintext_len then error
                       else let (ok, out_buf) = EVP_AEAD_CTX_open_gather ctx out out_buf nonce in_ptr
                                  (take plaintext_len inp) (drop plaintext_len inp) ad
                            in if ok then (True, out_buf, plaintext_len) else error)"

definition EVP_AEAD_CTX_get_iv :: "'st evp_aead_ctx \<Rightarrow> bytes option" where
  "EVP_AEAD_CTX_get_iv ctx =
     (case aead_get_iv (the (ctx_aead ctx)) of None \<Rightarrow> None | Some get_iv \<Rightarrow> get_iv (ctx_state ctx))"

definition EVP_AEAD_CTX_tag_len :: "'st evp_aead_ctx \<Rightarrow> nat \<Rightarrow> nat \<Rightarrow> nat option" where
  "EVP_AEAD_CTX_tag_len ctx in_len extra_in_len =
     (case aead_tag_len (the (ctx_aead ctx)) of
        Some f \<Rightarrow> Some (f (ctx_state ctx) in_len extra_in_len)
      | None \<Rightarrow>
          if (extra_in_len + ctx_tag_len ctx) mod SIZE_MOD < extra_in_len then None
          else Some ((extra_in_len + ctx_tag_len ctx) mod SIZE_MOD))"

section \<open>The contract of an algorithm\<close>

text \<open>What the tables of the library promise, for the algorithms with an authenticator of fixed length that
  leave opening to the interface.  \<open>ok st t\<close>: a state and a tag length that \<open>init\<close> made.  Sealing and opening
  are inverse: a message opens to \<open>p\<close> if and only if it is what sealing \<open>p\<close> gives.\<close>

locale aead_algorithm =
  fixes A :: "'st evp_aead"
    and opn :: "'st \<Rightarrow> nat \<Rightarrow> bytes \<Rightarrow> bytes \<Rightarrow> bytes \<Rightarrow> bytes \<Rightarrow> bytes option"
    and ok :: "'st \<Rightarrow> nat \<Rightarrow> bool"
  assumes aead_init_ok: "aead_init A = Some f \<Longrightarrow> length key = key_len A \<Longrightarrow> f key n = Some (st, t) \<Longrightarrow> ok st t"
    and open_default: "aead_open A = None" "aead_open_gather A = Some opn"
    and tag_bound: "ok st t \<Longrightarrow> 0 < t \<and> t \<le> overhead A" "overhead A \<le> 64"
    and seal_lengths: "ok st t \<Longrightarrow> aead_seal_scatter A st t m nonce inp [] ad = Some (c, tag) \<Longrightarrow>
      length c = length inp \<and> length tag = t"
    and seal_open: "ok st t \<Longrightarrow> aead_seal_scatter A st t m nonce inp [] ad = Some (c, tag) \<Longrightarrow>
      opn st t nonce c tag ad = Some inp"
    and open_seal: "ok st t \<Longrightarrow> opn st t nonce c tag ad = Some inp \<Longrightarrow> t \<le> m \<Longrightarrow>
      aead_seal_scatter A st t m nonce inp [] ad = Some (c, tag)"
begin

lemma init_ctx:
  assumes "EVP_AEAD_CTX_init ctx0 A key n = (True, ctx)"
  shows "ctx_aead ctx = Some A" "ok (ctx_state ctx) (ctx_tag_len ctx)"
proof -
  obtain f st t where "aead_init A = Some f" "length key = key_len A" "f key n = Some (st, t)"
      "ctx = ctx0\<lparr>ctx_aead := Some A, ctx_state := st, ctx_tag_len := t\<rparr>"
    using assms by (auto simp: EVP_AEAD_CTX_init_def EVP_AEAD_CTX_init_with_direction_def Let_def split: if_splits option.splits)
  then show "ctx_aead ctx = Some A" "ok (ctx_state ctx) (ctx_tag_len ctx)"
    using aead_init_ok[of f key n st t] by simp_all
qed

lemma length_open:
  assumes "ok st t" "opn st t nonce c tag ad = Some p"
  shows "length p = length c" "length tag = t"
  using seal_lengths[OF assms(1) open_seal[OF assms order_refl]] by simp_all

text \<open>Opening through the interface, on buffers that do not overlap or are the same.\<close>

lemma ctx_open_iff:
  assumes ctx: "ctx_aead ctx = Some A" "ok (ctx_state ctx) (ctx_tag_len ctx)"
    and buf: "check_alias in_ptr (length msg) out (length out_buf)"
      "check_alias in_ptr (length msg - ctx_tag_len ctx) out (length msg - ctx_tag_len ctx)"
      "length msg - ctx_tag_len ctx \<le> length out_buf"
  shows "EVP_AEAD_CTX_open ctx out out_buf nonce in_ptr msg ad = (True, out', n) \<longleftrightarrow>
    (\<exists>p c tag. msg = c @ tag \<and> opn (ctx_state ctx) (ctx_tag_len ctx) nonce c tag ad = Some p \<and>
       out' = p @ drop (length p) out_buf \<and> n = length p)"
    (is "?l \<longleftrightarrow> ?r")
proof
  assume l: ?l
  let ?k = "length msg - ctx_tag_len ctx"
  obtain p where "opn (ctx_state ctx) (ctx_tag_len ctx) nonce (take ?k msg) (drop ?k msg) ad = Some p"
      "out' = p @ drop (length p) out_buf" "n = ?k"
    using l buf by (auto simp: EVP_AEAD_CTX_open_def EVP_AEAD_CTX_open_gather_def ctx open_default Let_def min_def
        split: if_splits option.splits)
  then show ?r using length_open[OF ctx(2)] by (intro exI[of _ p] exI[of _ "take ?k msg"] exI[of _ "drop ?k msg"]) simp
next
  assume ?r
  then obtain p c tag where r: "msg = c @ tag" "opn (ctx_state ctx) (ctx_tag_len ctx) nonce c tag ad = Some p"
      "out' = p @ drop (length p) out_buf" "n = length p" by blast
  then have "length p = length c" "length tag = ctx_tag_len ctx" using length_open[OF ctx(2)] by blast+
  then show ?l
    using r buf by (simp add: EVP_AEAD_CTX_open_def EVP_AEAD_CTX_open_gather_def ctx open_default Let_def)
qed

lemma ctx_seal_iff:
  assumes ctx: "ctx_aead ctx = Some A" "ok (ctx_state ctx) (ctx_tag_len ctx)"
    and buf: "check_alias in_ptr (length inp) out (length out_buf)" "length inp + ctx_tag_len ctx \<le> length out_buf"
      "length inp + overhead A < SIZE_MOD"
  shows "EVP_AEAD_CTX_seal ctx out out_buf nonce in_ptr inp ad = (True, out', n) \<longleftrightarrow>
    (\<exists>c tag. opn (ctx_state ctx) (ctx_tag_len ctx) nonce c tag ad = Some inp \<and>
       out' = c @ tag @ drop (length inp + ctx_tag_len ctx) out_buf \<and> n = length inp + ctx_tag_len ctx)"
    (is "?l \<longleftrightarrow> ?r")
proof -
  let ?m = "length out_buf - length inp"
  have m: "ctx_tag_len ctx \<le> ?m" using buf(2) by simp
  have s: "aead_seal_scatter A (ctx_state ctx) (ctx_tag_len ctx) ?m nonce inp [] ad = Some (c, tag) \<longleftrightarrow>
      opn (ctx_state ctx) (ctx_tag_len ctx) nonce c tag ad = Some inp" for c tag
    using seal_open[OF ctx(2)] open_seal[OF ctx(2) _ m] by blast
  have len: "length c = length inp \<and> length tag = ctx_tag_len ctx"
    if "opn (ctx_state ctx) (ctx_tag_len ctx) nonce c tag ad = Some inp" for c tag
    using length_open[OF ctx(2) that] by simp
  let ?s = "aead_seal_scatter A (ctx_state ctx) (ctx_tag_len ctx) ?m nonce inp [] ad"
  have e: "EVP_AEAD_CTX_seal ctx out out_buf nonce in_ptr inp ad =
      (case ?s of
         Some (c, tag) \<Rightarrow> (True, c @ tag @ drop (length c + length tag) out_buf, length inp + length tag)
       | None \<Rightarrow> (False, replicate (length out_buf) 0, 0))"
    using buf by (simp add: EVP_AEAD_CTX_seal_def ctx Let_def)
  show ?thesis
  proof (cases ?s)
    case None
    then show ?thesis using s by (simp add: e)
  next
    case (Some ct)
    obtain c tag where ct: "ct = (c, tag)" by (cases ct)
    then have o: "opn (ctx_state ctx) (ctx_tag_len ctx) nonce c tag ad = Some inp" using s[of c tag] Some by simp
    have u: "opn (ctx_state ctx) (ctx_tag_len ctx) nonce c' tag' ad = Some inp \<longleftrightarrow> c' = c \<and> tag' = tag" for c' tag'
      using s[of c' tag'] Some ct by auto
    have "EVP_AEAD_CTX_seal ctx out out_buf nonce in_ptr inp ad =
        (True, c @ tag @ drop (length inp + ctx_tag_len ctx) out_buf, length inp + ctx_tag_len ctx)"
      unfolding e Some ct using len[OF o] by simp
    then show ?thesis unfolding u by auto
  qed
qed

text \<open>A message opens to a plaintext if and only if sealing the plaintext gives the message.\<close>

lemma open_iff_seal:
  assumes ctx: "EVP_AEAD_CTX_init ctx0 A key k = (True, ctx)"
    and o: "check_alias in_ptr (length msg) out (length out_buf)"
      "check_alias in_ptr (length msg - ctx_tag_len ctx) out (length msg - ctx_tag_len ctx)"
      "length msg - ctx_tag_len ctx \<le> length out_buf"
    and s: "check_alias in_ptr' (length p) out2 (length out_buf2)" "length p + ctx_tag_len ctx \<le> length out_buf2"
      "length p + overhead A < SIZE_MOD"
  shows "EVP_AEAD_CTX_open ctx out out_buf nonce in_ptr msg ad = (True, p @ drop (length p) out_buf, length p) \<longleftrightarrow>
    EVP_AEAD_CTX_seal ctx out2 out_buf2 nonce in_ptr' p ad = (True, msg @ drop (length msg) out_buf2, length msg)"
proof -
  note c = init_ctx[OF ctx]
  have len: "length c' = length p \<and> length tag = ctx_tag_len ctx"
    if "opn (ctx_state ctx) (ctx_tag_len ctx) nonce c' tag ad = Some p" for c' tag
    using length_open[OF c(2) that] by simp
  have "EVP_AEAD_CTX_open ctx out out_buf nonce in_ptr msg ad = (True, p @ drop (length p) out_buf, length p) \<longleftrightarrow>
      (\<exists>c' tag. msg = c' @ tag \<and> opn (ctx_state ctx) (ctx_tag_len ctx) nonce c' tag ad = Some p)"
    unfolding ctx_open_iff[OF c o] by (metis append_eq_append_conv)
  also have "\<dots> \<longleftrightarrow> (\<exists>c' tag. opn (ctx_state ctx) (ctx_tag_len ctx) nonce c' tag ad = Some p \<and>
      msg @ drop (length msg) out_buf2 = c' @ tag @ drop (length p + ctx_tag_len ctx) out_buf2 \<and>
      length msg = length p + ctx_tag_len ctx)"
  proof -
    have "msg = c' @ tag \<longleftrightarrow> msg @ drop (length msg) out_buf2 = c' @ tag @ drop (length p + ctx_tag_len ctx) out_buf2 \<and>
      length msg = length p + ctx_tag_len ctx"
      if "opn (ctx_state ctx) (ctx_tag_len ctx) nonce c' tag ad = Some p" for c' tag
      using len[OF that] append_eq_append_conv[of msg "c' @ tag"] by auto
    then show ?thesis by blast
  qed
  also have "\<dots> \<longleftrightarrow> EVP_AEAD_CTX_seal ctx out2 out_buf2 nonce in_ptr' p ad = (True, msg @ drop (length msg) out_buf2, length msg)"
    unfolding ctx_seal_iff[OF c s] by (rule refl)
  finally show ?thesis .
qed

end

end
