(* ===== verification/ChachaPoly.thy ===== *)
theory ChachaPoly
  imports Chacha Poly1305 Mem Aead
begin

text \<open>ChaCha20-Poly1305 and XChaCha20-Poly1305: \<open>crypto/cipher_extra/e_chacha20poly1305.c\<close>, in the build
  without assembly (\<open>chacha20_poly1305_asm_capable\<close> returns 0).  The two tables keep the contract
  \<open>aead_algorithm\<close>.\<close>

section \<open>Model\<close>

definition POLY1305_TAG_LEN :: nat where "POLY1305_TAG_LEN = 16"

text \<open>The state is \<open>struct aead_chacha20_poly1305_ctx\<close>, the key.\<close>

type_synonym aead_chacha20_poly1305_ctx = bytes

definition aead_chacha20_poly1305_init :: "bytes \<Rightarrow> nat \<Rightarrow> (aead_chacha20_poly1305_ctx \<times> nat) option" where
  "aead_chacha20_poly1305_init key tag_len =
     (let tag_len = (if tag_len = 0 then POLY1305_TAG_LEN else tag_len)
      in if tag_len > POLY1305_TAG_LEN then None
         else if length key \<noteq> 32 then None
         else Some (key, tag_len))"

definition poly1305_update_length :: "poly1305_state_st \<Rightarrow> nat \<Rightarrow> poly1305_state_st" where
  "poly1305_update_length poly1305 data_len = CRYPTO_poly1305_update poly1305 (le_bytes 8 data_len)"

text \<open>\<open>ctx\<close> is the state on the stack before \<open>CRYPTO_poly1305_init\<close> sets it.\<close>

definition calc_tag :: "poly1305_state_st \<Rightarrow> bytes \<Rightarrow> bytes \<Rightarrow> bytes \<Rightarrow> bytes \<Rightarrow> bytes \<Rightarrow> bytes" where
  "calc_tag ctx key nonce ad ciphertext ciphertext_extra =
     (let poly1305_key = CRYPTO_chacha_20 (replicate 32 0) key nonce 0;
          padding = replicate 16 0;
          ctx = CRYPTO_poly1305_init poly1305_key ctx;
          ctx = CRYPTO_poly1305_update ctx ad;
          ctx = (if length ad mod 16 \<noteq> 0 then CRYPTO_poly1305_update ctx (take (16 - length ad mod 16) padding) else ctx);
          ctx = CRYPTO_poly1305_update ctx ciphertext;
          ctx = CRYPTO_poly1305_update ctx ciphertext_extra;
          ciphertext_total = length ciphertext + length ciphertext_extra;
          ctx = (if ciphertext_total mod 16 \<noteq> 0
                 then CRYPTO_poly1305_update ctx (take (16 - ciphertext_total mod 16) padding) else ctx);
          ctx = poly1305_update_length ctx (length ad);
          ctx = poly1305_update_length ctx ciphertext_total
      in fst (CRYPTO_poly1305_finish ctx))"

text \<open>The loop over the extra input, a block of the key stream at a time; the first block is used from
  \<open>offset\<close> on.\<close>

function seal_extra :: "bytes \<Rightarrow> bytes \<Rightarrow> u32 \<Rightarrow> nat \<Rightarrow> bytes \<Rightarrow> bytes" where
  "seal_extra key nonce block_counter offset extra_in =
     (if extra_in = [] then []
      else let block = CRYPTO_chacha_20 (replicate 64 0) key nonce block_counter;
               todo = min (64 - offset) (length extra_in)
           in map2 (XOR) (take todo extra_in) (take todo (drop offset block)) @
              seal_extra key nonce (block_counter + 1) 0 (drop todo extra_in))"
  by pat_completeness auto
termination
  by (relation "measure (\<lambda>(key, nonce, c, offset, ex). 2 * length ex + (if 64 \<le> offset then 1 else 0))") (auto simp: min_def)

declare seal_extra.simps [simp del]

definition max_stream_len :: nat where "max_stream_len = 2 ^ 32 * 64 - 64"

definition chacha20_poly1305_seal_scatter ::
  "poly1305_state_st \<Rightarrow> bytes \<Rightarrow> nat \<Rightarrow> bytes \<Rightarrow> bytes \<Rightarrow> bytes \<Rightarrow> bytes \<Rightarrow> nat \<Rightarrow> (bytes \<times> bytes) option" where
  "chacha20_poly1305_seal_scatter ctx key max_out_tag_len nonce inp extra_in ad tag_len =
     (let in_len = length inp; extra_in_len = length extra_in
      in if (extra_in_len + tag_len) mod SIZE_MOD < tag_len then None
         else if max_out_tag_len < (tag_len + extra_in_len) mod SIZE_MOD then None
         else if length nonce \<noteq> 12 then None
         else if in_len \<ge> max_stream_len then None
         else if max_out_tag_len < tag_len then None
         else
           let extra = (if extra_in_len \<noteq> 0
                        then seal_extra key nonce (word_of_nat (1 + in_len div 64)) (in_len mod 64) extra_in else []);
               out = CRYPTO_chacha_20 inp key nonce 1;
               tag = calc_tag ctx key nonce ad out extra
           in Some (out, extra @ take tag_len tag))"

definition aead_chacha20_poly1305_seal_scatter ::
  "poly1305_state_st \<Rightarrow> aead_chacha20_poly1305_ctx \<Rightarrow> nat \<Rightarrow> nat \<Rightarrow> bytes \<Rightarrow> bytes \<Rightarrow> bytes \<Rightarrow> bytes \<Rightarrow> (bytes \<times> bytes) option" where
  "aead_chacha20_poly1305_seal_scatter ctx key tag_len max_out_tag_len nonce inp extra_in ad =
     chacha20_poly1305_seal_scatter ctx key max_out_tag_len nonce inp extra_in ad tag_len"

definition aead_xchacha20_poly1305_seal_scatter ::
  "poly1305_state_st \<Rightarrow> aead_chacha20_poly1305_ctx \<Rightarrow> nat \<Rightarrow> nat \<Rightarrow> bytes \<Rightarrow> bytes \<Rightarrow> bytes \<Rightarrow> bytes \<Rightarrow> (bytes \<times> bytes) option" where
  "aead_xchacha20_poly1305_seal_scatter ctx key tag_len max_out_tag_len nonce inp extra_in ad =
     (if length nonce \<noteq> 24 then None
      else let derived_key = CRYPTO_hchacha20 key (take 16 nonce);
               derived_nonce = replicate 4 0 @ take 8 (drop 16 nonce)
           in chacha20_poly1305_seal_scatter ctx derived_key max_out_tag_len derived_nonce inp extra_in ad tag_len)"

definition chacha20_poly1305_open_gather ::
  "poly1305_state_st \<Rightarrow> bytes \<Rightarrow> bytes \<Rightarrow> bytes \<Rightarrow> bytes \<Rightarrow> bytes \<Rightarrow> nat \<Rightarrow> bytes option" where
  "chacha20_poly1305_open_gather ctx key nonce inp in_tag ad tag_len =
     (if length nonce \<noteq> 12 then None
      else if length in_tag \<noteq> tag_len then None
      else if length inp \<ge> max_stream_len then None
      else let tag = calc_tag ctx key nonce ad inp [];
               out = CRYPTO_chacha_20 inp key nonce 1
           in if CRYPTO_memcmp tag in_tag tag_len \<noteq> 0 then None else Some out)"

definition aead_chacha20_poly1305_open_gather ::
  "poly1305_state_st \<Rightarrow> aead_chacha20_poly1305_ctx \<Rightarrow> nat \<Rightarrow> bytes \<Rightarrow> bytes \<Rightarrow> bytes \<Rightarrow> bytes \<Rightarrow> bytes option" where
  "aead_chacha20_poly1305_open_gather ctx key tag_len nonce inp in_tag ad =
     chacha20_poly1305_open_gather ctx key nonce inp in_tag ad tag_len"

definition aead_xchacha20_poly1305_open_gather ::
  "poly1305_state_st \<Rightarrow> aead_chacha20_poly1305_ctx \<Rightarrow> nat \<Rightarrow> bytes \<Rightarrow> bytes \<Rightarrow> bytes \<Rightarrow> bytes \<Rightarrow> bytes option" where
  "aead_xchacha20_poly1305_open_gather ctx key tag_len nonce inp in_tag ad =
     (if length nonce \<noteq> 24 then None
      else let derived_key = CRYPTO_hchacha20 key (take 16 nonce);
               derived_nonce = replicate 4 0 @ take 8 (drop 16 nonce)
           in chacha20_poly1305_open_gather ctx derived_key derived_nonce inp in_tag ad tag_len)"

text \<open>The tables; \<open>ctx\<close> is the memory that \<open>calc_tag\<close> finds on the stack.\<close>

definition EVP_aead_chacha20_poly1305 :: "poly1305_state_st \<Rightarrow> aead_chacha20_poly1305_ctx evp_aead" where
  "EVP_aead_chacha20_poly1305 ctx =
     \<lparr>key_len = 32, nonce_len = 12, overhead = POLY1305_TAG_LEN, max_tag_len = POLY1305_TAG_LEN,
      seal_scatter_supports_extra_in = True,
      aead_init = Some aead_chacha20_poly1305_init, aead_init_with_direction = None, aead_open = None,
      aead_seal_scatter = aead_chacha20_poly1305_seal_scatter ctx,
      aead_open_gather = Some (aead_chacha20_poly1305_open_gather ctx), aead_get_iv = None, aead_tag_len = None\<rparr>"

definition EVP_aead_xchacha20_poly1305 :: "poly1305_state_st \<Rightarrow> aead_chacha20_poly1305_ctx evp_aead" where
  "EVP_aead_xchacha20_poly1305 ctx =
     \<lparr>key_len = 32, nonce_len = 24, overhead = POLY1305_TAG_LEN, max_tag_len = POLY1305_TAG_LEN,
      seal_scatter_supports_extra_in = True,
      aead_init = Some aead_chacha20_poly1305_init, aead_init_with_direction = None, aead_open = None,
      aead_seal_scatter = aead_xchacha20_poly1305_seal_scatter ctx,
      aead_open_gather = Some (aead_xchacha20_poly1305_open_gather ctx), aead_get_iv = None, aead_tag_len = None\<rparr>"

section \<open>The tag\<close>

text \<open>RFC 8439: the authenticated data.\<close>

definition pad16 :: "nat \<Rightarrow> bytes" where
  "pad16 n = replicate ((16 - n mod 16) mod 16) 0"

definition mac_data :: "bytes \<Rightarrow> bytes \<Rightarrow> bytes" where
  "mac_data ad c = ad @ pad16 (length ad) @ c @ pad16 (length c) @ le_bytes 8 (length ad) @ le_bytes 8 (length c)"

definition one_time_key :: "bytes \<Rightarrow> bytes \<Rightarrow> bytes" where
  "one_time_key key nonce = take 32 (chacha20_block key 0 nonce)"

lemma one_time_key_code:
  assumes "length key = 32" "length nonce = 12"
  shows "CRYPTO_chacha_20 (replicate 32 0) key nonce 0 = one_time_key key nonce"
proof (rule nth_equalityI)
  show "length (CRYPTO_chacha_20 (replicate 32 0) key nonce 0) = length (one_time_key key nonce)"
    by (simp add: chacha_20_xor[OF assms] one_time_key_def length_block[OF assms])
  fix i assume "i < length (CRYPTO_chacha_20 (replicate 32 0) key nonce 0)"
  then have "i < 32" by (simp add: chacha_20_xor[OF assms])
  then show "CRYPTO_chacha_20 (replicate 32 0) key nonce 0 ! i = one_time_key key nonce ! i"
    by (simp add: chacha_20_xor[OF assms] chacha20_xor_def chacha20_stream_def one_time_key_def length_block[OF assms])
qed

lemma length_one_time_key: "length key = 32 \<Longrightarrow> length nonce = 12 \<Longrightarrow> length (one_time_key key nonce) = 32"
  by (simp add: one_time_key_def length_block)

lemma pad16_code:
  "(if n mod 16 \<noteq> 0 then CRYPTO_poly1305_update ctx (take (16 - n mod 16) (replicate 16 0)) else ctx) =
   foldl CRYPTO_poly1305_update ctx (if n mod 16 \<noteq> 0 then [pad16 n] else [])"
  by (simp add: pad16_def min_def)

lemma pad16_concat: "concat (if n mod 16 \<noteq> 0 then [pad16 n] else []) = pad16 n"
  by (simp add: pad16_def)

lemma calc_tag_once:
  assumes "length key = 32" "length nonce = 12"
  shows "calc_tag ctx key nonce ad c ex = poly1305_once (one_time_key key nonce) (mac_data ad (c @ ex))"
proof -
  let ?i = "CRYPTO_poly1305_init (one_time_key key nonce) ctx"
  let ?ps = "[ad] @ (if length ad mod 16 \<noteq> 0 then [pad16 (length ad)] else []) @ [c, ex] @
      (if (length c + length ex) mod 16 \<noteq> 0 then [pad16 (length c + length ex)] else []) @
      [le_bytes 8 (length ad), le_bytes 8 (length c + length ex)]"
  have "calc_tag ctx key nonce ad c ex = fst (CRYPTO_poly1305_finish (foldl CRYPTO_poly1305_update ?i ?ps))"
    unfolding calc_tag_def Let_def poly1305_update_length_def one_time_key_code[OF assms(1,2)] pad16_code
    by (simp only: foldl_append foldl.simps)
  also have "\<dots> = poly1305_once (one_time_key key nonce) (concat ?ps)"
    by (rule poly1305_stream_once)
  also have "concat ?ps = mac_data ad (c @ ex)"
    unfolding concat_append pad16_concat mac_data_def by simp
  finally show ?thesis .
qed

lemma length_calc_tag [simp]: "length (calc_tag ctx key nonce ad c ex) = 16"
  by (simp add: calc_tag_def Let_def CRYPTO_poly1305_finish_def)

section \<open>The extra input\<close>

lemma stream_shift_blocks: "chacha20_stream key (c + word_of_nat q) nonce i = chacha20_stream key c nonce (64 * q + i)"
proof -
  have "(64 * q + i) div 64 = q + i div 64" "(64 * q + i) mod 64 = i mod 64" by simp_all
  then show ?thesis by (simp only: chacha20_stream_def of_nat_add add.assoc)
qed

lemma key_stream_block:
  assumes "length key = 32" "length nonce = 12" "i < n"
  shows "CRYPTO_chacha_20 (replicate n 0) key nonce c ! i = chacha20_stream key c nonce i"
  using assms(3) by (simp add: chacha_20_xor[OF assms(1,2)] chacha20_xor_def)

lemma seal_extra_stream:
  assumes "length key = 32" "length nonce = 12"
  shows "offset < 64 \<Longrightarrow> seal_extra key nonce c offset ex =
    map (\<lambda>i. ex ! i XOR chacha20_stream key c nonce (offset + i)) [0..<length ex]"
proof (induction "length ex" arbitrary: c offset ex rule: less_induct)
  case less
  show ?case
  proof (cases "ex = []")
    case False
    define block where "block = CRYPTO_chacha_20 (replicate 64 0) key nonce c"
    define todo where "todo = min (64 - offset) (length ex)"
    have t: "0 < todo" "todo \<le> length ex" "offset + todo \<le> 64" using less.prems False by (auto simp: todo_def)
    have ih: "seal_extra key nonce (c + 1) 0 (drop todo ex) =
        map (\<lambda>i. drop todo ex ! i XOR chacha20_stream key (c + 1) nonce (0 + i)) [0..<length (drop todo ex)]"
      by (rule less.hyps) (use t in simp_all)
    have lb: "length block = 64" by (simp add: block_def chacha_20_xor[OF assms])
    have e: "seal_extra key nonce c offset ex = map2 (XOR) (take todo ex) (take todo (drop offset block)) @
        seal_extra key nonce (c + 1) 0 (drop todo ex)"
      using False by (subst seal_extra.simps) (simp only: Let_def todo_def block_def if_False)
    show ?thesis
    proof (rule nth_equalityI)
      show "length (seal_extra key nonce c offset ex) = length (map (\<lambda>i. ex ! i XOR chacha20_stream key c nonce (offset + i)) [0..<length ex])"
        unfolding e ih using t lb by simp
      fix i assume "i < length (seal_extra key nonce c offset ex)"
      then have i: "i < length ex" unfolding e ih using t lb by simp
      show "seal_extra key nonce c offset ex ! i = map (\<lambda>i. ex ! i XOR chacha20_stream key c nonce (offset + i)) [0..<length ex] ! i"
      proof (cases "i < todo")
        case True
        then show ?thesis
          unfolding e using t lb i by (simp add: nth_append block_def key_stream_block[OF assms])
      next
        case F: False
        then have j: "i - todo < length ex - todo" "i - todo + 64 = offset + i" using i t by (auto simp: todo_def min_def split: if_splits)
        then show ?thesis
          unfolding e ih using t lb i F by (simp add: nth_append stream_shift)
      qed
    qed
  qed (simp add: seal_extra.simps)
qed

lemma chacha_20_extra:
  assumes "length key = 32" "length nonce = 12"
  shows "CRYPTO_chacha_20 (inp @ ex) key nonce 1 =
    CRYPTO_chacha_20 inp key nonce 1 @ seal_extra key nonce (word_of_nat (1 + length inp div 64)) (length inp mod 64) ex"
proof (rule nth_equalityI)
  have m: "length inp mod 64 < 64" by simp
  note x = seal_extra_stream[OF assms m]
  show "length (CRYPTO_chacha_20 (inp @ ex) key nonce 1) = length (CRYPTO_chacha_20 inp key nonce 1 @
      seal_extra key nonce (word_of_nat (1 + length inp div 64)) (length inp mod 64) ex)"
    by (simp add: chacha_20_xor[OF assms] x)
  fix i assume "i < length (CRYPTO_chacha_20 (inp @ ex) key nonce 1)"
  then have i: "i < length inp + length ex" by (simp add: chacha_20_xor[OF assms])
  have s: "chacha20_stream key (word_of_nat (1 + length inp div 64)) nonce (length inp mod 64 + k) = chacha20_stream key 1 nonce (length inp + k)" for k
    using stream_shift_blocks[of key 1 "length inp div 64" nonce "length inp mod 64 + k"] by (simp add: add.assoc[symmetric])
  show "CRYPTO_chacha_20 (inp @ ex) key nonce 1 ! i = (CRYPTO_chacha_20 inp key nonce 1 @
      seal_extra key nonce (word_of_nat (1 + length inp div 64)) (length inp mod 64) ex) ! i"
  proof (cases "i < length inp")
    case False
    then have "i - length inp < length ex" using i by simp
    then show ?thesis
      unfolding x s chacha_20_xor[OF assms] using i False by (simp add: chacha20_xor_def nth_append)
  qed (simp add: chacha_20_xor[OF assms] chacha20_xor_def nth_append)
qed

section \<open>Sealing and opening\<close>

lemma seal_scatter_value:
  assumes "length key = 32" "length nonce = 12" "length ex + tag_len < SIZE_MOD"
  shows "chacha20_poly1305_seal_scatter ctx key m nonce inp ex ad tag_len =
    (if tag_len + length ex \<le> m \<and> length inp < max_stream_len
     then let c = CRYPTO_chacha_20 (inp @ ex) key nonce 1
          in Some (take (length inp) c, drop (length inp) c @ take tag_len (poly1305_once (one_time_key key nonce) (mac_data ad c)))
     else None)"
proof -
  let ?x = "if length ex \<noteq> 0 then seal_extra key nonce (word_of_nat (1 + length inp div 64)) (length inp mod 64) ex else []"
  have x: "?x = seal_extra key nonce (word_of_nat (1 + length inp div 64)) (length inp mod 64) ex"
    by (simp add: seal_extra.simps)
  have c: "CRYPTO_chacha_20 (inp @ ex) key nonce 1 = CRYPTO_chacha_20 inp key nonce 1 @ ?x"
    unfolding x by (rule chacha_20_extra[OF assms(1,2)])
  have l: "length (CRYPTO_chacha_20 inp key nonce 1) = length inp" by (simp add: chacha_20_xor[OF assms(1,2)])
  have "(length ex + tag_len) mod SIZE_MOD = length ex + tag_len" using assms(3) by simp
  then show ?thesis
    unfolding chacha20_poly1305_seal_scatter_def Let_def calc_tag_once[OF assms(1,2)] c
    using assms(2,3) l by (auto simp: not_less add.commute)
qed

lemma open_gather_value:
  assumes "length key = 32" "length nonce = 12" "tag_len \<le> 16"
  shows "chacha20_poly1305_open_gather ctx key nonce c tag ad tag_len =
    (if length c < max_stream_len \<and> tag = take tag_len (poly1305_once (one_time_key key nonce) (mac_data ad c))
     then Some (CRYPTO_chacha_20 c key nonce 1) else None)"
proof -
  let ?t = "poly1305_once (one_time_key key nonce) (mac_data ad c)"
  have l: "length ?t = 16" by (simp add: poly1305_once_def)
  have "CRYPTO_memcmp ?t tag tag_len = 0 \<longleftrightarrow> take tag_len ?t = tag" if "length tag = tag_len"
    using that assms(3) l by (subst CRYPTO_memcmp_correct) simp_all
  then show ?thesis
    unfolding chacha20_poly1305_open_gather_def Let_def calc_tag_once[OF assms(1,2)]
    using assms l by (auto simp: not_less)
qed

lemma chacha_20_twice: "length key = 32 \<Longrightarrow> length nonce = 12 \<Longrightarrow> CRYPTO_chacha_20 (CRYPTO_chacha_20 inp key nonce c) key nonce c = inp"
  by (simp add: chacha_20_xor chacha20_xor_twice)

lemma length_chacha_20: "length key = 32 \<Longrightarrow> length nonce = 12 \<Longrightarrow> length (CRYPTO_chacha_20 inp key nonce c) = length inp"
  by (simp add: chacha_20_xor)

lemma seal_open_exact:
  assumes "length key = 32" "length nonce = 12" "tag_len \<le> 16" "tag_len \<le> m"
  shows "chacha20_poly1305_seal_scatter ctx key m nonce inp [] ad tag_len = Some (c, tag) \<longleftrightarrow>
    chacha20_poly1305_open_gather ctx key nonce c tag ad tag_len = Some inp"
proof -
  have k: "length ([] :: bytes) + tag_len < SIZE_MOD" using assms(3) by simp
  show ?thesis
    unfolding seal_scatter_value[OF assms(1,2) k] open_gather_value[OF assms(1-3)] Let_def
    using assms(4) chacha_20_twice[OF assms(1,2)] length_chacha_20[OF assms(1,2)] by auto
qed

lemma seal_max: "chacha20_poly1305_seal_scatter ctx key m nonce inp [] ad t = Some (c, tag) \<Longrightarrow> t < SIZE_MOD \<Longrightarrow> t \<le> m"
  by (auto simp: chacha20_poly1305_seal_scatter_def Let_def split: if_splits)

lemma seal_nonce: "chacha20_poly1305_seal_scatter ctx key m nonce inp ex ad t = Some ct \<Longrightarrow> length nonce = 12"
  by (auto simp: chacha20_poly1305_seal_scatter_def Let_def split: if_splits)

lemma open_nonce: "chacha20_poly1305_open_gather ctx key nonce c tag ad t = Some p \<Longrightarrow> length nonce = 12"
  by (auto simp: chacha20_poly1305_open_gather_def split: if_splits)

section \<open>The contract\<close>

definition chacha_key_ok :: "bytes \<Rightarrow> nat \<Rightarrow> bool" where
  "chacha_key_ok key t \<longleftrightarrow> length key = 32 \<and> 0 < t \<and> t \<le> 16"

lemma chacha_init_ok: "aead_chacha20_poly1305_init key n = Some (st, t) \<Longrightarrow> chacha_key_ok st t"
  by (auto simp: aead_chacha20_poly1305_init_def chacha_key_ok_def POLY1305_TAG_LEN_def Let_def split: if_splits)

lemma seal_scatter_lengths:
  assumes "chacha_key_ok key t" "length nonce = 12"
    "chacha20_poly1305_seal_scatter ctx key m nonce inp [] ad t = Some (c, tag)"
  shows "length c = length inp \<and> length tag = t"
proof -
  have k: "length key = 32" "length ([] :: bytes) + t < SIZE_MOD" "t \<le> 16" using assms(1) by (simp_all add: chacha_key_ok_def)
  show ?thesis
    using assms(3) k(3) length_chacha_20[OF k(1) assms(2)] unfolding seal_scatter_value[OF k(1) assms(2) k(2)]
    by (auto simp: Let_def poly1305_once_def split: if_splits)
qed

lemma derived_lengths:
  "length key = 32 \<Longrightarrow> length nonce = 24 \<Longrightarrow>
   length (CRYPTO_hchacha20 key (take 16 nonce)) = 32 \<and> length (replicate 4 0 @ take 8 (drop 16 nonce) :: bytes) = 12"
  by (simp add: length_hchacha20)

lemmas aead_table_simps = EVP_aead_chacha20_poly1305_def EVP_aead_xchacha20_poly1305_def
  aead_chacha20_poly1305_seal_scatter_def aead_xchacha20_poly1305_seal_scatter_def
  aead_chacha20_poly1305_open_gather_def aead_xchacha20_poly1305_open_gather_def POLY1305_TAG_LEN_def Let_def

interpretation chacha_aead: aead_algorithm "EVP_aead_chacha20_poly1305 ctx" "aead_chacha20_poly1305_open_gather ctx" chacha_key_ok for ctx
proof
  fix st :: bytes and t m :: nat and nonce inp ad c tag :: bytes
  assume ok: "chacha_key_ok st t"
  then have k: "length st = 32" "t \<le> 16" "t < SIZE_MOD" by (simp_all add: chacha_key_ok_def)
  show "0 < t \<and> t \<le> overhead (EVP_aead_chacha20_poly1305 ctx)"
    using ok by (simp add: chacha_key_ok_def aead_table_simps)
  { assume "aead_seal_scatter (EVP_aead_chacha20_poly1305 ctx) st t m nonce inp [] ad = Some (c, tag)"
    then have s: "chacha20_poly1305_seal_scatter ctx st m nonce inp [] ad t = Some (c, tag)" by (simp add: aead_table_simps)
    show "length c = length inp \<and> length tag = t" by (rule seal_scatter_lengths[OF ok seal_nonce[OF s] s])
    show "aead_chacha20_poly1305_open_gather ctx st t nonce c tag ad = Some inp"
      using s seal_open_exact[OF k(1) seal_nonce[OF s] k(2) seal_max[OF s k(3)]] by (simp add: aead_table_simps) }
  { assume o: "aead_chacha20_poly1305_open_gather ctx st t nonce c tag ad = Some inp" and m: "t \<le> m"
    then have o: "chacha20_poly1305_open_gather ctx st nonce c tag ad t = Some inp" by (simp add: aead_table_simps)
    show "aead_seal_scatter (EVP_aead_chacha20_poly1305 ctx) st t m nonce inp [] ad = Some (c, tag)"
      using o seal_open_exact[OF k(1) open_nonce[OF o] k(2) m] by (simp add: aead_table_simps) }
qed (auto simp: aead_table_simps chacha_init_ok)

interpretation xchacha_aead: aead_algorithm "EVP_aead_xchacha20_poly1305 ctx" "aead_xchacha20_poly1305_open_gather ctx" chacha_key_ok for ctx
proof
  fix st :: bytes and t m :: nat and nonce inp ad c tag :: bytes
  assume ok: "chacha_key_ok st t"
  then have k: "length st = 32" "t \<le> 16" "t < SIZE_MOD" by (simp_all add: chacha_key_ok_def)
  let ?k = "CRYPTO_hchacha20 st (take 16 nonce)"
  let ?n = "replicate 4 0 @ take 8 (drop 16 nonce)"
  show "0 < t \<and> t \<le> overhead (EVP_aead_xchacha20_poly1305 ctx)"
    using ok by (simp add: chacha_key_ok_def aead_table_simps)
  { assume "aead_seal_scatter (EVP_aead_xchacha20_poly1305 ctx) st t m nonce inp [] ad = Some (c, tag)"
    then have n: "length nonce = 24" and s: "chacha20_poly1305_seal_scatter ctx ?k m ?n inp [] ad t = Some (c, tag)"
      by (simp_all add: aead_table_simps split: if_splits)
    note d = derived_lengths[OF k(1) n]
    have ok': "chacha_key_ok ?k t" using d ok by (simp add: chacha_key_ok_def)
    show "length c = length inp \<and> length tag = t" by (rule seal_scatter_lengths[OF ok' seal_nonce[OF s] s])
    show "aead_xchacha20_poly1305_open_gather ctx st t nonce c tag ad = Some inp"
      using s n seal_open_exact[OF d[THEN conjunct1] d[THEN conjunct2] k(2) seal_max[OF s k(3)]] by (simp add: aead_table_simps) }
  { assume o: "aead_xchacha20_poly1305_open_gather ctx st t nonce c tag ad = Some inp" and m: "t \<le> m"
    then have n: "length nonce = 24" and o: "chacha20_poly1305_open_gather ctx ?k ?n c tag ad t = Some inp"
      by (simp_all add: aead_table_simps split: if_splits)
    note d = derived_lengths[OF k(1) n]
    show "aead_seal_scatter (EVP_aead_xchacha20_poly1305 ctx) st t m nonce inp [] ad = Some (c, tag)"
      using o n seal_open_exact[OF d[THEN conjunct1] d[THEN conjunct2] k(2) m] by (simp add: aead_table_simps) }
qed (auto simp: aead_table_simps chacha_init_ok)

section \<open>Properties\<close>


definition example_ctx :: "bytes evp_aead_ctx" where
  "example_ctx =
     snd (EVP_AEAD_CTX_init \<lparr>ctx_aead = None, ctx_state = [], ctx_tag_len = 0\<rparr>
       (EVP_aead_xchacha20_poly1305 poly1305_zero_state) (replicate 32 7) 12)"

lemma example_ctx_init:
  "EVP_AEAD_CTX_init \<lparr>ctx_aead = None, ctx_state = [], ctx_tag_len = 0\<rparr>
     (EVP_aead_xchacha20_poly1305 poly1305_zero_state) (replicate 32 7) 12 = (True, example_ctx)"
  "ctx_tag_len example_ctx = 12"
  by (simp_all add: example_ctx_def EVP_AEAD_CTX_init_def EVP_AEAD_CTX_init_with_direction_def aead_table_simps
      aead_chacha20_poly1305_init_def)


text \<open>C39: \<open>chacha20_poly1305_seal_scatter\<close> is the construction of RFC 8439: the ciphertext is the plaintext
  xored with the key stream from block 1 on, and the tag is Poly1305, under the first half of block 0, over
  the padded additional data, the padded ciphertext and their lengths, cut to the length chosen when the
  context was made; the tag may differ from the standard's only by the lost carry of \<open>Poly1305\<close>.\<close>

theorem chacha20_poly1305_seal_rfc8439:
  assumes "length key = 32" "length nonce = 12" "length inp < max_stream_len" "tag_len \<le> 16" "tag_len \<le> room"
  shows "\<exists>tag. aead_seal_scatter (EVP_aead_chacha20_poly1305 stack) key tag_len room nonce inp [] ad =
      Some (chacha20_xor inp key nonce 1, take tag_len tag) \<and>
    (let otk = one_time_key key nonce; text = mac_data ad (chacha20_xor inp key nonce 1);
         a = poly1305_acc (poly1305_r otk) 0 text
     in tag = poly1305_mac otk text \<or>
        poly1305_lost_carry a \<and> tag = le_bytes 16 (a - 2 ^ 26 + le_val (take 16 (drop 16 otk))))"
proof -
  have k: "length ([] :: bytes) + tag_len < SIZE_MOD" using assms(4) by simp
  have "aead_seal_scatter (EVP_aead_chacha20_poly1305 stack) key tag_len room nonce inp [] ad =
      Some (chacha20_xor inp key nonce 1,
        take tag_len (poly1305_once (one_time_key key nonce) (mac_data ad (chacha20_xor inp key nonce 1))))"
    using seal_scatter_value[OF assms(1,2) k, of stack room inp ad] assms(3,5)
    by (simp add: aead_table_simps chacha_20_xor[OF assms(1,2)])
  then show ?thesis
    using poly1305_once_mac[OF length_one_time_key[OF assms(1,2)]] unfolding Let_def by blast
qed

theorem chacha20_poly1305_seal_rfc8439_witness:
  "\<exists>tag. aead_seal_scatter (EVP_aead_chacha20_poly1305 poly1305_zero_state) (replicate 32 1) 16 16 (replicate 12 2) [3, 4] [] [5] =
      Some (chacha20_xor [3, 4] (replicate 32 1) (replicate 12 2) 1, take 16 tag) \<and>
    (let otk = one_time_key (replicate 32 1) (replicate 12 2);
         text = mac_data [5] (chacha20_xor [3, 4] (replicate 32 1) (replicate 12 2) 1);
         a = poly1305_acc (poly1305_r otk) 0 text
     in tag = poly1305_mac otk text \<or>
        poly1305_lost_carry a \<and> tag = le_bytes 16 (a - 2 ^ 26 + le_val (take 16 (drop 16 otk))))"
  by (rule chacha20_poly1305_seal_rfc8439) (simp_all add: max_stream_len_def)

text \<open>C40: The extra input, which the code encrypts first, byte by byte from the middle of a block of the key
  stream, and whose ciphertext goes in front of the tag, gives the same bytes as sealing the input and the
  extra input in one piece.\<close>

theorem chacha20_poly1305_extra_in:
  assumes "length key = 32" "length nonce = 12" "length (inp @ extra_in) < max_stream_len" "tag_len \<le> 16"
    and "tag_len + length extra_in \<le> room"
  shows "\<exists>c tag c' tag'.
    chacha20_poly1305_seal_scatter stack key room nonce inp extra_in ad tag_len = Some (c, tag) \<and>
    chacha20_poly1305_seal_scatter stack' key tag_len nonce (inp @ extra_in) [] ad tag_len = Some (c', tag') \<and>
    length c = length inp \<and> length c' = length (inp @ extra_in) \<and> c @ tag = c' @ tag'"
proof -
  have k: "length ([] :: bytes) + tag_len < SIZE_MOD" "length extra_in + tag_len < SIZE_MOD"
    using assms(3,4) by (simp_all add: max_stream_len_def)
  let ?c = "CRYPTO_chacha_20 (inp @ extra_in) key nonce 1"
  have l: "length ?c = length (inp @ extra_in)" by (rule length_chacha_20[OF assms(1,2)])
  show ?thesis
    unfolding seal_scatter_value[OF assms(1,2) k(1)] seal_scatter_value[OF assms(1,2) k(2)]
    using assms(3,5) l by (simp add: Let_def flip: append_assoc)
qed

theorem chacha20_poly1305_extra_in_witness:
  "\<exists>c tag c' tag'.
    chacha20_poly1305_seal_scatter poly1305_zero_state (replicate 32 1) 20 (replicate 12 2) [3, 4] [6, 7, 8] [5] 16 = Some (c, tag) \<and>
    chacha20_poly1305_seal_scatter poly1305_zero_state (replicate 32 1) 16 (replicate 12 2) ([3, 4] @ [6, 7, 8]) [] [5] 16 = Some (c', tag') \<and>
    length c = length [3 :: u8, 4] \<and> length c' = length ([3, 4] @ [6 :: u8, 7, 8]) \<and> c @ tag = c' @ tag'"
  by (rule chacha20_poly1305_extra_in) (simp_all add: max_stream_len_def)

end
