(* ===== verification/Spec2Isabelle.thy ===== *)
theory Spec2Isabelle
  imports Prelude Endian ConstTime Mem Qsort Cbs Cbb Der Unicode Ber Base64 Stack Lhash Pool Buf
    Rounds Md32 Sha256 Sha1 Sha512 Md5 Md4 Digest Hmac Hkdf Chacha Poly1305 Aead ChachaPoly
begin

text \<open>
  A model of the data-handling core of BoringSSL as it is vendored in the iOS build of the
  application (\<open>src/sopep_app-main/ios/Pods/BoringSSL-GRPC/src/crypto\<close>, called \<open>crypto/\<close> below).  The
  application itself is Dart; its C code is the TLS and storage stack that its pods compile.  The
  development covers the layer of that stack on which parsing, serialising and object lifetime
  rest: byte strings, DER and BER, text encodings, the allocator, the generic containers and the
  message digests.

  \<^bold>\<open>Parts.\<close>
  \<^item> \<open>Prelude\<close>: types of machine integers and byte strings, big- and little-endian values, lemmas that
    all theories share.  \<open>Qsort\<close>: the C library's \<open>qsort\<close> as a sort by a comparison function, with
    the locale \<open>comparison\<close> of what it needs.
  \<^item> \<open>Endian\<close>, \<open>ConstTime\<close>: the inline functions of \<open>crypto/internal.h\<close> (byte order, rotations,
    constant-time masks).
  \<^item> \<open>Mem\<close>: \<open>crypto/mem.c\<close>, the allocator with its size prefix over the system allocator, comparison,
    hashing, C strings.  \<open>Buf\<close>: \<open>crypto/buf/buf.c\<close> on top of it.
  \<^item> \<open>Cbs\<close>, \<open>Cbb\<close>: \<open>crypto/bytestring/cbs.c\<close> and \<open>cbb.c\<close>, the reader and the writer of byte strings
    and of ASN.1 elements.  \<open>Der\<close>: the properties that tie the two together.  \<open>Unicode\<close>:
    \<open>crypto/bytestring/unicode.c\<close>.  \<open>Ber\<close>: \<open>crypto/bytestring/ber.c\<close>, which reads BER through the
    reader and writes DER through the writer.
  \<^item> \<open>Base64\<close>: \<open>crypto/base64/base64.c\<close>, in one call and as a stream.
  \<^item> \<open>Stack\<close>, \<open>Lhash\<close>: the containers \<open>crypto/stack/stack.c\<close> and \<open>crypto/lhash/lhash.c\<close>.  \<open>Pool\<close>:
    \<open>crypto/pool/pool.c\<close> with the reference counts of \<open>crypto/refcount_c11.c\<close>, a client of the hash
    table and of the hash of \<open>Mem\<close>.
  \<^item> \<open>Md32\<close>: \<open>crypto/fipsmodule/digest/md32_common.h\<close>, which cuts a stream into blocks for \<open>Sha256\<close>,
    \<open>Sha1\<close>, \<open>Md5\<close> and \<open>Md4\<close> (\<open>fipsmodule/sha/sha256.c\<close>, \<open>sha1.c\<close>, \<open>md5/md5.c\<close>, \<open>md4/md4.c\<close>); \<open>Sha512\<close>:
    \<open>sha512.c\<close>, with a collector of its own.  \<open>Rounds\<close>: macro calls on shifted variables and message
    schedules in a circular buffer, which the block functions share.
  \<^item> \<open>Digest\<close>: \<open>crypto/fipsmodule/digest/digest.c\<close> and \<open>digests.c\<close>, contexts over a table of methods for
    each digest.  \<open>Hmac\<close>: \<open>crypto/fipsmodule/hmac/hmac.c\<close> over three such contexts.  \<open>Hkdf\<close>:
    \<open>crypto/hkdf/hkdf.c\<close> over HMAC.
  \<^item> \<open>Chacha\<close>: \<open>crypto/chacha/chacha.c\<close>, the stream cipher.  \<open>Poly1305\<close>: \<open>crypto/poly1305/poly1305.c\<close>, the
    authenticator.  \<open>Aead\<close>: \<open>crypto/fipsmodule/cipher/aead.c\<close>, the interface to authenticated encryption over
    a table for each algorithm; \<open>ChachaPoly\<close>: \<open>crypto/cipher_extra/e_chacha20poly1305.c\<close>, two such tables.

  \<^bold>\<open>Correspondence.\<close>  A definition has the name of the C function it translates.  A function that updates
  an object through a pointer takes the object's record and returns it updated; an output parameter
  is a component of the result; a return of 0 or \<open>NULL\<close> is \<open>None\<close> or \<open>False\<close>.  \<open>size_t\<close> values are
  naturals, with \<open>mod SIZE_MOD\<close> wherever the code can wrap; fixed-width integers are words.  A loop
  is a recursive definition of its own, named after the function.  The build is 64-bit
  little-endian without assembly (\<open>OPENSSL_NO_ASM\<close>), and \<open>char\<close> is signed.  The system's allocator
  is a parameter: a function from the size to the new block, or a predicate on sizes where the
  contents do not matter.

  \<^bold>\<open>What is shown.\<close>
  \<^item> \<open>Der\<close>: the element reader accepts exactly the DER encodings, which are unique; flushing a writer
    produces the rendering of the tree of pending elements; what the writers emit is read back
    (length-prefixed strings, integers, object identifiers); a SET OF is sorted.
  \<^item> \<open>Ber\<close>: an independent grammar of BER; the conversion gives the DER form of every well-formed input
    that is recognised as BER, leaves DER alone, and the exact verdict of the search.
  \<^item> \<open>Unicode\<close>: the decoder accepts exactly the shortest encodings of valid code points.  \<open>Base64\<close>: the
    encoder computes the textbook encoding, and decoding inverts it, in any split of a stream.
  \<^item> \<open>Mem\<close>, \<open>Buf\<close>: no access leaves a block, the contents survive growth, failures change nothing.
  \<^item> \<open>Stack\<close>: insertion, deletion and search, sorted or not; deep copies do not leak when the copy of an
    element fails.
  \<^item> \<open>Lhash\<close>: a run of the table is a run of a finite map, through the locales \<open>hash_functions\<close> (what
    the client's functions must satisfy) and \<open>dictionary\<close> (what the table gives back); the chains stay
    short.  \<open>Pool\<close> interprets \<open>hash_functions\<close> on its own hash and comparison and shows that reference
    counting is safe under every interleaving of the critical sections, and that equal buffers are
    shared.
  \<^item> \<open>Md32\<close> and the digests: each block function, as the code unrolls it, folds the compression function
    of its standard (FIPS 180-4, RFC 1320, RFC 1321); with that contract, the locale \<open>block_function\<close>,
    interpreted for every digest, hashing a stream is hashing the concatenation of its pieces.
  \<^item> \<open>Digest\<close>, \<open>Hmac\<close>, \<open>Hkdf\<close>: the locale \<open>digest_method\<close> is the contract of a method, kept by all nine;
    on it the contexts, HMAC (FIPS 198-1) and HKDF (RFC 5869) are shown to compute what their
    documents define, through every change of key, rewinding and failure of the allocator.
  \<^item> \<open>Chacha\<close>: the code's indexed quarter rounds are the rounds of RFC 8439 on the rows of a matrix, and
    the loop xors the input with the key stream.  \<open>Poly1305\<close>: the partly carried limbs stand for the
    number modulo \<open>2 ^ 130 - 5\<close> of RFC 8439 within bounds that exclude overflow; the tag is the
    standard's but for one form of the accumulator, where the last carry is lost, with an example.  \<open>Aead\<close>, \<open>ChachaPoly\<close>: the locale \<open>aead_algorithm\<close> is
    the contract of a table, kept by both; through it a message opens exactly when it was sealed.

  \<^bold>\<open>Bounds.\<close>  No definition has fuel: every loop and recursion is shown to terminate by the length of the
  input or by the size of the remaining range.  The limits in the statements are those of the code
  (lengths below \<open>2 ^ 32\<close> for elements, \<open>kMaxDepth\<close> for nesting, \<open>SIZE_MOD\<close> for sizes).  The number of
  items of a hash table is a natural, since each item is an allocation and the address space has less
  than \<open>SIZE_MOD\<close> bytes.

  \<^bold>\<open>Not modelled.\<close>  Timing (the constant-time functions are modelled by their values); the error queue; the
  mutexes, except as the boundaries of the steps of \<open>Pool\<close>; a callback that changes the table it is
  called from in \<open>OPENSSL_lh_doall_arg\<close>; \<open>BIO_snprintf\<close>.  The rest of BoringSSL (big numbers, block ciphers,
  signatures, X.509, TLS) and the other pods are outside this layer; the application's Dart code is not
  C.
\<close>

end
